(* ===== verification/Prelude.thy ===== *)
theory Prelude
  imports Main
begin

text \<open>
  The shared base of the development: the result type of operations that can go wrong, its
  sequencing operators, loops over a list that stop at the first fault, and the collections the
  component theories add their facts to.
\<close>

named_theorems handler_simps
  "unfolding equations of the handlers: how each operation computes"

named_theorems frame_simps
  "fields of the state an operation leaves alone"

section \<open>Faults\<close>

text \<open>
  What a C++ operation may do instead of returning: dereference a null pointer, use a deleted
  object, advance an iterator into a vector that was modified, read a captured reference whose
  variable is gone, run past the end of a buffer, recurse for ever, or throw (the thrown text is
  the argument; exceptions of the standard library carry their class name).
\<close>

datatype fault =
    NullDeref
  | UseAfterFree
  | InvalidIterator
  | DanglingCapture
  | OutOfBounds
  | StackOverflow
  | Thrown string

type_synonym 'a res = "fault + 'a"

definition bindE :: "'a res \<Rightarrow> ('a \<Rightarrow> 'b res) \<Rightarrow> 'b res" where
  "bindE m f = (case m of Inl e \<Rightarrow> Inl e | Inr x \<Rightarrow> f x)"

lemma bindE_Inl [simp]: "bindE (Inl e) f = Inl e"
  by (simp add: bindE_def)

lemma bindE_Inr [simp]: "bindE (Inr x) f = f x"
  by (simp add: bindE_def)

lemma bindE_Inr_right [simp]: "bindE m Inr = m"
  by (cases m) simp_all

lemma bindE_assoc: "bindE (bindE m f) g = bindE m (\<lambda>x. bindE (f x) g)"
  by (cases m) simp_all

lemma bindE_eq_Inr_iff: "bindE m f = Inr y \<longleftrightarrow> (\<exists>x. m = Inr x \<and> f x = Inr y)"
  by (cases m) simp_all

lemma bindE_eq_Inl_iff:
  "bindE m f = Inl e \<longleftrightarrow> m = Inl e \<or> (\<exists>x. m = Inr x \<and> f x = Inl e)"
  by (cases m) auto

lemma bindE_InrE [elim!]:
  assumes "bindE m f = Inr y"
  obtains x where "m = Inr x" and "f x = Inr y"
  using assms by (auto simp: bindE_eq_Inr_iff)

lemma bindE_cong [fundef_cong]:
  "m = m' \<Longrightarrow> (\<And>x. m' = Inr x \<Longrightarrow> f x = g x) \<Longrightarrow> bindE m f = bindE m' g"
  by (cases m') simp_all

definition deref :: "'a option \<Rightarrow> 'a res" where
  "deref p = (case p of None \<Rightarrow> Inl NullDeref | Some x \<Rightarrow> Inr x)"

lemma deref_simps [simp]: "deref None = Inl NullDeref" "deref (Some x) = Inr x"
  by (simp_all add: deref_def)

lemma deref_eq_Inr [simp]: "deref p = Inr x \<longleftrightarrow> p = Some x"
  by (cases p) simp_all

definition live :: "('k \<rightharpoonup> 'v) \<Rightarrow> 'k \<Rightarrow> 'v res" where
  "live tab k = (case tab k of None \<Rightarrow> Inl UseAfterFree | Some x \<Rightarrow> Inr x)"

lemma live_simps [simp]:
  "tab k = None \<Longrightarrow> live tab k = Inl UseAfterFree"
  "tab k = Some x \<Longrightarrow> live tab k = Inr x"
  by (simp_all add: live_def)

lemma live_eq_Inr [simp]: "live tab k = Inr x \<longleftrightarrow> tab k = Some x"
  by (cases "tab k") (simp_all add: live_def)

section \<open>Loops\<close>

text \<open>A range-for over a list whose body updates the state and may fault.\<close>

fun foldE :: "('a \<Rightarrow> 's \<Rightarrow> 's res) \<Rightarrow> 'a list \<Rightarrow> 's \<Rightarrow> 's res" where
  "foldE f [] s = Inr s"
| "foldE f (x # xs) s = bindE (f x s) (foldE f xs)"

lemma foldE_Nil_fun [simp]: "foldE f [] = Inr"
  by (rule ext) simp

lemma foldE_append: "foldE f (xs @ ys) s = bindE (foldE f xs s) (foldE f ys)"
proof (induction xs arbitrary: s)
  case (Cons x xs)
  then show ?case by (cases "f x s") simp_all
qed simp

lemma foldE_invariant:
  assumes "foldE f xs s = Inr t" and "I s"
    and "\<And>x u v. x \<in> set xs \<Longrightarrow> I u \<Longrightarrow> f x u = Inr v \<Longrightarrow> I v"
  shows "I t"
  using assms
proof (induction xs arbitrary: s)
  case (Cons x xs)
  then obtain u where u: "f x s = Inr u" "foldE f xs u = Inr t" by auto
  have "I u" using Cons.prems(2) u(1) by (rule Cons.prems(3) [rotated]) simp
  with u(2) show ?case by (rule Cons.IH) (rule Cons.prems(3), auto)
qed simp

lemma foldE_total:
  assumes "I s"
    and "\<And>x u. x \<in> set xs \<Longrightarrow> I u \<Longrightarrow> \<exists>v. f x u = Inr v \<and> I v"
  shows "\<exists>t. foldE f xs s = Inr t \<and> I t"
  using assms
proof (induction xs arbitrary: s)
  case (Cons x xs)
  obtain u where "f x s = Inr u" "I u" using Cons.prems by auto
  moreover have "\<exists>t. foldE f xs u = Inr t \<and> I t"
    using Cons.prems \<open>I u\<close> by (intro Cons.IH) auto
  ultimately show ?case by simp
qed simp

lemma foldE_pure: "foldE (\<lambda>x s. Inr (f x s)) xs s = Inr (fold f xs s)"
  by (induction xs arbitrary: s) simp_all

lemma foldE_cong [fundef_cong]:
  "xs = ys \<Longrightarrow> s = t \<Longrightarrow> (\<And>x u. x \<in> set ys \<Longrightarrow> f x u = g x u) \<Longrightarrow> foldE f xs s = foldE g ys t"
proof (induction ys arbitrary: xs s t)
  case (Cons y ys)
  have "foldE f ys u = foldE g ys u" for u
    using Cons.prems(3) by (intro Cons.IH) auto
  then have "foldE f ys = foldE g ys" by (rule ext)
  with Cons.prems show ?case by simp
qed simp

section \<open>Vectors and maps\<close>

text \<open>\<open>vector_remove\<close> of utils/utils.h: the erase-remove idiom drops every copy.\<close>

definition vector_remove :: "'a list \<Rightarrow> 'a \<Rightarrow> 'a list" where
  "vector_remove v a = filter (\<lambda>x. x \<noteq> a) v"

lemma set_vector_remove [simp]: "set (vector_remove v a) = set v - {a}"
  by (auto simp: vector_remove_def)

lemma distinct_vector_remove [intro]: "distinct v \<Longrightarrow> distinct (vector_remove v a)"
  by (simp add: vector_remove_def)

lemma vector_remove_notin [simp]: "a \<notin> set v \<Longrightarrow> vector_remove v a = v"
  by (auto simp: vector_remove_def filter_id_conv)

lemma vector_remove_append [simp]:
  "vector_remove (v @ w) a = vector_remove v a @ vector_remove w a"
  by (simp add: vector_remove_def)

text \<open>The first element of a vector that satisfies a test, as the lookup loops compute it.\<close>

lemma find_append:
  "List.find P (xs @ ys) = (case List.find P xs of None \<Rightarrow> List.find P ys | Some x \<Rightarrow> Some x)"
  by (induction xs) simp_all

lemma find_SomeD: "List.find P xs = Some x \<Longrightarrow> x \<in> set xs \<and> P x"
  by (auto simp: find_Some_iff)

text \<open>The first element of an integer range, split off.\<close>

lemma all_int_from_split:
  "(\<forall>q::int. f \<le> q \<and> Q q \<longrightarrow> P q) \<longleftrightarrow> (Q f \<longrightarrow> P f) \<and> (\<forall>q. f + 1 \<le> q \<and> Q q \<longrightarrow> P q)"
proof
  assume R: "(Q f \<longrightarrow> P f) \<and> (\<forall>q. f + 1 \<le> q \<and> Q q \<longrightarrow> P q)"
  have "P q" if "f \<le> q" "Q q" for q using R that by (cases "q = f") auto
  then show "\<forall>q. f \<le> q \<and> Q q \<longrightarrow> P q" by blast
qed simp

lemma dom_update_Some [simp]: "m k = Some x \<Longrightarrow> dom (m(k \<mapsto> y)) = dom m"
  by auto

end
