(* ===== verification/CLib.thy ===== *)
theory CLib
  imports Prelude
begin

text \<open>
  The part of the C and C++ standard libraries the sources use on strings and integers:
  decimal output of an int (ostream), \<open>atoi\<close> on top of \<open>strtol\<close>, \<open>c_str\<close> and \<open>tolower\<close>.
  The main result is the round trip: \<open>atoi\<close> reads back what ostream prints.
\<close>

section \<open>Characters\<close>

definition NUL :: char where
  "NUL = CHR 0x00"

definition NL :: char where
  "NL = CHR 0x0A"

definition isdigit :: "char \<Rightarrow> bool" where
  "isdigit c \<longleftrightarrow> 48 \<le> (of_char c :: nat) \<and> (of_char c :: nat) \<le> 57"

definition isspace :: "char \<Rightarrow> bool" where
  "isspace c \<longleftrightarrow> c = CHR 0x20 \<or> 9 \<le> (of_char c :: nat) \<and> (of_char c :: nat) \<le> 13"

text \<open>\<open>::tolower\<close> in the C locale: only the letters A to Z change.\<close>

definition tolower :: "char \<Rightarrow> char" where
  "tolower c =
     (if 65 \<le> (of_char c :: nat) \<and> (of_char c :: nat) \<le> 90
      then char_of ((of_char c :: nat) + 32) else c)"

text \<open>The bytes a C string function sees of a \<open>std::string\<close>: up to the first NUL.\<close>

definition c_str :: "string \<Rightarrow> string" where
  "c_str s = takeWhile (\<lambda>c. c \<noteq> NUL) s"

lemma c_str_id [simp]: "NUL \<notin> set s \<Longrightarrow> c_str s = s"
  by (auto simp: c_str_def takeWhile_eq_all_conv)

lemma NUL_notin_c_str [simp]: "NUL \<notin> set (c_str s)"
  by (auto simp: c_str_def dest: set_takeWhileD)

section \<open>Printing integers\<close>

definition digit :: "nat \<Rightarrow> char" where
  "digit n = char_of (48 + n)"

fun show_nat :: "nat \<Rightarrow> string" where
  "show_nat n = (if n < 10 then [digit n] else show_nat (n div 10) @ [digit (n mod 10)])"

declare show_nat.simps [simp del]

definition show_int :: "int \<Rightarrow> string" where
  "show_int i = (if i < 0 then CHR ''-'' # show_nat (nat (- i)) else show_nat (nat i))"

lemma of_char_digit [simp]: "n < 10 \<Longrightarrow> (of_char (digit n) :: nat) = 48 + n"
  by (simp add: digit_def)

lemma isdigit_digit [simp]: "n < 10 \<Longrightarrow> isdigit (digit n)"
  by (simp add: isdigit_def)

lemma show_nat_digits: "c \<in> set (show_nat n) \<Longrightarrow> isdigit c"
proof (induction n rule: show_nat.induct)
  case (1 n)
  then show ?case by (subst (asm) (2) show_nat.simps) (auto split: if_splits)
qed

lemma show_nat_nonempty [simp]: "show_nat n \<noteq> []"
  by (subst show_nat.simps) simp

section \<open>Reading integers\<close>

fun digits_value :: "nat \<Rightarrow> string \<Rightarrow> nat" where
  "digits_value acc [] = acc"
| "digits_value acc (c # cs) = digits_value (10 * acc + (of_char c - 48)) cs"

lemma digits_value_append:
  "digits_value acc (xs @ [c]) = 10 * digits_value acc xs + (of_char c - 48)"
  by (induction xs arbitrary: acc) simp_all

lemma digits_value_show_nat: "digits_value 0 (show_nat n) = n"
proof (induction n rule: show_nat.induct)
  case (1 n)
  then show ?case
    by (subst show_nat.simps) (simp add: digits_value_append)
qed

text \<open>
  \<open>strtol\<close> in base 10 on a 64-bit long: skip white space, an optional sign, the digits;
  out-of-range values saturate.
\<close>

definition long_min :: int where "long_min = - (2 ^ 63)"

definition long_max :: int where "long_max = 2 ^ 63 - 1"

fun strtol_sign :: "string \<Rightarrow> bool \<times> string" where
  "strtol_sign [] = (False, [])"
| "strtol_sign (c # cs) =
     (if c = CHR ''-'' then (True, cs) else if c = CHR ''+'' then (False, cs) else (False, c # cs))"

definition strtol :: "string \<Rightarrow> int" where
  "strtol s =
     (case strtol_sign (dropWhile isspace s) of (neg, t) \<Rightarrow>
        let v = int (digits_value 0 (takeWhile isdigit t)) in
        max long_min (min long_max (if neg then - v else v)))"

text \<open>glibc's \<open>atoi\<close>: the long is cut to a 32-bit int.\<close>

definition atoi :: "string \<Rightarrow> int" where
  "atoi s = signed_take_bit 31 (strtol s)"

definition int32 :: "int \<Rightarrow> bool" where
  "int32 i \<longleftrightarrow> - (2 ^ 31) \<le> i \<and> i < 2 ^ 31"

lemma signed_take_bit_int32: "int32 i \<Longrightarrow> signed_take_bit 31 i = i"
  by (simp add: int32_def signed_take_bit_int_eq_self)

lemma int32_atoi [simp, intro]: "int32 (atoi s)"
proof -
  have "- (2 ^ 31) \<le> atoi s"
    unfolding atoi_def using signed_take_bit_int_greater_eq_minus_exp [of 31] by simp
  moreover have "atoi s < 2 ^ 31"
    unfolding atoi_def using signed_take_bit_int_less_exp [of 31] by simp
  ultimately show ?thesis by (simp add: int32_def)
qed

lemma digit_not_special:
  "isdigit c \<Longrightarrow> \<not> isspace c \<and> c \<noteq> CHR ''-'' \<and> c \<noteq> CHR ''+''"
  by (auto simp: isdigit_def isspace_def)

lemma takeWhile_show_nat:
  "(rest = [] \<or> \<not> isdigit (hd rest)) \<Longrightarrow> takeWhile isdigit (show_nat n @ rest) = show_nat n"
  by (cases rest) (auto simp: takeWhile_append show_nat_digits)

lemma strtol_show_nat:
  assumes "rest = [] \<or> \<not> isdigit (hd rest)" and "int n \<le> long_max"
  shows "strtol (show_nat n @ rest) = int n"
proof -
  obtain d ds where ds: "show_nat n = d # ds" by (cases "show_nat n") auto
  have d: "isdigit d" using ds show_nat_digits [of d n] by simp
  then have "dropWhile isspace (show_nat n @ rest) = show_nat n @ rest"
    using digit_not_special ds by simp
  moreover have "strtol_sign (show_nat n @ rest) = (False, show_nat n @ rest)"
    using digit_not_special [OF d] ds by simp
  moreover have "long_min \<le> int n" by (simp add: long_min_def)
  ultimately show ?thesis
    using assms
    by (simp add: strtol_def takeWhile_show_nat [OF assms(1)] digits_value_show_nat)
qed

lemma strtol_show_neg:
  assumes "rest = [] \<or> \<not> isdigit (hd rest)" and "int n \<le> long_max"
  shows "strtol (CHR ''-'' # show_nat n @ rest) = - int n"
proof -
  have "dropWhile isspace (CHR ''-'' # show_nat n @ rest) = CHR ''-'' # show_nat n @ rest"
    by (simp add: isspace_def)
  moreover have "long_min \<le> - int n" "- int n \<le> long_max"
    using assms(2) by (simp_all add: long_min_def long_max_def)
  ultimately show ?thesis
    by (simp add: strtol_def takeWhile_show_nat [OF assms(1)] digits_value_show_nat)
qed

lemma atoi_show_int_append:
  assumes "int32 i" and "rest = [] \<or> \<not> isdigit (hd rest)"
  shows "atoi (show_int i @ rest) = i"
proof (cases "i < 0")
  case True
  then have "int (nat (- i)) \<le> long_max" using assms(1) by (simp add: int32_def long_max_def)
  with True assms show ?thesis
    by (simp add: atoi_def show_int_def strtol_show_neg signed_take_bit_int32)
next
  case False
  then have "int (nat i) \<le> long_max" using assms(1) by (simp add: int32_def long_max_def)
  with False assms show ?thesis
    by (simp add: atoi_def show_int_def strtol_show_nat signed_take_bit_int32)
qed

lemma atoi_show_int [simp]: "int32 i \<Longrightarrow> atoi (show_int i) = i"
  using atoi_show_int_append [of i "[]"] by simp

lemma atoi_Nil [simp]: "atoi [] = 0"
  by (simp add: atoi_def strtol_def long_min_def long_max_def)

lemma show_int_chars: "c \<in> set (show_int i) \<Longrightarrow> isdigit c \<or> c = CHR ''-''"
  by (auto simp: show_int_def show_nat_digits split: if_splits)

lemma show_int_nonempty [simp]: "show_int i \<noteq> []"
  by (simp add: show_int_def)

text \<open>None of the separators of the wire formats occurs in a printed int.\<close>

lemma show_int_no_special [simp]:
  "CHR '':'' \<notin> set (show_int i)" "CHR ''|'' \<notin> set (show_int i)"
  "CHR ''='' \<notin> set (show_int i)" "CHR ''/'' \<notin> set (show_int i)"
  "NUL \<notin> set (show_int i)" "NL \<notin> set (show_int i)"
  by (auto dest!: show_int_chars simp: isdigit_def NUL_def NL_def)

lemmas show_int_raw [simp] = show_int_no_special [unfolded NUL_def NL_def]

end
