(* ===== verification/StrUtils.thy ===== *)
theory StrUtils
  imports CLib
begin

text \<open>
  The string helpers of src/utils/utils.cpp over \<open>std::string\<close> as a list of bytes.
  \<open>str_find\<close> is \<open>std::string::find\<close>; the code's helpers are built on it. The lemmas give
  the split laws the wire formats rest on, and \<open>str_replace\<close>, a loop over a growing string, is
  shown to return exactly for a non-empty search string.
\<close>

section \<open>Searching\<close>

fun str_find :: "string \<Rightarrow> string \<Rightarrow> nat option" where
  "str_find [] p = (if p = [] then Some 0 else None)"
| "str_find (c # s) p =
     (if take (length p) (c # s) = p then Some 0 else map_option Suc (str_find s p))"

definition str_ends_with :: "string \<Rightarrow> string \<Rightarrow> bool" where
  "str_ends_with s suffix =
     (if length s < length suffix then False
      else take (length suffix) (drop (length s - length suffix) s) = suffix)"

definition str_starts_with :: "string \<Rightarrow> string \<Rightarrow> bool" where
  "str_starts_with s p \<longleftrightarrow> take (length p) s = p"

definition str_after :: "string \<Rightarrow> string \<Rightarrow> string" where
  "str_after s p = (case str_find s p of None \<Rightarrow> s | Some i \<Rightarrow> drop (i + length p) s)"

definition str_before :: "string \<Rightarrow> string \<Rightarrow> string" where
  "str_before s p = (case str_find s p of None \<Rightarrow> s | Some i \<Rightarrow> take i s)"

definition str_between :: "string \<Rightarrow> string \<Rightarrow> string \<Rightarrow> string" where
  "str_between s p q = str_before (str_after s p) q"

definition str_has :: "string \<Rightarrow> string \<Rightarrow> bool" where
  "str_has s p \<longleftrightarrow> str_find s p \<noteq> None"

definition str_to_lower :: "string \<Rightarrow> string" where
  "str_to_lower s = map tolower s"

text \<open>What \<open>find\<close> promises: the position of the first occurrence.\<close>

definition occurs_at :: "string \<Rightarrow> string \<Rightarrow> nat \<Rightarrow> bool" where
  "occurs_at s p i \<longleftrightarrow> i \<le> length s \<and> take (length p) (drop i s) = p"

lemma occurs_at_0: "occurs_at s p 0 \<longleftrightarrow> take (length p) s = p"
  by (simp add: occurs_at_def)

lemma occurs_at_Suc [simp]: "occurs_at (c # s) p (Suc i) \<longleftrightarrow> occurs_at s p i"
  by (simp add: occurs_at_def)

lemma occurs_at_Nil: "occurs_at [] p i \<longleftrightarrow> i = 0 \<and> p = []"
  by (auto simp: occurs_at_def)

lemma str_find_Some_iff:
  "str_find s p = Some i \<longleftrightarrow> occurs_at s p i \<and> (\<forall>j<i. \<not> occurs_at s p j)"
proof (induction s arbitrary: i)
  case Nil
  then show ?case by (auto simp: occurs_at_Nil)
next
  case (Cons c s)
  show ?case
  proof (cases "take (length p) (c # s) = p")
    case True
    then show ?thesis by (cases i) (auto simp: occurs_at_0)
  next
    case False
    then show ?thesis
      by (cases i) (auto simp: occurs_at_0 Cons.IH less_Suc_eq_0_disj)
  qed
qed

lemma str_find_None_iff: "str_find s p = None \<longleftrightarrow> (\<forall>i. \<not> occurs_at s p i)"
proof
  assume "str_find s p = None"
  then show "\<forall>i. \<not> occurs_at s p i"
    using str_find_Some_iff exists_least_iff [of "occurs_at s p"] by (metis option.distinct(1))
next
  assume "\<forall>i. \<not> occurs_at s p i"
  then show "str_find s p = None"
    by (cases "str_find s p") (simp_all add: str_find_Some_iff)
qed

lemma str_has_iff: "str_has s p \<longleftrightarrow> (\<exists>xs ys. s = xs @ p @ ys)"
proof
  assume "str_has s p"
  then obtain i where "take (length p) (drop i s) = p"
    by (auto simp: str_has_def str_find_Some_iff occurs_at_def)
  then have "s = take i s @ p @ drop (length p) (drop i s)"
    by (metis append_take_drop_id)
  then show "\<exists>xs ys. s = xs @ p @ ys" by blast
next
  assume "\<exists>xs ys. s = xs @ p @ ys"
  then obtain xs ys where "s = xs @ p @ ys" by blast
  then have "occurs_at s p (length xs)" by (simp add: occurs_at_def)
  then show "str_has s p" by (auto simp: str_has_def str_find_None_iff)
qed

lemma str_find_hd_notin:
  assumes "p \<noteq> []" and "hd p \<notin> set xs"
  shows "str_find (xs @ p @ ys) p = Some (length xs)"
  using assms(2)
proof (induction xs)
  case Nil
  then show ?case using assms(1) by (cases p) simp_all
next
  case (Cons x xs)
  have "take (length p) (x # xs @ p @ ys) \<noteq> p"
    using Cons.prems assms(1) by (cases p) auto
  with Cons show ?case by simp
qed

lemma str_find_hd_None: "p \<noteq> [] \<Longrightarrow> hd p \<notin> set s \<Longrightarrow> str_find s p = None"
proof (induction s)
  case (Cons c s)
  then have "take (length p) (c # s) \<noteq> p" by (cases p) auto
  with Cons show ?case by simp
qed simp

lemma str_find_char [simp]:
  "c \<notin> set xs \<Longrightarrow> str_find (xs @ c # ys) [c] = Some (length xs)"
  using str_find_hd_notin [of "[c]" xs ys] by simp

lemma str_find_char_None [simp]: "c \<notin> set s \<Longrightarrow> str_find s [c] = None"
  using str_find_hd_None [of "[c]" s] by simp

section \<open>Cutting\<close>

lemma str_before_char [simp]: "c \<notin> set xs \<Longrightarrow> str_before (xs @ c # ys) [c] = xs"
  by (simp add: str_before_def)

lemma str_after_char [simp]: "c \<notin> set xs \<Longrightarrow> str_after (xs @ c # ys) [c] = ys"
  by (simp add: str_after_def)

lemma str_before_char_None [simp]: "c \<notin> set s \<Longrightarrow> str_before s [c] = s"
  by (simp add: str_before_def)

lemma str_after_char_None [simp]: "c \<notin> set s \<Longrightarrow> str_after s [c] = s"
  by (simp add: str_after_def)

lemma str_before_hd_notin:
  "p \<noteq> [] \<Longrightarrow> hd p \<notin> set xs \<Longrightarrow> str_before (xs @ p @ ys) p = xs"
  by (simp add: str_before_def str_find_hd_notin)

lemma str_after_hd_notin:
  "p \<noteq> [] \<Longrightarrow> hd p \<notin> set xs \<Longrightarrow> str_after (xs @ p @ ys) p = ys"
  by (simp add: str_after_def str_find_hd_notin)

lemma str_starts_with_append [simp]: "str_starts_with (p @ s) p"
  by (simp add: str_starts_with_def)

lemma str_starts_with_iff: "str_starts_with s p \<longleftrightarrow> (\<exists>t. s = p @ t)"
  by (metis append_eq_conv_conj append_take_drop_id str_starts_with_def)

lemma str_starts_with_Cons [simp]:
  "str_starts_with (c # s) (d # p) \<longleftrightarrow> c = d \<and> str_starts_with s p"
  by (auto simp: str_starts_with_def)

lemma str_starts_with_Nil [simp]: "str_starts_with s []" "str_starts_with [] (d # p) \<longleftrightarrow> False"
  by (simp_all add: str_starts_with_def)

text \<open>The cut at the first separator loses nothing.\<close>

theorem str_split_at_first:
  assumes "str_has s p"
  shows "s = str_before s p @ p @ str_after s p
    \<and> (\<forall>j<length (str_before s p). \<not> occurs_at s p j)"
proof -
  obtain i where i: "str_find s p = Some i" using assms by (auto simp: str_has_def)
  then have "occurs_at s p i" and *: "\<forall>j<i. \<not> occurs_at s p j"
    by (simp_all add: str_find_Some_iff)
  then have "i \<le> length s" and "take (length p) (drop i s) = p"
    by (simp_all add: occurs_at_def)
  then have "take i s @ p @ drop (length p) (drop i s) = s"
    by (metis append_take_drop_id)
  with i * \<open>i \<le> length s\<close> show ?thesis
    by (simp add: str_before_def str_after_def add.commute)
qed

theorem str_split_at_first_witness:
  "str_has ''a=b=c'' ''='' \<and> ''a=b=c'' = str_before ''a=b=c'' ''='' @ ''='' @ str_after ''a=b=c'' ''=''"
proof -
  have h: "str_has ''a=b=c'' ''=''" by code_simp
  show ?thesis using h str_split_at_first [OF h] by blast
qed

section \<open>Replacing\<close>

text \<open>
  The loop of \<open>str_replace\<close>: find the search string from \<open>pos\<close> on, replace it in place, go on
  behind the replacement. The result is None when the loop never ends.
\<close>

definition str_find_from :: "string \<Rightarrow> string \<Rightarrow> nat \<Rightarrow> nat option" where
  "str_find_from s p pos =
     (if pos \<le> length s then map_option ((+) pos) (str_find (drop pos s) p) else None)"

partial_function (option) str_replace_loop ::
  "string \<Rightarrow> string \<Rightarrow> nat \<Rightarrow> string \<Rightarrow> string option" where
  "str_replace_loop search replace pos subject =
     (case str_find_from subject search pos of
        None \<Rightarrow> Some subject
      | Some p \<Rightarrow> str_replace_loop search replace (p + length replace)
                   (take p subject @ replace @ drop (p + length search) subject))"

definition str_replace :: "string \<Rightarrow> string \<Rightarrow> string \<Rightarrow> string option" where
  "str_replace subject search replace = str_replace_loop search replace 0 subject"

definition ENC :: "string \<Rightarrow> string option" where
  "ENC str = str_replace str ''/'' ''@@@''"

text \<open>The reference: one pass from the left over the non-overlapping occurrences.\<close>

function replace_all :: "string \<Rightarrow> string \<Rightarrow> string \<Rightarrow> string" where
  "replace_all search replace s =
     (case str_find s search of
        None \<Rightarrow> s
      | Some i \<Rightarrow>
          if search = [] then s
          else take i s @ replace @ replace_all search replace (drop (i + length search) s))"
  by pat_completeness auto
termination
proof (relation "measure (\<lambda>(p, r, s). length s)")
  fix search replace s :: string and i
  assume "str_find s search = Some i" and "search \<noteq> []"
  then have "s \<noteq> []" by (auto split: if_splits)
  with \<open>search \<noteq> []\<close>
  show "((search, replace, drop (i + length search) s), search, replace, s)
        \<in> measure (\<lambda>(p, r, s). length s)" by simp
qed simp

declare replace_all.simps [simp del]

lemma str_find_from_append:
  "str_find_from (done @ s) p (length done) = map_option ((+) (length done)) (str_find s p)"
  by (simp add: str_find_from_def)

lemma str_replace_loop_eq:
  assumes "search \<noteq> []"
  shows "str_replace_loop search replace (length pre) (pre @ s) =
    Some (pre @ replace_all search replace s)"
  using assms
proof (induction search replace s arbitrary: pre rule: replace_all.induct)
  case (1 search replace s)
  show ?case
  proof (cases "str_find s search")
    case None
    then show ?thesis
      by (subst str_replace_loop.simps) (simp add: str_find_from_append replace_all.simps)
  next
    case (Some i)
    then have i: "i \<le> length s" by (simp add: str_find_Some_iff occurs_at_def)
    have eq: "take (length pre + i) (pre @ s) @ replace
            @ drop (length pre + i + length search) (pre @ s)
          = (pre @ take i s @ replace) @ drop (i + length search) s"
      by (simp add: add.assoc)
    have len: "length pre + i + length replace = length (pre @ take i s @ replace)"
      using i by simp
    show ?thesis
      using "1.IH" [OF Some "1.prems" "1.prems", of "pre @ take i s @ replace"] Some "1.prems"
      by (subst str_replace_loop.simps, subst replace_all.simps)
         (simp only: str_find_from_append option.map option.case eq len if_False append_assoc)
  qed
qed

text \<open>
  C31: \<open>str_replace\<close> terminates on every non-empty search string and replaces its occurrences from
  left to right, never looking again at what it has put in.
\<close>

theorem str_replace_correct:
  assumes "search \<noteq> []"
  shows "str_replace subject search replace = Some (replace_all search replace subject)"
  using str_replace_loop_eq [OF assms, of replace "[]" subject] by (simp add: str_replace_def)

theorem str_replace_correct_witness:
  "str_replace ''a/b//'' ''/'' ''@@@'' = Some ''a@@@b@@@@@@''"
proof -
  have "replace_all ''/'' ''@@@'' ''a/b//'' = ''a@@@b@@@@@@''"
    by (simp add: replace_all.simps)
  with str_replace_correct [of "''/''" "''a/b//''" "''@@@''"] show ?thesis by simp
qed

text \<open>With an empty search string the loop never leaves: it keeps finding the end.\<close>

lemma str_find_from_Nil: "pos \<le> length s \<Longrightarrow> str_find_from s [] pos = Some pos"
  by (cases "drop pos s") (simp_all add: str_find_from_def)

theorem str_replace_empty_search_diverges:
  "str_replace subject [] replace = None"
proof -
  have "False" if "str_replace_loop [] replace pos s = Some r" and "pos \<le> length s" for pos s r
  proof -
    have "search = [] \<longrightarrow> pos \<le> length s \<longrightarrow> False"
      if "str_replace_loop search replace pos s = Some r" for search replace pos s r
    proof (rule str_replace_loop.raw_induct [OF _ that,
          where P = "\<lambda>search replace pos s r. search = [] \<longrightarrow> pos \<le> length s \<longrightarrow> False"])
      fix f search replace pos s r
      assume IH: "\<And>search replace pos s r. f search replace pos s = Some r \<Longrightarrow>
          search = [] \<longrightarrow> pos \<le> length s \<longrightarrow> False"
        and eq: "(case str_find_from s search pos of None \<Rightarrow> Some s
          | Some p \<Rightarrow> f search replace (p + length replace)
              (take p s @ replace @ drop (p + length search) s)) = Some r"
      show "search = [] \<longrightarrow> pos \<le> length s \<longrightarrow> False"
      proof (intro impI)
        assume "search = []" "pos \<le> length s"
        with eq have "f [] replace (pos + length replace) (take pos s @ replace @ drop pos s) = Some r"
          by (simp add: str_find_from_Nil)
        from IH [OF this] \<open>pos \<le> length s\<close> show False by simp
      qed
    qed
    with that show False by blast
  qed
  from this [of 0 subject] show ?thesis
    by (cases "str_replace_loop [] replace 0 subject") (auto simp: str_replace_def)
qed

lemma replace_all_no_search_char:
  "c \<notin> set r \<Longrightarrow> c \<notin> set (replace_all [c] r s)"
proof (induction "[c]" r s rule: replace_all.induct)
  case (1 r s)
  show ?case
  proof (cases "str_find s [c]")
    case None
    then have "c \<notin> set s" by (metis append_Cons append_Nil split_list str_has_def str_has_iff)
    with None show ?thesis by (subst replace_all.simps) simp
  next
    case (Some i)
    have "c \<notin> set (take i s)"
    proof
      assume "c \<in> set (take i s)"
      then obtain j where j: "j < i" "j < length s" "s ! j = c"
        by (auto simp: in_set_conv_nth)
      then have "occurs_at s [c] j"
        by (simp add: occurs_at_def take_Suc hd_drop_conv_nth)
      with Some j(1) show False by (simp add: str_find_Some_iff)
    qed
    moreover have "c \<notin> set (replace_all [c] r (drop (i + length [c]) s))"
      using Some 1 by (intro "1.hyps") auto
    ultimately show ?thesis using Some 1 by (subst replace_all.simps) simp
  qed
qed

theorem ENC_total_no_slash:
  "\<exists>t. ENC s = Some t \<and> CHR ''/'' \<notin> set t"
proof -
  have "ENC s = Some (replace_all ''/'' ''@@@'' s)"
    unfolding ENC_def by (rule str_replace_loop_eq [of "''/''" _ "[]", simplified, folded str_replace_def])
  then show ?thesis using replace_all_no_search_char [of "CHR ''/''" "''@@@''" s] by simp
qed

section \<open>Lower case\<close>

lemma tolower_id: "\<not> (65 \<le> (of_char c :: nat) \<and> (of_char c :: nat) \<le> 90) \<Longrightarrow> tolower c = c"
  by (auto simp: tolower_def)

lemma tolower_idem [simp]: "tolower (tolower c) = tolower c"
  by (simp add: tolower_def)

lemma str_to_lower_idem [simp]: "str_to_lower (str_to_lower s) = str_to_lower s"
  by (simp add: str_to_lower_def comp_def)

end
