(* ===== verification/Node_State.thy ===== *)
theory Node_State
  imports StrUtils
begin

text \<open>
  The memory of one pubsub process. Every C++ object that is reached through a pointer lives in a
  table of the record \<open>node\<close>, under an address drawn from one counter; a deleted object is removed
  from its table, so reading it is the fault \<open>UseAfterFree\<close>. A \<open>std::function\<close> member is the
  constructor naming the lambda the code stores there, with its captures as arguments. What a
  handler makes the operating system do is appended to \<open>out\<close>.
\<close>

type_synonym addr = nat

section \<open>Sockets (utils/Socket.h)\<close>

text \<open>The lambdas stored in \<open>on_open\<close>, \<open>on_close\<close> and \<open>cbRecv\<close> of a TCPSocket.\<close>

datatype open_cb = OpenNone | OpenHost addr | OpenSub addr

datatype close_cb =
    CloseNone
  | CloseHost addr
  | CloseSub addr
  | CloseClientTCP
  | CloseAccepted addr close_cb

datatype recv_cb =
    RecvNone
  | RecvHost addr
  | RecvIncoming
  | RecvChannel addr
  | RecvSub addr

record socket =
  s_ip :: string
  s_port :: int
  s_bStop :: bool
  s_isClient :: bool
  s_semConnected :: nat
  s_bLinebuffer :: bool
  s_bReconnect :: bool
  s_on_open :: open_cb
  s_on_close :: close_cb
  s_cbRecv :: recv_cb

text \<open>The lambda stored in \<open>on_open\<close> of a TCPServer.\<close>

datatype accept_cb = AcceptNone | AcceptSignaling | AcceptSubscriptor addr addr

record server =
  srv_port :: int
  srv_bStop :: bool
  srv_connections :: "addr list"
  srv_on_open :: accept_cb

section \<open>Hosts (mesh.h)\<close>

text \<open>\<open>bConnecting\<close> is None where a constructor leaves it indeterminate.\<close>

record host =
  h_ip :: string
  h_port :: int
  h_id :: int
  h_bReady :: bool
  h_bConnecting :: "bool option"
  h_bServer :: bool
  h_socket :: "addr option"
  h_commit_id :: int
  h_known_commit_id :: int
  h_bUpToDate :: bool
  h_bFastforwarding :: bool

section \<open>Channels and subscriptions (channel.h, shm.h)\<close>

datatype transport = TRANSPORT_TCP | TRANSPORT_SHM

text \<open>
  The mapping of \<open>class SHM\<close>: its length and its bytes, and for an object made from a path the
  path.
\<close>

record shm =
  shm_path :: string
  shm_len :: nat
  shm_mem :: string

record subscription =
  sub_channel :: addr
  sub_host :: addr
  sub_bAsync :: bool
  sub_bConnected :: bool
  sub_transport :: transport
  sub_socket :: "addr option"
  sub_shm :: "shm option"
  sub_on_message :: bool
  sub_size :: nat

record channel =
  c_name :: string
  c_publisher :: "addr option"
  c_server :: "addr option"
  c_offeredPort :: int
  c_offeredShmPath :: string
  c_subscriptions :: "addr list"
  c_subscriptors :: "addr list"
  c_on_message :: bool
  c_ptr :: "string option"
  c_size :: nat

section \<open>The process\<close>

text \<open>
  What reaches the outside: bytes sent on a socket, connection attempts, closed descriptors,
  listening ports, messages handed to the user's callbacks, diagnostics, and bytes copied into a
  shared memory segment.
\<close>

datatype effect =
    Send addr string
  | Connect addr string int
  | CloseFd addr
  | Listen addr int
  | DeliverChannel addr string
  | DeliverSub addr string
  | ShmWrite addr string
  | ShmFree addr
  | Dbg string

record node =
  hosts :: "addr list"
  host_tab :: "addr \<rightharpoonup> host"
  sock_tab :: "addr \<rightharpoonup> socket"
  server_tab :: "addr \<rightharpoonup> server"
  channels :: "addr list"
  chan_tab :: "addr \<rightharpoonup> channel"
  sub_tab :: "addr \<rightharpoonup> subscription"
  next_addr :: addr
  my_ID :: int
  SIGNALING_PORT :: int
  signalingServer :: "addr option"
  bInited :: bool
  out :: "effect list"

text \<open>
  The operating system, as far as the sources consult it: which host names resolve, whether a
  socket can be created, which ports can be bound, the value \<open>rand\<close> returns, and the bytes of the
  shared memory segments that are created, opened or attached (the sources call \<open>SHM::create\<close> and
  \<open>SHM\<close> constructors on paths that no file of the repository defines). It is an argument of every
  handler that asks.
\<close>

record env =
  resolves :: "string \<Rightarrow> bool"
  can_socket :: bool
  can_bind :: "int \<Rightarrow> bool"
  rand_value :: int
  shm_create :: "string \<Rightarrow> nat \<Rightarrow> string"
  shm_open :: "string \<Rightarrow> nat \<Rightarrow> string"
  shm_attach :: "string \<Rightarrow> string"

definition empty_node :: node where
  "empty_node = \<lparr>hosts = [], host_tab = Map.empty, sock_tab = Map.empty, server_tab = Map.empty,
     channels = [], chan_tab = Map.empty, sub_tab = Map.empty, next_addr = 0, my_ID = 0,
     SIGNALING_PORT = 12212, signalingServer = None, bInited = False, out = []\<rparr>"

definition emit :: "effect \<Rightarrow> node \<Rightarrow> node" where
  "emit e n = n\<lparr>out := out n @ [e]\<rparr>"

section \<open>The object tables\<close>

text \<open>
  The five tables offer one interface: read an object through its address, store an object back,
  allocate one at a fresh address. The laws are those of a heap cell; the derived facts (a modified
  object is read back, other addresses are untouched, modifications compose) are proved once.
\<close>

locale heap_table =
  fixes get :: "'n \<Rightarrow> addr \<Rightarrow> 'v option"
    and put :: "addr \<Rightarrow> 'v \<Rightarrow> 'n \<Rightarrow> 'n"
  assumes get_put_same: "get (put a v n) a = Some v"
    and get_put_other: "a \<noteq> b \<Longrightarrow> get (put a v n) b = get n b"
    and put_put: "put a v (put a w n) = put a v n"
begin

definition modify :: "addr \<Rightarrow> ('v \<Rightarrow> 'v) \<Rightarrow> 'n \<Rightarrow> 'n res" where
  "modify a f n = bindE (live (get n) a) (\<lambda>v. Inr (put a (f v) n))"

lemma get_put: "get (put a v n) b = (if a = b then Some v else get n b)"
  by (simp add: get_put_same get_put_other)

lemma modify_live: "get n a = Some v \<Longrightarrow> modify a f n = Inr (put a (f v) n)"
  by (simp add: modify_def)

lemma modify_dead: "get n a = None \<Longrightarrow> modify a f n = Inl UseAfterFree"
  by (simp add: modify_def)

lemma modify_Inr_iff: "modify a f n = Inr m \<longleftrightarrow> (\<exists>v. get n a = Some v \<and> m = put a (f v) n)"
  by (auto simp: modify_def bindE_eq_Inr_iff)

lemma modify_get: "modify a f n = Inr m \<Longrightarrow> get m b = (if a = b then map_option f (get n b) else get n b)"
  by (auto simp: modify_Inr_iff get_put)

lemma modify_modify: "bindE (modify a f n) (modify a g) = modify a (g \<circ> f) n"
  by (cases "get n a") (simp_all add: modify_live modify_dead get_put put_put)

end

definition put_host :: "addr \<Rightarrow> host \<Rightarrow> node \<Rightarrow> node" where
  "put_host a v n = n\<lparr>host_tab := (host_tab n)(a \<mapsto> v)\<rparr>"

definition put_sock :: "addr \<Rightarrow> socket \<Rightarrow> node \<Rightarrow> node" where
  "put_sock a v n = n\<lparr>sock_tab := (sock_tab n)(a \<mapsto> v)\<rparr>"

definition put_server :: "addr \<Rightarrow> server \<Rightarrow> node \<Rightarrow> node" where
  "put_server a v n = n\<lparr>server_tab := (server_tab n)(a \<mapsto> v)\<rparr>"

definition put_chan :: "addr \<Rightarrow> channel \<Rightarrow> node \<Rightarrow> node" where
  "put_chan a v n = n\<lparr>chan_tab := (chan_tab n)(a \<mapsto> v)\<rparr>"

definition put_sub :: "addr \<Rightarrow> subscription \<Rightarrow> node \<Rightarrow> node" where
  "put_sub a v n = n\<lparr>sub_tab := (sub_tab n)(a \<mapsto> v)\<rparr>"

lemmas put_defs [simp] = put_host_def put_sock_def put_server_def put_chan_def put_sub_def

declare emit_def [simp]

definition upd_host :: "addr \<Rightarrow> (host \<Rightarrow> host) \<Rightarrow> node \<Rightarrow> node res" where
  "upd_host a f n = bindE (live (host_tab n) a) (\<lambda>v. Inr (put_host a (f v) n))"

definition upd_sock :: "addr \<Rightarrow> (socket \<Rightarrow> socket) \<Rightarrow> node \<Rightarrow> node res" where
  "upd_sock a f n = bindE (live (sock_tab n) a) (\<lambda>v. Inr (put_sock a (f v) n))"

definition upd_server :: "addr \<Rightarrow> (server \<Rightarrow> server) \<Rightarrow> node \<Rightarrow> node res" where
  "upd_server a f n = bindE (live (server_tab n) a) (\<lambda>v. Inr (put_server a (f v) n))"

definition upd_chan :: "addr \<Rightarrow> (channel \<Rightarrow> channel) \<Rightarrow> node \<Rightarrow> node res" where
  "upd_chan a f n = bindE (live (chan_tab n) a) (\<lambda>v. Inr (put_chan a (f v) n))"

definition upd_sub :: "addr \<Rightarrow> (subscription \<Rightarrow> subscription) \<Rightarrow> node \<Rightarrow> node res" where
  "upd_sub a f n = bindE (live (sub_tab n) a) (\<lambda>v. Inr (put_sub a (f v) n))"

interpretation host_heap: heap_table host_tab put_host
  rewrites "heap_table.modify host_tab put_host = upd_host"
proof -
  show *: "heap_table host_tab put_host" by unfold_locales (auto simp: put_defs)
  show "heap_table.modify host_tab put_host = upd_host"
    by (simp add: fun_eq_iff heap_table.modify_def [OF *] upd_host_def)
qed

interpretation sock_heap: heap_table sock_tab put_sock
  rewrites "heap_table.modify sock_tab put_sock = upd_sock"
proof -
  show *: "heap_table sock_tab put_sock" by unfold_locales (auto simp: put_defs)
  show "heap_table.modify sock_tab put_sock = upd_sock"
    by (simp add: fun_eq_iff heap_table.modify_def [OF *] upd_sock_def)
qed

interpretation server_heap: heap_table server_tab put_server
  rewrites "heap_table.modify server_tab put_server = upd_server"
proof -
  show *: "heap_table server_tab put_server" by unfold_locales (auto simp: put_defs)
  show "heap_table.modify server_tab put_server = upd_server"
    by (simp add: fun_eq_iff heap_table.modify_def [OF *] upd_server_def)
qed

interpretation chan_heap: heap_table chan_tab put_chan
  rewrites "heap_table.modify chan_tab put_chan = upd_chan"
proof -
  show *: "heap_table chan_tab put_chan" by unfold_locales (auto simp: put_defs)
  show "heap_table.modify chan_tab put_chan = upd_chan"
    by (simp add: fun_eq_iff heap_table.modify_def [OF *] upd_chan_def)
qed

interpretation sub_heap: heap_table sub_tab put_sub
  rewrites "heap_table.modify sub_tab put_sub = upd_sub"
proof -
  show *: "heap_table sub_tab put_sub" by unfold_locales (auto simp: put_defs)
  show "heap_table.modify sub_tab put_sub = upd_sub"
    by (simp add: fun_eq_iff heap_table.modify_def [OF *] upd_sub_def)
qed

lemmas upd_live [simp] = host_heap.modify_live sock_heap.modify_live server_heap.modify_live
  chan_heap.modify_live sub_heap.modify_live

lemmas upd_Inr_iff = host_heap.modify_Inr_iff sock_heap.modify_Inr_iff
  server_heap.modify_Inr_iff chan_heap.modify_Inr_iff sub_heap.modify_Inr_iff

lemmas get_put = host_heap.get_put sock_heap.get_put server_heap.get_put chan_heap.get_put
  sub_heap.get_put

end
