(* ===== verification/Sockets.thy ===== *)
theory Sockets
  imports Node_State
begin

text \<open>
  src/utils/Socket.cpp: the constructors and operations of TCPSocket and TCPServer, the splitting
  of received bytes into messages, and the search for a free port. The callbacks a socket thread
  runs belong to other components; the thread itself is in the theory Handlers.
\<close>

section \<open>TCPSocket\<close>

definition TCPSocket_default :: socket where
  "TCPSocket_default = \<lparr>s_ip = [], s_port = 0, s_bStop = True, s_isClient = True,
     s_semConnected = 0, s_bLinebuffer = False, s_bReconnect = True,
     s_on_open = OpenNone, s_on_close = CloseNone, s_cbRecv = RecvNone\<rparr>"

definition new_TCPSocket :: "node \<Rightarrow> addr \<times> node" where
  "new_TCPSocket n = (next_addr n,
     put_sock (next_addr n) TCPSocket_default (n\<lparr>next_addr := Suc (next_addr n)\<rparr>))"

definition new_TCPSocket_fd :: "string \<Rightarrow> int \<Rightarrow> node \<Rightarrow> addr \<times> node" where
  "new_TCPSocket_fd ip port n = (next_addr n,
     put_sock (next_addr n)
       (TCPSocket_default\<lparr>s_ip := ip, s_port := port, s_isClient := False\<rparr>)
       (n\<lparr>next_addr := Suc (next_addr n)\<rparr>))"

text \<open>
  \<open>connect\<close>: resolve, create the descriptor, start the thread that connects and receives. The
  address is a C string: callers pass \<open>c_str\<close> of theirs.
\<close>

definition sock_connect :: "env \<Rightarrow> addr \<Rightarrow> string \<Rightarrow> int \<Rightarrow> node \<Rightarrow> node res" where
  "sock_connect E s ip port n =
     bindE (upd_sock s (\<lambda>k. k\<lparr>s_ip := ip, s_port := port\<rparr>) n) (\<lambda>n.
     if \<not> resolves E ip then Inl (Thrown ''Couldn't resolve host'')
     else if \<not> can_socket E then Inl (Thrown ''ERROR opening socket'')
     else bindE (upd_sock s (\<lambda>k. k\<lparr>s_isClient := True\<rparr>) n) (\<lambda>n.
       Inr (emit (Connect s ip port) n)))"

definition new_TCPSocket_connect :: "env \<Rightarrow> string \<Rightarrow> int \<Rightarrow> node \<Rightarrow> (addr \<times> node) res" where
  "new_TCPSocket_connect E ip port n =
     (case new_TCPSocket n of (s, n) \<Rightarrow>
        bindE (sock_connect E s ip port n) (\<lambda>n. Inr (s, n)))"

definition sock_close :: "addr \<Rightarrow> bool \<Rightarrow> node \<Rightarrow> node res" where
  "sock_close s bDontReconnect n =
     bindE (upd_sock s (\<lambda>k. k\<lparr>s_bReconnect := (if bDontReconnect then False else s_bReconnect k),
                              s_bStop := True\<rparr>) n) (\<lambda>n.
     Inr (emit (CloseFd s) n))"

definition sock_write_buf :: "addr \<Rightarrow> string \<Rightarrow> node \<Rightarrow> node res" where
  "sock_write_buf s buf n = bindE (live (sock_tab n) s) (\<lambda>_. Inr (emit (Send s buf) n))"

text \<open>The overloads for strings: up to the first NUL, and the NUL itself (\<open>strlen(buf)+1\<close>).\<close>

definition frame :: "string \<Rightarrow> string" where
  "frame s = c_str s @ [NUL]"

definition sock_write :: "addr \<Rightarrow> string \<Rightarrow> node \<Rightarrow> node res" where
  "sock_write s msg n = sock_write_buf s (frame msg) n"

definition remove_listeners :: "addr \<Rightarrow> node \<Rightarrow> node res" where
  "remove_listeners s n =
     upd_sock s (\<lambda>k. k\<lparr>s_on_close := CloseNone, s_on_open := OpenNone, s_cbRecv := RecvNone\<rparr>) n"

definition wait_connected :: "addr \<Rightarrow> node \<Rightarrow> node option res" where
  "wait_connected s n =
     bindE (live (sock_tab n) s) (\<lambda>k.
     Inr (if s_semConnected k = 0 then None
          else Some (put_sock s (k\<lparr>s_semConnected := s_semConnected k - 1\<rparr>) n)))"

lemmas socket_op_defs [handler_simps] = sock_connect_def sock_close_def sock_write_buf_def
  sock_write_def remove_listeners_def

section \<open>Receiving: splitting the bytes of one recv into messages\<close>

text \<open>
  The loop of \<open>run\<close> with \<open>bLinebuffer\<close>: from index \<open>i\<close> scan to the next NUL or newline \<open>j\<close>,
  complain when there is none, pass on the bytes between when there are any, go on behind \<open>j\<close>.
\<close>

definition is_delim :: "char \<Rightarrow> bool" where
  "is_delim c \<longleftrightarrow> c = NUL \<or> c = NL"

datatype recv_event = RecvTooLong | RecvChunk string

function recv_scan :: "string \<Rightarrow> nat \<Rightarrow> nat" where
  "recv_scan buf j =
     (if j < length buf \<and> \<not> is_delim (buf ! j) then recv_scan buf (Suc j) else j)"
  by pat_completeness auto
termination by (relation "measure (\<lambda>(buf, j). length buf - j)") auto

declare recv_scan.simps [simp del]

lemma recv_scan_ge: "i \<le> recv_scan buf i"
proof (induction buf i rule: recv_scan.induct)
  case (1 buf j)
  then show ?case by (subst recv_scan.simps) auto
qed

function recv_loop :: "string \<Rightarrow> nat \<Rightarrow> recv_event list" where
  "recv_loop buf i =
     (if i < length buf then
        (let j = recv_scan buf i in
         (if j = length buf then [RecvTooLong] else [])
         @ (if j - i \<noteq> 0 then [RecvChunk (take (j - i) (drop i buf))] else [])
         @ recv_loop buf (Suc j))
      else [])"
  by pat_completeness auto
termination
proof (relation "measure (\<lambda>(buf, i). length buf - i)", goal_cases)
  case (2 buf i j)
  then show ?case using recv_scan_ge [of i buf] by simp
qed simp

declare recv_loop.simps [simp del]

text \<open>The messages passed on, and whether the complaint is printed.\<close>

fun chunks_of :: "recv_event list \<Rightarrow> string list" where
  "chunks_of [] = []"
| "chunks_of (RecvChunk m # es) = m # chunks_of es"
| "chunks_of (RecvTooLong # es) = chunks_of es"

definition recv_chunks :: "string \<Rightarrow> string list" where
  "recv_chunks buf = chunks_of (recv_loop buf 0)"

lemma chunks_of_append [simp]: "chunks_of (xs @ ys) = chunks_of xs @ chunks_of ys"
  by (induction xs rule: chunks_of.induct) simp_all

text \<open>
  The reference: a byte-at-a-time splitter. \<open>feed acc bytes\<close> keeps the unfinished message in
  \<open>acc\<close> and returns the finished ones.
\<close>

fun feed :: "string \<Rightarrow> string \<Rightarrow> string list \<times> string" where
  "feed acc [] = ([], acc)"
| "feed acc (c # cs) =
     (if is_delim c
      then (case feed [] cs of (ms, rest) \<Rightarrow> ((if acc = [] then [] else [acc]) @ ms, rest))
      else feed (acc @ [c]) cs)"

definition flush :: "string list \<times> string \<Rightarrow> string list" where
  "flush r = fst r @ (if snd r = [] then [] else [snd r])"

lemma feed_append:
  "feed acc (xs @ ys) =
     (case feed acc xs of (ms, rest) \<Rightarrow>
        (case feed rest ys of (ms', rest') \<Rightarrow> (ms @ ms', rest')))"
  by (induction acc xs rule: feed.induct) (auto split: prod.splits)

lemma feed_no_delim: "\<forall>c\<in>set xs. \<not> is_delim c \<Longrightarrow> feed acc xs = ([], acc @ xs)"
  by (induction acc xs rule: feed.induct) auto

lemma feed_concat: "concat (fst (feed acc cs)) @ snd (feed acc cs) = acc @ filter (\<lambda>c. \<not> is_delim c) cs"
  by (induction acc cs rule: feed.induct) (auto split: prod.splits)

lemma feed_pieces:
  "list_all (\<lambda>c. \<not> is_delim c) acc \<Longrightarrow>
   list_all (\<lambda>m. m \<noteq> [] \<and> list_all (\<lambda>c. \<not> is_delim c) m) (fst (feed acc cs))
   \<and> list_all (\<lambda>c. \<not> is_delim c) (snd (feed acc cs))"
  by (induction acc cs rule: feed.induct) (auto split: prod.splits)

lemma recv_scan_span:
  "i \<le> length buf \<Longrightarrow> recv_scan buf i = i + length (takeWhile (\<lambda>c. \<not> is_delim c) (drop i buf))"
proof (induction buf i rule: recv_scan.induct)
  case (1 buf j)
  show ?case
  proof (cases "j < length buf \<and> \<not> is_delim (buf ! j)")
    case True
    then have "drop j buf = buf ! j # drop (Suc j) buf" by (simp add: Cons_nth_drop_Suc)
    with 1 True show ?thesis by (subst recv_scan.simps) simp
  next
    case False
    then have "takeWhile (\<lambda>c. \<not> is_delim c) (drop j buf) = []"
      by (cases "j < length buf") (simp_all add: Cons_nth_drop_Suc [symmetric])
    with False show ?thesis by (subst recv_scan.simps) auto
  qed
qed

text \<open>One turn of the loop on the bytes from \<open>i\<close> on: a message, a delimiter, the rest.\<close>

lemma recv_loop_nth_delim:
  assumes "drop i buf = m @ d # rest" and "\<forall>c\<in>set m. \<not> is_delim c" and "is_delim d"
  shows "recv_loop buf i = (if m = [] then [] else [RecvChunk m]) @ recv_loop buf (i + Suc (length m))"
proof -
  have len: "length buf = i + length m + Suc (length rest)" and i: "i < length buf"
    using arg_cong [OF assms(1), of length] by (auto split: nat_diff_split_asm simp: not_less)
  have "takeWhile (\<lambda>c. \<not> is_delim c) (drop i buf) = m"
    using assms by (simp add: takeWhile_append)
  then have "recv_scan buf i = i + length m" using i by (simp add: recv_scan_span)
  with i len assms(1) show ?thesis by (subst recv_loop.simps) (simp add: Let_def)
qed

lemma recv_loop_nth_last:
  assumes "drop i buf = m" and "\<forall>c\<in>set m. \<not> is_delim c" and "m \<noteq> []"
  shows "recv_loop buf i = [RecvTooLong, RecvChunk m]"
proof -
  have i: "i < length buf" and len: "length buf = i + length m"
    using assms(1,3) by auto
  have "takeWhile (\<lambda>c. \<not> is_delim c) (drop i buf) = m"
    using assms by simp
  then have "recv_scan buf i = length buf" using i len by (simp add: recv_scan_span)
  with i len assms show ?thesis
    by (subst recv_loop.simps) (simp add: Let_def recv_loop.simps [of buf "Suc (i + length m)"])
qed

lemma split_at_delim:
  obtains (last) "\<forall>c\<in>set s. \<not> is_delim c"
  | (delim) m d rest where "s = m @ d # rest" "\<forall>c\<in>set m. \<not> is_delim c" "is_delim d"
proof (cases "\<exists>c\<in>set s. is_delim c")
  case True
  then show ?thesis using split_list_first_prop [of s is_delim] delim by blast
qed (use last in blast)

lemma recv_loop_eq_feed: "chunks_of (recv_loop buf i) = flush (feed [] (drop i buf))"
proof (induction "length buf - i" arbitrary: i rule: less_induct)
  case less
  show ?case
  proof (cases "drop i buf = []")
    case True
    then show ?thesis by (subst recv_loop.simps) (simp add: flush_def)
  next
    case False
    show ?thesis
    proof (cases "drop i buf" rule: split_at_delim)
      case last
      then show ?thesis
        using False recv_loop_nth_last [OF refl last False]
        by (simp add: flush_def feed_no_delim)
    next
      case (delim m d rest)
      then have rest: "drop (Suc (i + length m)) buf = rest"
        by (metis add_Suc_right add.commute append_Cons append_eq_conv_conj append_Nil append_assoc
            drop_drop length_append_singleton)
      have "length buf - (i + Suc (length m)) < length buf - i" using False by simp
      from less.hyps [OF this]
      show ?thesis
        using recv_loop_nth_delim [OF delim] delim
        by (simp add: rest feed_append feed_no_delim flush_def split: prod.splits)
    qed
  qed
qed

lemma recv_chunks_eq: "recv_chunks buf = flush (feed [] buf)"
  by (simp add: recv_chunks_def recv_loop_eq_feed)

text \<open>
  C19: the index loop over the receive buffer delivers what a one-pass reference splitter gives:
  pieces that are not empty and hold no delimiter, and together every other byte of the buffer
  once and in order.
\<close>

theorem recv_chunks_reference:
  "recv_chunks buf = flush (feed [] buf)
   \<and> list_all (\<lambda>m. m \<noteq> [] \<and> list_all (\<lambda>c. \<not> is_delim c) m) (recv_chunks buf)
   \<and> concat (recv_chunks buf) = filter (\<lambda>c. \<not> is_delim c) buf"
  using feed_concat [of "[]" buf] feed_pieces [of "[]" buf]
  by (auto simp: recv_chunks_eq flush_def split: prod.splits)

lemma recv_chunks_delim:
  "\<forall>c\<in>set m. \<not> is_delim c \<Longrightarrow> is_delim d \<Longrightarrow>
   recv_chunks (m @ d # rest) = (if m = [] then [] else [m]) @ recv_chunks rest"
  by (simp add: recv_chunks_eq feed_append feed_no_delim flush_def split: prod.splits)

lemma recv_chunks_Nil [simp]: "recv_chunks [] = []"
  by (simp add: recv_chunks_eq flush_def)

section \<open>Framing\<close>

text \<open>
  What a message layer promises to the code above it: decoding a stream that starts with an
  encoded message gives that message first and then decodes the rest.
\<close>

locale framing =
  fixes enc :: "'m \<Rightarrow> string" and dec :: "string \<Rightarrow> 'm list" and ok :: "'m \<Rightarrow> bool"
  assumes dec_Nil: "dec [] = []"
    and dec_enc: "ok m \<Longrightarrow> dec (enc m @ rest) = m # dec rest"
begin

lemma dec_stream_append: "\<forall>m\<in>set ms. ok m \<Longrightarrow> dec (concat (map enc ms) @ rest) = ms @ dec rest"
  by (induction ms) (simp_all add: dec_enc)

lemma dec_stream: "\<forall>m\<in>set ms. ok m \<Longrightarrow> dec (concat (map enc ms)) = ms"
  using dec_stream_append [of ms "[]"] by (simp add: dec_Nil)

lemma enc_inject: "ok m \<Longrightarrow> ok m' \<Longrightarrow> enc m = enc m' \<Longrightarrow> m = m'"
  using dec_stream [of "[m]"] dec_stream [of "[m']"] by simp

lemma stream_inject:
  "\<forall>m\<in>set ms. ok m \<Longrightarrow> \<forall>m\<in>set ms'. ok m \<Longrightarrow>
   concat (map enc ms) = concat (map enc ms') \<Longrightarrow> ms = ms'"
  by (metis dec_stream)

end

text \<open>A message fit for the wire: not empty, and free of the two delimiters.\<close>

definition wire_ok :: "string \<Rightarrow> bool" where
  "wire_ok m \<longleftrightarrow> m \<noteq> [] \<and> NUL \<notin> set m \<and> NL \<notin> set m"

definition line :: "string \<Rightarrow> string" where
  "line m = m @ [NL]"

lemma wire_ok_no_delim: "wire_ok m \<Longrightarrow> c \<in> set m \<Longrightarrow> \<not> is_delim c"
  by (auto simp: wire_ok_def is_delim_def)

lemma wire_ok_frame [simp]: "wire_ok m \<Longrightarrow> frame m = m @ [NUL]"
  by (simp add: wire_ok_def frame_def)

interpretation nul_framing: framing frame recv_chunks wire_ok
proof
  fix m rest
  assume "wire_ok m"
  then have "recv_chunks (m @ NUL # rest) = m # recv_chunks rest"
    using recv_chunks_delim [of m NUL rest]
    by (auto simp: is_delim_def wire_ok_def)
  with \<open>wire_ok m\<close> show "recv_chunks (frame m @ rest) = m # recv_chunks rest" by simp
qed simp

interpretation line_framing: framing line recv_chunks wire_ok
proof
  fix m rest
  assume "wire_ok m"
  then have "recv_chunks (m @ NL # rest) = m # recv_chunks rest"
    using recv_chunks_delim [of m NL rest]
    by (auto simp: is_delim_def wire_ok_def)
  then show "recv_chunks (line m @ rest) = m # recv_chunks rest" by (simp add: line_def)
qed simp

lemma recv_chunks_NUL [simp]: "recv_chunks (NUL # rest) = recv_chunks rest"
  using recv_chunks_delim [of "[]" NUL rest] by (simp add: is_delim_def)



text \<open>
  The splitter keeps no state between two receives: a message cut by a packet boundary is
  passed on as two messages, and the complaint is printed.
\<close>

theorem recv_tears_split_message:
  assumes "wire_ok (a @ b)" and "a \<noteq> []" and "b \<noteq> []"
  shows "recv_chunks a @ recv_chunks (b @ [NUL]) = [a, b]
    \<and> recv_chunks (frame (a @ b)) = [a @ b] \<and> RecvTooLong \<in> set (recv_loop a 0)"
proof -
  have ok: "wire_ok a" "wire_ok b" using assms by (auto simp: wire_ok_def)
  then have a: "recv_loop a 0 = [RecvTooLong, RecvChunk a]"
    using assms(2) by (intro recv_loop_nth_last) (auto dest: wire_ok_no_delim)
  then have "recv_chunks a = [a]" by (simp add: recv_chunks_def)
  moreover have "recv_chunks (b @ [NUL]) = [b]"
    using nul_framing.dec_stream [of "[b]"] ok by simp
  moreover have "recv_chunks (frame (a @ b)) = [a @ b]"
    using nul_framing.dec_stream [of "[a @ b]"] assms(1) by simp
  ultimately show ?thesis by (simp add: a)
qed

theorem recv_tears_split_message_witness:
  "recv_chunks ''CONNE'' @ recv_chunks (''CTED'' @ [NUL]) = [''CONNE'', ''CTED'']"
  using recv_tears_split_message [of "''CONNE''" "''CTED''"]
  by (simp add: wire_ok_def NUL_def NL_def)

section \<open>TCPServer\<close>

definition server_bind :: "env \<Rightarrow> int \<Rightarrow> int res" where
  "server_bind E port =
     (if \<not> can_socket E then Inl (Thrown ''ERROR opening socket'')
      else if \<not> can_bind E port then Inl (Thrown ''ERROR on binding'')
      else Inr port)"

text \<open>The loop of the range constructor: a failed \<open>bind\<close> is caught and the next port tried.\<close>

function scan_ports :: "env \<Rightarrow> int \<Rightarrow> int \<Rightarrow> int res" where
  "scan_ports E port lastPort =
     (if port \<le> lastPort then
        (case server_bind E port of
           Inr p \<Rightarrow> Inr p
         | Inl _ \<Rightarrow> scan_ports E (port + 1) lastPort)
      else Inl (Thrown ''No free port''))"
  by pat_completeness auto
termination by (relation "measure (\<lambda>(E, p, l). nat (l - p + 1))") auto

declare scan_ports.simps [simp del]

definition new_server :: "int \<Rightarrow> node \<Rightarrow> addr \<times> node" where
  "new_server port n = (next_addr n,
     emit (Listen (next_addr n) port)
       (put_server (next_addr n)
          \<lparr>srv_port = port, srv_bStop = False, srv_connections = [], srv_on_open = AcceptNone\<rparr>
          (n\<lparr>next_addr := Suc (next_addr n)\<rparr>)))"

definition TCPServer_port :: "env \<Rightarrow> int \<Rightarrow> node \<Rightarrow> (addr \<times> node) res" where
  "TCPServer_port E port n = bindE (server_bind E port) (\<lambda>p. Inr (new_server p n))"

definition TCPServer_range :: "env \<Rightarrow> int \<Rightarrow> int \<Rightarrow> node \<Rightarrow> (addr \<times> node) res" where
  "TCPServer_range E firstPort lastPort n =
     bindE (scan_ports E firstPort lastPort) (\<lambda>p. Inr (new_server p n))"

definition server_broadcast :: "addr \<Rightarrow> string \<Rightarrow> node \<Rightarrow> node res" where
  "server_broadcast v buf n =
     bindE (live (server_tab n) v) (\<lambda>k. foldE (\<lambda>s. sock_write_buf s buf) (srv_connections k) n)"

text \<open>The overload for C strings sends the NUL too.\<close>

definition server_broadcast_cstr :: "addr \<Rightarrow> string \<Rightarrow> node \<Rightarrow> node res" where
  "server_broadcast_cstr v buf n = server_broadcast v (frame buf) n"

text \<open>\<open>close\<close>: the sockets of all connections, then the listening descriptor.\<close>

definition server_close :: "addr \<Rightarrow> node \<Rightarrow> node res" where
  "server_close v n =
     bindE (upd_server v (\<lambda>k. k\<lparr>srv_bStop := True\<rparr>) n) (\<lambda>n.
     bindE (live (server_tab n) v) (\<lambda>k.
     bindE (foldE (\<lambda>s. sock_close s False) (srv_connections k) n) (\<lambda>n.
     Inr (emit (CloseFd v) n))))"

lemma scan_ports_Inr_iff:
  "scan_ports E f l = Inr p \<longleftrightarrow>
     f \<le> p \<and> p \<le> l \<and> server_bind E p = Inr p \<and> (\<forall>q. f \<le> q \<and> q < p \<longrightarrow> (\<exists>e. server_bind E q = Inl e))"
proof (induction E f l rule: scan_ports.induct)
  case (1 E f l)
  show ?case
  proof (cases "f \<le> l")
    case False
    then show ?thesis by (subst scan_ports.simps) auto
  next
    case True
    show ?thesis
    proof (cases "server_bind E f")
      case (Inr q)
      then have "q = f" by (auto simp: server_bind_def split: if_splits)
      have "p = f" if "f \<le> p" "\<forall>q. f \<le> q \<and> q < p \<longrightarrow> (\<exists>e. server_bind E q = Inl e)"
        using that(1) that(2) [rule_format, of f] Inr by (cases "f < p") auto
      with True Inr \<open>q = f\<close> show ?thesis by (subst scan_ports.simps) auto
    next
      case (Inl e)
      have "(f \<le> p \<and> server_bind E p = Inr p) = (f + 1 \<le> p \<and> server_bind E p = Inr p)"
        using Inl by (cases "f = p") auto
      moreover have "(\<forall>q. f \<le> q \<and> q < p \<longrightarrow> (\<exists>e. server_bind E q = Inl e)) =
          (\<forall>q. f + 1 \<le> q \<and> q < p \<longrightarrow> (\<exists>e. server_bind E q = Inl e))"
        using Inl by (subst all_int_from_split) simp
      ultimately show ?thesis
        using True Inl "1.IH" [OF True Inl] by (subst scan_ports.simps) auto
    qed
  qed
qed

lemma scan_ports_Inl:
  "scan_ports E f l = Inl e \<Longrightarrow>
     e = Thrown ''No free port'' \<and> (\<forall>q. f \<le> q \<and> q \<le> l \<longrightarrow> \<not> (can_socket E \<and> can_bind E q))"
proof (induction E f l rule: scan_ports.induct)
  case (1 E f l)
  show ?case
  proof (cases "f \<le> l")
    case False
    with "1.prems" show ?thesis by (subst (asm) scan_ports.simps) auto
  next
    case True
    show ?thesis
    proof (cases "server_bind E f")
      case (Inr q)
      with True "1.prems" show ?thesis by (subst (asm) scan_ports.simps) auto
    next
      case (Inl e')
      with True "1.prems" have "scan_ports E (f + 1) l = Inl e"
        by (subst (asm) scan_ports.simps) auto
      moreover have "\<not> (can_socket E \<and> can_bind E f)"
        using Inl by (auto simp: server_bind_def split: if_splits)
      ultimately show ?thesis
        using "1.IH" [OF True Inl] by (subst all_int_from_split) simp
    qed
  qed
qed

text \<open>C36: the range constructor listens on the least free port of the range, or throws.\<close>

theorem TCPServer_range_least_free_port:
  "(case TCPServer_range E firstPort lastPort n of
      Inr (v, m) \<Rightarrow> (\<exists>p. m = snd (new_server p n) \<and> v = next_addr n
        \<and> firstPort \<le> p \<and> p \<le> lastPort \<and> can_socket E \<and> can_bind E p
        \<and> {q. firstPort \<le> q \<and> q < p \<and> can_bind E q} = {})
    | Inl e \<Rightarrow> e = Thrown ''No free port''
        \<and> (can_socket E = False \<or> {q. firstPort \<le> q \<and> q \<le> lastPort \<and> can_bind E q} = {}))"
proof (cases "scan_ports E firstPort lastPort")
  case (Inl e)
  from scan_ports_Inl [OF this] Inl show ?thesis
    by (cases "can_socket E") (auto simp: TCPServer_range_def)
next
  case (Inr p)
  then have "firstPort \<le> p" "p \<le> lastPort" "can_socket E" "can_bind E p"
    and "\<And>q. firstPort \<le> q \<Longrightarrow> q < p \<Longrightarrow> \<not> can_bind E q"
    by (auto simp: scan_ports_Inr_iff server_bind_def split: if_splits)
  with Inr show ?thesis by (auto simp: TCPServer_range_def new_server_def)
qed

end
