(* ===== verification/Mesh_Props.thy ===== *)
theory Mesh_Props
  imports Mesh
begin

text \<open>
  What the mesh operations guarantee: well-formedness (\<open>mesh_wf\<close>) and its preservation, the exact
  result of each operation in a well-formed process, the reach of a broadcast, and the registry of
  hosts as a keyed table.
\<close>

section \<open>Well-formedness\<close>

text \<open>
  The registry holds distinct live hosts, the loopback entry first; the socket of a host is live;
  the address counter is above every object.
\<close>

definition fresh_above :: "node \<Rightarrow> bool" where
  "fresh_above n \<longleftrightarrow> (\<forall>a\<ge>next_addr n. host_tab n a = None \<and> sock_tab n a = None
     \<and> server_tab n a = None \<and> chan_tab n a = None \<and> sub_tab n a = None)"

definition hosts_live :: "node \<Rightarrow> bool" where
  "hosts_live n \<longleftrightarrow> (\<forall>h\<in>set (hosts n). host_tab n h \<noteq> None)"

definition links_live :: "node \<Rightarrow> bool" where
  "links_live n \<longleftrightarrow>
     (\<forall>h k s. host_tab n h = Some k \<longrightarrow> h_socket k = Some s \<longrightarrow> sock_tab n s \<noteq> None)"

definition mesh_wf :: "node \<Rightarrow> bool" where
  "mesh_wf n \<longleftrightarrow> hosts n \<noteq> [] \<and> distinct (hosts n) \<and> hosts_live n \<and> links_live n \<and> fresh_above n"

lemmas mesh_wf_defs = mesh_wf_def hosts_live_def links_live_def fresh_above_def

lemma mesh_wf_out [simp]: "mesh_wf (n\<lparr>out := x\<rparr>) = mesh_wf n"
  by (simp add: mesh_wf_defs)

lemma mesh_wf_fresh [simp]:
  assumes "mesh_wf n"
  shows "host_tab n (next_addr n) = None" "sock_tab n (next_addr n) = None"
    "server_tab n (next_addr n) = None" "chan_tab n (next_addr n) = None"
    "sub_tab n (next_addr n) = None" "sock_tab n (Suc (next_addr n)) = None"
    "next_addr n \<notin> set (hosts n)"
  using assms by (auto simp: mesh_wf_defs)

lemma mesh_wf_live: "mesh_wf n \<Longrightarrow> h \<in> set (hosts n) \<Longrightarrow> \<exists>k. host_tab n h = Some k"
  by (auto simp: mesh_wf_defs)

lemma mesh_wf_link:
  "mesh_wf n \<Longrightarrow> host_tab n h = Some k \<Longrightarrow> h_socket k = Some s \<Longrightarrow> \<exists>so. sock_tab n s = Some so"
  by (auto simp: mesh_wf_defs)

lemma mesh_wf_me: "mesh_wf n \<Longrightarrow> me n = Inr (hd (hosts n))"
  by (cases "hosts n") (auto simp: mesh_wf_defs me_def)

section \<open>The registry\<close>

definition host_matches :: "node \<Rightarrow> string \<times> int \<Rightarrow> addr \<Rightarrow> bool" where
  "host_matches n key h =
     (case host_tab n h of None \<Rightarrow> False | Some k \<Rightarrow> (h_ip k, h_port k) = key)"

definition mesh_find :: "node \<Rightarrow> string \<times> int \<Rightarrow> addr option" where
  "mesh_find n key = List.find (host_matches n key) (hosts n)"

lemma find_host_eq:
  "\<forall>h\<in>set hs. host_tab n h \<noteq> None \<Longrightarrow>
   find_host (host_tab n) hs ip port = Inr (List.find (host_matches n (ip, port)) hs)"
  by (induction hs) (auto simp: host_matches_def)

lemma get_host_eq: "mesh_wf n \<Longrightarrow> get_host ip port n = Inr (mesh_find n (ip, port))"
  by (simp add: get_host_def mesh_find_def find_host_eq mesh_wf_defs)

lemma has_host_eq: "mesh_wf n \<Longrightarrow> has_host ip port n = Inr (mesh_find n (ip, port) \<noteq> None)"
  by (simp add: has_host_def get_host_eq)

lemma find_host_cong:
  "(\<And>h. h \<in> set hs \<Longrightarrow> tab h = tab' h) \<Longrightarrow> find_host tab hs ip port = find_host tab' hs ip port"
  by (induction hs) (simp_all add: live_def cong: if_cong)

lemma has_host_fresh:
  assumes "mesh_wf n"
  shows "has_host ip port (n\<lparr>next_addr := x, host_tab := (host_tab n)(next_addr n \<mapsto> k)\<rparr>)
    = Inr (mesh_find n (ip, port) \<noteq> None)"
proof -
  have "find_host ((host_tab n)(next_addr n \<mapsto> k)) (hosts n) ip port
      = find_host (host_tab n) (hosts n) ip port"
    using mesh_wf_fresh(7) [OF assms] by (intro find_host_cong) auto
  then show ?thesis using get_host_eq [OF assms, of ip port] by (simp add: has_host_def get_host_def)
qed

lemma mesh_find_SomeD:
  "mesh_find n (ip, port) = Some h \<Longrightarrow>
     h \<in> set (hosts n) \<and> (\<exists>k. host_tab n h = Some k \<and> h_ip k = ip \<and> h_port k = port)"
  by (auto simp: mesh_find_def host_matches_def dest!: find_SomeD split: option.splits)

lemma find_cong_set: "(\<And>x. x \<in> set xs \<Longrightarrow> P x = Q x) \<Longrightarrow> List.find P xs = List.find Q xs"
  by (induction xs) auto

lemma mesh_find_frame:
  "hosts m = hosts n \<Longrightarrow> (\<And>h. h \<in> set (hosts n) \<Longrightarrow> host_matches m key h = host_matches n key h) \<Longrightarrow>
   mesh_find m key = mesh_find n key"
  unfolding mesh_find_def by (simp, rule find_cong_set) auto

section \<open>Sending\<close>

text \<open>The socket a message to a host goes to, if there is one and it is running.\<close>

definition host_link :: "node \<Rightarrow> addr \<Rightarrow> addr option" where
  "host_link n h =
     Option.bind (host_tab n h) (\<lambda>k. Option.bind (h_socket k) (\<lambda>s.
     Option.bind (sock_tab n s) (\<lambda>so. if s_bStop so then None else Some s)))"

definition host_ready :: "node \<Rightarrow> addr \<Rightarrow> bool" where
  "host_ready n h = (case host_tab n h of None \<Rightarrow> False | Some k \<Rightarrow> h_bReady k)"

definition host_sends :: "node \<Rightarrow> addr \<Rightarrow> string \<Rightarrow> effect list" where
  "host_sends n h s = (case host_link n h of None \<Rightarrow> [] | Some sk \<Rightarrow> [Send sk (frame s)])"

definition broadcast_sends :: "node \<Rightarrow> string \<Rightarrow> effect list" where
  "broadcast_sends n s = concat (map (\<lambda>h. host_sends n h s) (filter (host_ready n) (tl (hosts n))))"

lemma sends_out [simp]:
  "host_link (n\<lparr>out := x\<rparr>) = host_link n" "host_ready (n\<lparr>out := x\<rparr>) = host_ready n"
  "host_sends (n\<lparr>out := x\<rparr>) = host_sends n"
  by (simp_all add: fun_eq_iff host_link_def host_ready_def host_sends_def)

lemma sends_chan_tab [simp]:
  "host_link (n\<lparr>chan_tab := t\<rparr>) = host_link n" "host_ready (n\<lparr>chan_tab := t\<rparr>) = host_ready n"
  "host_sends (n\<lparr>chan_tab := t\<rparr>) = host_sends n"
  by (simp_all add: fun_eq_iff host_link_def host_ready_def host_sends_def)

lemma broadcast_sends_frame [simp]:
  "broadcast_sends (n\<lparr>out := x\<rparr>) = broadcast_sends n"
  "broadcast_sends (n\<lparr>chan_tab := t\<rparr>) = broadcast_sends n"
  by (simp_all add: fun_eq_iff broadcast_sends_def)

lemma host_send_result:
  assumes "mesh_wf n" and "host_tab n h = Some k"
  shows "host_send h s n = Inr (n\<lparr>out := out n @ host_sends n h s\<rparr>)"
proof (cases "h_socket k")
  case None
  with assms show ?thesis by (simp add: host_send_def host_sends_def host_link_def)
next
  case (Some sk)
  then obtain so where "sock_tab n sk = Some so" using mesh_wf_link assms by blast
  with Some assms show ?thesis
    by (simp add: host_send_def host_sends_def host_link_def sock_write_def sock_write_buf_def)
qed

lemma broadcast_loop:
  assumes "mesh_wf n" and "set hs \<subseteq> set (hosts n)"
  shows "foldE (\<lambda>h n. bindE (live (host_tab n) h)
            (\<lambda>k. if h_bReady k then host_send h s n else Inr n)) hs n =
     Inr (n\<lparr>out := out n @ concat (map (\<lambda>h. host_sends n h s) (filter (host_ready n) hs))\<rparr>)"
  using assms
proof (induction hs arbitrary: n)
  case (Cons h hs)
  obtain k where k: "host_tab n h = Some k" using mesh_wf_live Cons.prems by fastforce
  show ?case
  proof (cases "h_bReady k")
    case True
    let ?m = "n\<lparr>out := out n @ host_sends n h s\<rparr>"
    have "mesh_wf ?m" "set hs \<subseteq> set (hosts ?m)" using Cons.prems by simp_all
    from Cons.IH [OF this] show ?thesis
      using k True host_send_result [OF Cons.prems(1) k] by (simp add: host_ready_def)
  next
    case False
    with Cons k show ?thesis by (simp add: host_ready_def)
  qed
qed simp

lemma broadcast_result:
  assumes "mesh_wf n"
  shows "broadcast s n = Inr (n\<lparr>out := out n @ broadcast_sends n s\<rparr>)"
proof -
  have "set (tl (hosts n)) \<subseteq> set (hosts n)" by (cases "hosts n") auto
  from broadcast_loop [OF assms this] show ?thesis by (simp add: broadcast_def broadcast_sends_def)
qed

text \<open>
  A broadcast leaves every object alone and sends the framed message on exactly the running
  sockets of the ready hosts behind the loopback entry, in registry order.
\<close>

theorem broadcast_reaches_ready_hosts:
  assumes "mesh_wf n"
  shows "\<exists>m. broadcast s n = Inr m \<and> m\<lparr>out := out n\<rparr> = n
    \<and> out m = out n @ broadcast_sends n s
    \<and> set (broadcast_sends n s) = {Send sk (frame s) |sk.
         \<exists>h\<in>set (tl (hosts n)). host_ready n h \<and> host_link n h = Some sk}"
proof -
  have "set (broadcast_sends n s) = {Send sk (frame s) |sk.
         \<exists>h\<in>set (tl (hosts n)). host_ready n h \<and> host_link n h = Some sk}"
    by (auto simp: broadcast_sends_def host_sends_def split: option.splits)
  then show ?thesis using broadcast_result [OF assms] by simp
qed

section \<open>Attaching a socket, new hosts\<close>

definition welcome_sends :: "node \<Rightarrow> addr \<Rightarrow> string \<Rightarrow> effect list" where
  "welcome_sends n sk ip = [Send sk (frame (id_message (my_ID n) (SIGNALING_PORT n))),
     Send sk (frame (you_message (localize ip)))]"

lemma host_welcome_result:
  assumes "host_tab n h = Some k" and "h_socket k = Some sk" and "sock_tab n sk = Some so"
  shows "host_welcome h n = Inr (if s_bStop so then n
     else n\<lparr>host_tab := (host_tab n)(h \<mapsto> k\<lparr>h_bConnecting := Some True\<rparr>),
            out := out n @ welcome_sends n sk (s_ip so)\<rparr>)"
  using assms by (simp add: host_welcome_def sock_write_def sock_write_buf_def welcome_sends_def)

definition attached_sock :: "addr \<Rightarrow> socket \<Rightarrow> socket" where
  "attached_sock h so = so\<lparr>s_bLinebuffer := True, s_on_open := OpenHost h,
     s_on_close := CloseHost h, s_cbRecv := RecvHost h\<rparr>"

definition greets :: "host \<Rightarrow> socket \<Rightarrow> bool" where
  "greets k so \<longleftrightarrow> h_bServer k \<and> \<not> s_bStop so"

lemma setSocket_result:
  assumes "host_tab n h = Some k" and "sock_tab n s = Some so"
  shows "setSocket h s n = Inr (n\<lparr>
     host_tab := (host_tab n)(h \<mapsto> k\<lparr>h_socket := Some s,
        h_bConnecting := (if greets k so then Some True else h_bConnecting k)\<rparr>),
     sock_tab := (sock_tab n)(s \<mapsto> attached_sock h so),
     out := out n @ (if greets k so then welcome_sends n s (s_ip so) else [])\<rparr>)"
  using assms
  by (simp add: setSocket_def host_welcome_result [where k = "k\<lparr>h_socket := Some s\<rparr>"]
      attached_sock_def greets_def welcome_sends_def host_welcome_def sock_write_def
      sock_write_buf_def)

definition connecting_host :: "string \<Rightarrow> int \<Rightarrow> addr \<Rightarrow> host" where
  "connecting_host ip port s = \<lparr>h_ip = ip, h_port = port, h_id = 0, h_bReady = False,
     h_bConnecting = Some False, h_bServer = False, h_socket = Some s, h_commit_id = -1,
     h_known_commit_id = -1, h_bUpToDate = False, h_bFastforwarding = False\<rparr>"

definition connecting_sock :: "string \<Rightarrow> int \<Rightarrow> addr \<Rightarrow> socket" where
  "connecting_sock ip port h =
     (attached_sock h TCPSocket_default)\<lparr>s_ip := c_str ip, s_port := port\<rparr>"

lemma Host_connect_result:
  assumes "mesh_wf n" and "resolves E (c_str ip)" and "can_socket E"
    and "mesh_find n (ip, port) = None"
  shows "Host_connect E ip port n = Inr (next_addr n, n\<lparr>
     hosts := hosts n @ [next_addr n],
     host_tab := (host_tab n)(next_addr n \<mapsto> connecting_host ip port (Suc (next_addr n))),
     sock_tab := (sock_tab n)(Suc (next_addr n) \<mapsto> connecting_sock ip port (next_addr n)),
     next_addr := Suc (Suc (next_addr n)),
     out := out n @ [Connect (Suc (next_addr n)) (c_str ip) port]\<rparr>)"
  using assms
  by (simp add: Host_connect_def new_host_def has_host_fresh new_TCPSocket_def setSocket_def
      sock_connect_def TCPSocket_default_def connecting_host_def connecting_sock_def
      attached_sock_def)

lemma Host_connect_throws:
  assumes "mesh_wf n" and "\<not> (resolves E (c_str ip) \<and> can_socket E)"
  shows "\<exists>t. Host_connect E ip port n = Inl (Thrown t)"
  using assms
  by (auto simp: Host_connect_def new_host_def has_host_fresh new_TCPSocket_def setSocket_def
      sock_connect_def TCPSocket_default_def)

section \<open>Operations keep the mesh well formed\<close>

lemma mesh_wf_setSocket:
  assumes "mesh_wf n" and "sock_tab n s \<noteq> None" and "setSocket h s n = Inr m"
  shows "mesh_wf m"
proof -
  obtain k where k: "host_tab n h = Some k"
    using assms(3) by (cases "host_tab n h") (auto simp: setSocket_def host_heap.modify_dead)
  obtain so where so: "sock_tab n s = Some so" using assms(2) by blast
  have "h < next_addr n" "s < next_addr n"
    using assms(1) k so by (auto simp: mesh_wf_defs not_le [symmetric])
  with assms(1) k so show ?thesis
    using assms(3) by (auto simp: setSocket_result [OF k so] mesh_wf_defs split: if_splits)
qed

lemma mesh_wf_Host_connect:
  assumes "mesh_wf n" and "mesh_find n (ip, port) = None" and "Host_connect E ip port n = Inr (h, m)"
  shows "mesh_wf m"
proof -
  have "resolves E (c_str ip) \<and> can_socket E"
    using Host_connect_throws [OF assms(1), of E ip port] assms(3) by fastforce
  with assms Host_connect_result [OF assms(1), of E ip port] show ?thesis
    by (auto simp: mesh_wf_defs connecting_host_def split: if_splits)
qed

lemma host_matches_fresh:
  assumes "mesh_wf n" and "h \<in> set (hosts n)"
  shows "host_matches (n\<lparr>hosts := hs, host_tab := (host_tab n)(next_addr n \<mapsto> k),
     sock_tab := st, next_addr := x, out := os\<rparr>) key h = host_matches n key h"
  using assms mesh_wf_fresh(7) [OF assms(1)] by (auto simp: host_matches_def)

lemma mesh_find_push:
  assumes "mesh_wf n" and "m = n\<lparr>hosts := hosts n @ [next_addr n],
     host_tab := (host_tab n)(next_addr n \<mapsto> k), sock_tab := st, next_addr := x, out := os\<rparr>"
  shows "mesh_find m key = (case mesh_find n key of Some h \<Rightarrow> Some h
     | None \<Rightarrow> if (h_ip k, h_port k) = key then Some (next_addr n) else None)"
proof -
  have "List.find (host_matches m key) (hosts n) = mesh_find n key"
    unfolding mesh_find_def using host_matches_fresh [OF assms(1)] assms(2)
    by (intro find_cong_set) simp
  moreover have "host_matches m key (next_addr n) \<longleftrightarrow> (h_ip k, h_port k) = key"
    using assms(2) by (simp add: host_matches_def)
  ultimately show ?thesis
    using assms(2) by (simp add: mesh_find_def find_append split: option.splits)
qed

lemma add_host_inited_cases:
  assumes "mesh_wf n"
  shows "add_host_inited E ip port n =
    (if mesh_find n (ip, port) \<noteq> None then Inr n
     else bindE (Host_connect E ip port n) (\<lambda>(h, n). Inr n))"
  using assms by (simp add: add_host_inited_def has_host_eq)

section \<open>Keyed registries\<close>

text \<open>
  The contract both registries of the process offer (hosts by address, channels by name): adding a
  key that is present changes nothing, adding one makes it present and leaves the others as they
  were.
\<close>

locale keyed_registry =
  fixes find :: "'n \<Rightarrow> 'k \<Rightarrow> addr option"
    and add :: "'k \<Rightarrow> 'n \<Rightarrow> 'n res"
    and inv :: "'n \<Rightarrow> bool"
  assumes add_present: "inv n \<Longrightarrow> find n k \<noteq> None \<Longrightarrow> add k n = Inr n"
    and add_inv: "inv n \<Longrightarrow> add k n = Inr m \<Longrightarrow> inv m"
    and add_found: "inv n \<Longrightarrow> add k n = Inr m \<Longrightarrow> find m k \<noteq> None"
    and add_other: "inv n \<Longrightarrow> add k n = Inr m \<Longrightarrow> k' \<noteq> k \<Longrightarrow> find m k' = find n k'"
begin

lemma add_idem: "inv n \<Longrightarrow> add k n = Inr m \<Longrightarrow> add k m = Inr m"
  by (meson add_found add_inv add_present)

lemma add_keeps: "inv n \<Longrightarrow> add k n = Inr m \<Longrightarrow> find n k' = Some a \<Longrightarrow> find m k' = Some a"
  by (cases "k' = k") (auto simp: add_present add_other)

lemma add_all:
  "inv n \<Longrightarrow> foldE add ks n = Inr m \<Longrightarrow>
   inv m \<and> {k. find m k \<noteq> None} = {k. find n k \<noteq> None} \<union> set ks"
proof (induction ks arbitrary: n)
  case (Cons k ks)
  then obtain u where u: "add k n = Inr u" "foldE add ks u = Inr m" by auto
  have "inv u" using Cons.prems(1) u(1) by (rule add_inv)
  moreover have "{j. find u j \<noteq> None} = insert k {j. find n j \<noteq> None}"
  proof (rule set_eqI)
    fix j
    show "j \<in> {j. find u j \<noteq> None} \<longleftrightarrow> j \<in> insert k {j. find n j \<noteq> None}"
      using add_found [OF Cons.prems(1) u(1)] add_other [OF Cons.prems(1) u(1), of j]
      by (cases "j = k") auto
  qed
  ultimately show ?case using Cons.IH [OF _ u(2)] by auto
qed simp

lemma add_all_keeps:
  "inv n \<Longrightarrow> foldE add ks n = Inr m \<Longrightarrow> find n k = Some a \<Longrightarrow> find m k = Some a"
  by (induction ks arbitrary: n) (auto intro: add_keeps add_inv)

end

definition add_host_key :: "env \<Rightarrow> string \<times> int \<Rightarrow> node \<Rightarrow> node res" where
  "add_host_key E key n = add_host_inited E (fst key) (snd key) n"

lemma add_host_key_pushes:
  assumes "mesh_wf n" and "mesh_find n key = None" and "add_host_key E key n = Inr m"
  shows "m = n\<lparr>hosts := hosts n @ [next_addr n],
     host_tab := (host_tab n)(next_addr n \<mapsto> connecting_host (fst key) (snd key) (Suc (next_addr n))),
     sock_tab := (sock_tab n)(Suc (next_addr n) \<mapsto> connecting_sock (fst key) (snd key) (next_addr n)),
     next_addr := Suc (Suc (next_addr n)),
     out := out n @ [Connect (Suc (next_addr n)) (c_str (fst key)) (snd key)]\<rparr>"
proof -
  have "resolves E (c_str (fst key)) \<and> can_socket E"
    using Host_connect_throws [OF assms(1), of E "fst key" "snd key"] assms
    by (fastforce simp: add_host_key_def add_host_inited_cases)
  with assms Host_connect_result [OF assms(1), of E "fst key" "snd key"] show ?thesis
    by (auto simp: add_host_key_def add_host_inited_cases)
qed

interpretation mesh_registry: keyed_registry mesh_find "add_host_key E" mesh_wf for E
proof
  fix n m :: node and k k' :: "string \<times> int"
  assume wf: "mesh_wf n"
  show present: "add_host_key E k n = Inr n" if "mesh_find n k \<noteq> None"
    using wf that by (simp add: add_host_key_def add_host_inited_cases)
  assume m: "add_host_key E k n = Inr m"
  have "mesh_wf m \<and> mesh_find m k \<noteq> None \<and> (k' \<noteq> k \<longrightarrow> mesh_find m k' = mesh_find n k')" for k'
  proof (cases "mesh_find n k = None")
    case True
    note push = add_host_key_pushes [OF wf True m]
    have "mesh_wf m" using wf unfolding push by (auto simp: mesh_wf_defs connecting_host_def)
    then show ?thesis
      using mesh_find_push [OF wf push] True
      by (auto simp: connecting_host_def prod_eq_iff split: option.splits)
  qed (use wf present m in auto)
  then show "mesh_wf m" "mesh_find m k \<noteq> None" "k' \<noteq> k \<Longrightarrow> mesh_find m k' = mesh_find n k'"
    by blast+
qed


text \<open>One registry entry per address is kept by \<open>add_host\<close>.\<close>

definition host_key :: "node \<Rightarrow> addr \<Rightarrow> (string \<times> int) option" where
  "host_key n h = map_option (\<lambda>k. (h_ip k, h_port k)) (host_tab n h)"

definition keys_unique :: "node \<Rightarrow> bool" where
  "keys_unique n \<longleftrightarrow> distinct (map (host_key n) (hosts n))"

lemma mesh_find_None_key:
  "mesh_find n key = None \<longleftrightarrow> Some key \<notin> set (map (host_key n) (hosts n))"
proof -
  have "host_matches n key h \<longleftrightarrow> host_key n h = Some key" for h
    by (auto simp: host_matches_def host_key_def split: option.splits)
  then show ?thesis by (fastforce simp: mesh_find_def find_None_iff image_iff)
qed

theorem add_host_keeps_keys_unique:
  assumes "mesh_wf n" and "keys_unique n" and "add_host_key E key n = Inr m"
  shows "keys_unique m"
proof (cases "mesh_find n key = None")
  case True
  note push = add_host_key_pushes [OF assms(1) True assms(3)]
  have "map (host_key m) (hosts n) = map (host_key n) (hosts n)"
    using mesh_wf_fresh(7) [OF assms(1)] unfolding push by (auto simp: host_key_def)
  moreover have "host_key m (next_addr n) = Some key"
    unfolding push by (simp add: host_key_def connecting_host_def)
  moreover have "Some key \<notin> set (map (host_key n) (hosts n))"
    using True mesh_find_None_key [of n key] by simp
  moreover have "hosts m = hosts n @ [next_addr n]" unfolding push by simp
  ultimately show ?thesis
    using assms(2) by (simp only: keys_unique_def map_append list.map distinct_append) simp
next
  case False
  then show ?thesis
    using assms mesh_registry.add_present [OF assms(1), of key E] by simp
qed

end
