(* ===== verification/Channels.thy ===== *)
theory Channels
  imports Mesh_Props "HOL-Library.Word"
begin

text \<open>
  src/channel.h, src/channel.cpp and src/shm.h: the channel registry, ChannelImpl and
  SubscriptionImpl with their state machines (who publishes, which transport, connected or not),
  and the messages they send. Every method is one definition, in the order of the sources; a
  method that may run into undefined behaviour returns the fault.
\<close>

section \<open>SHM (shm.h)\<close>

text \<open>\<open>memcpy\<close> of \<open>len\<close> bytes to the start of a buffer; past its end it is a fault.\<close>

definition memcpy :: "string \<Rightarrow> string \<Rightarrow> string res" where
  "memcpy dst src = (if length src \<le> length dst then Inr (src @ drop (length src) dst)
     else Inl OutOfBounds)"

text \<open>The constructor over memory that is mapped already.\<close>

definition SHM_ctor :: "string \<Rightarrow> nat \<Rightarrow> shm" where
  "SHM_ctor mem len = \<lparr>shm_path = [], shm_len = len, shm_mem = mem\<rparr>"

text \<open>\<open>SHM::write(msg, len)\<close> for a buffer other than the segment itself.\<close>

definition shm_write :: "shm \<Rightarrow> string \<Rightarrow> shm res" where
  "shm_write m msg = bindE (memcpy (shm_mem m) msg) (\<lambda>b. Inr (m\<lparr>shm_mem := b\<rparr>))"

section \<open>The channel registry\<close>

definition new_channel :: "string \<Rightarrow> channel" where
  "new_channel name = \<lparr>c_name = name, c_publisher = None, c_server = None, c_offeredPort = 0,
     c_offeredShmPath = [], c_subscriptions = [], c_subscriptors = [], c_on_message = False,
     c_ptr = None, c_size = 0\<rparr>"

definition ChannelImpl_ctor :: "string \<Rightarrow> node \<Rightarrow> addr \<times> node" where
  "ChannelImpl_ctor name n = (next_addr n,
     (put_chan (next_addr n) (new_channel name) (n\<lparr>next_addr := Suc (next_addr n)\<rparr>))
       \<lparr>channels := channels n @ [next_addr n]\<rparr>)"

definition ChannelImpl_dtor :: "addr \<Rightarrow> node \<Rightarrow> node" where
  "ChannelImpl_dtor c n = n\<lparr>channels := vector_remove (channels n) c,
     chan_tab := (chan_tab n)(c := None)\<rparr>"

fun find_channel :: "(addr \<rightharpoonup> channel) \<Rightarrow> addr list \<Rightarrow> string \<Rightarrow> addr option res" where
  "find_channel tab [] name = Inr None"
| "find_channel tab (c # cs) name =
     bindE (live tab c) (\<lambda>k. if c_name k = name then Inr (Some c) else find_channel tab cs name)"

definition get_channel :: "string \<Rightarrow> node \<Rightarrow> addr option res" where
  "get_channel name n = find_channel (chan_tab n) (channels n) name"

definition has_channel :: "string \<Rightarrow> node \<Rightarrow> bool res" where
  "has_channel name n = bindE (get_channel name n) (\<lambda>r. Inr (r \<noteq> None))"

definition get_or_create_channel :: "string \<Rightarrow> node \<Rightarrow> (addr \<times> node) res" where
  "get_or_create_channel name n =
     bindE (get_channel name n) (\<lambda>r.
     case r of None \<Rightarrow> Inr (ChannelImpl_ctor name n) | Some c \<Rightarrow> Inr (c, n))"

fun index_from :: "addr list \<Rightarrow> addr \<Rightarrow> int \<Rightarrow> int" where
  "index_from [] c i = -1"
| "index_from (d # ds) c i = (if d = c then i else index_from ds c (i + 1))"

definition get_channel_index :: "addr \<Rightarrow> node \<Rightarrow> int" where
  "get_channel_index c n = index_from (channels n) c 0"

section \<open>SubscriptionImpl\<close>

definition new_sub :: "subscription \<Rightarrow> node \<Rightarrow> addr \<times> node" where
  "new_sub k n = (next_addr n, put_sub (next_addr n) k (n\<lparr>next_addr := Suc (next_addr n)\<rparr>))"

text \<open>The three constructors: a local subscription, a remote subscriptor over TCP, over SHM.\<close>

definition Subscription_local :: "addr \<Rightarrow> bool \<Rightarrow> node \<Rightarrow> (addr \<times> node) res" where
  "Subscription_local c bAsync n =
     bindE (me n) (\<lambda>h.
     case new_sub \<lparr>sub_channel = c, sub_host = h, sub_bAsync = bAsync, sub_bConnected = False,
         sub_transport = TRANSPORT_TCP, sub_socket = None, sub_shm = None,
         sub_on_message = False, sub_size = 0\<rparr> n of
       (s, n) \<Rightarrow>
         bindE (upd_chan c (\<lambda>k. k\<lparr>c_subscriptions := c_subscriptions k @ [s]\<rparr>) n) (\<lambda>n.
         Inr (s, n)))"

definition Subscriptor_tcp :: "addr \<Rightarrow> addr \<Rightarrow> addr \<Rightarrow> node \<Rightarrow> (addr \<times> node) res" where
  "Subscriptor_tcp c sk h n =
     (case new_sub \<lparr>sub_channel = c, sub_host = h, sub_bAsync = False, sub_bConnected = True,
         sub_transport = TRANSPORT_TCP, sub_socket = Some sk, sub_shm = None,
         sub_on_message = False, sub_size = 0\<rparr> n of
       (s, n) \<Rightarrow>
         bindE (upd_chan c (\<lambda>k. k\<lparr>c_subscriptors := c_subscriptors k @ [s]\<rparr>) n) (\<lambda>n.
         bindE (upd_sock sk (\<lambda>so. so\<lparr>s_on_open := OpenSub s, s_on_close := CloseSub s,
                                    s_cbRecv := RecvChannel c\<rparr>) n) (\<lambda>n.
         Inr (s, n))))"

definition Subscriptor_shm :: "env \<Rightarrow> addr \<Rightarrow> string \<Rightarrow> addr \<Rightarrow> node \<Rightarrow> (addr \<times> node) res" where
  "Subscriptor_shm E c path h n =
     (case new_sub \<lparr>sub_channel = c, sub_host = h, sub_bAsync = False, sub_bConnected = True,
         sub_transport = TRANSPORT_SHM, sub_socket = None,
         sub_shm = Some \<lparr>shm_path = path, shm_len = length (shm_attach E path),
                         shm_mem = shm_attach E path\<rparr>,
         sub_on_message = False, sub_size = 0\<rparr> n of
       (s, n) \<Rightarrow>
         bindE (upd_chan c (\<lambda>k. k\<lparr>c_subscriptors := c_subscriptors k @ [s]\<rparr>) n) (\<lambda>n.
         Inr (s, n)))"

text \<open>\<open>delete\<close>: free the mapping, leave both vectors of the channel, release the object.\<close>

definition Subscription_dtor :: "addr \<Rightarrow> node \<Rightarrow> node res" where
  "Subscription_dtor s n =
     bindE (live (sub_tab n) s) (\<lambda>k.
     bindE (upd_chan (sub_channel k)
              (\<lambda>c. c\<lparr>c_subscriptions := vector_remove (c_subscriptions c) s,
                     c_subscriptors := vector_remove (c_subscriptors c) s\<rparr>)
              (if sub_shm k = None then n else emit (ShmFree s) n)) (\<lambda>n.
     Inr (n\<lparr>sub_tab := (sub_tab n)(s := None)\<rparr>)))"

definition sub_connect_tcp :: "env \<Rightarrow> addr \<Rightarrow> node \<Rightarrow> node res" where
  "sub_connect_tcp E s n =
     bindE (live (sub_tab n) s) (\<lambda>k.
     if sub_bConnected k then Inr n
     else
       case new_TCPSocket n of (sk, n) \<Rightarrow>
         bindE (upd_sock sk (\<lambda>so. so\<lparr>s_on_open := OpenSub s, s_on_close := CloseSub s,
                                    s_cbRecv := RecvSub s\<rparr>) n) (\<lambda>n.
         bindE (upd_sub s (\<lambda>k. k\<lparr>sub_bConnected := False, sub_socket := Some sk,
                                 sub_transport := TRANSPORT_TCP\<rparr>) n) (\<lambda>n.
         bindE (live (chan_tab n) (sub_channel k)) (\<lambda>c.
         bindE (deref (c_publisher c)) (\<lambda>p.
         bindE (live (host_tab n) p) (\<lambda>ph.
         sock_connect E sk (c_str (h_ip ph)) (c_offeredPort c) n))))))"

definition sub_connect_shm :: "env \<Rightarrow> addr \<Rightarrow> node \<Rightarrow> node res" where
  "sub_connect_shm E s n =
     bindE (live (sub_tab n) s) (\<lambda>k.
     if sub_bConnected k then Inr n
     else
       bindE (live (chan_tab n) (sub_channel k)) (\<lambda>c.
       upd_sub s (\<lambda>k. k\<lparr>sub_transport := TRANSPORT_SHM,
         sub_shm := (if sub_bAsync k then sub_shm k
           else Some \<lparr>shm_path = c_offeredShmPath c, shm_len = c_size c,
                      shm_mem = shm_open E (c_offeredShmPath c) (c_size c)\<rparr>),
         sub_bConnected := True\<rparr>) n))"

definition sub_on_open :: "addr \<Rightarrow> node \<Rightarrow> node res" where
  "sub_on_open s n = upd_sub s (\<lambda>k. k\<lparr>sub_bConnected := True\<rparr>) n"

definition sub_on_close :: "addr \<Rightarrow> node \<Rightarrow> node res" where
  "sub_on_close s n =
     bindE (live (sub_tab n) s) (\<lambda>k.
     bindE (upd_sub s (\<lambda>k. k\<lparr>sub_bConnected := False, sub_shm := None\<rparr>)
              (if sub_shm k = None then n else emit (ShmFree s) n)) (\<lambda>n.
     bindE (deref (sub_socket k)) (\<lambda>sk.
     bindE (remove_listeners sk n) (Subscription_dtor s))))"

definition sub_close :: "addr \<Rightarrow> node \<Rightarrow> node res" where
  "sub_close s n =
     bindE (live (sub_tab n) s) (\<lambda>k.
     bindE (if sub_transport k = TRANSPORT_TCP
            then bindE (deref (sub_socket k)) (\<lambda>sk.
                 bindE (remove_listeners sk n) (sock_close sk False))
            else Inr n) (sub_on_close s))"

text \<open>
  Writing: by copy on either transport; without arguments the subscription's own memory, which is
  the \<open>ptr\<close> and \<open>_size\<close> of the base class Subscription (null and \<open>sub_size\<close> bytes).
\<close>

definition sub_write :: "addr \<Rightarrow> string \<Rightarrow> node \<Rightarrow> node res" where
  "sub_write s msg n =
     bindE (live (sub_tab n) s) (\<lambda>k.
     if \<not> sub_bConnected k then Inr n
     else case sub_transport k of
       TRANSPORT_TCP \<Rightarrow> bindE (deref (sub_socket k)) (\<lambda>sk. sock_write_buf sk msg n)
     | TRANSPORT_SHM \<Rightarrow>
         bindE (deref (sub_shm k)) (\<lambda>m.
         bindE (shm_write m msg) (\<lambda>m'.
         bindE (upd_sub s (\<lambda>k. k\<lparr>sub_shm := Some m'\<rparr>) n) (\<lambda>n.
         Inr (emit (ShmWrite s msg) n)))))"

definition sub_write_dma :: "addr \<Rightarrow> node \<Rightarrow> node res" where
  "sub_write_dma s n =
     bindE (live (sub_tab n) s) (\<lambda>k.
     if \<not> sub_bConnected k then Inr n
     else case sub_transport k of
       TRANSPORT_TCP \<Rightarrow>
         bindE (deref (sub_socket k)) (\<lambda>sk.
         if sub_size k = 0 then sock_write_buf sk [] n else Inl NullDeref)
     | TRANSPORT_SHM \<Rightarrow> bindE (deref (sub_shm k)) (\<lambda>_. Inr n))"

section \<open>ChannelImpl\<close>

definition connect_tcp_message :: "string \<Rightarrow> string" where
  "connect_tcp_message name = ''CONNECT_TCP='' @ name"

definition connect_shm_message :: "string \<Rightarrow> string" where
  "connect_shm_message name = ''CONNECT_SHM'' @ name"

definition offer_tcp_message :: "string \<Rightarrow> int \<Rightarrow> string" where
  "offer_tcp_message name port = ''OFFER_TCP='' @ name @ ''|'' @ show_int port"

definition offer_shm_message :: "string \<Rightarrow> string \<Rightarrow> nat \<Rightarrow> string" where
  "offer_shm_message name path sz = ''OFFER_SHM'' @ name @ ''|'' @ path @ ''|'' @ show_nat sz"

definition channel_connect_tcp :: "env \<Rightarrow> addr \<Rightarrow> node \<Rightarrow> node res" where
  "channel_connect_tcp E c n =
     bindE (live (chan_tab n) c) (\<lambda>k.
     if c_offeredPort k = 0
     then bindE (deref (c_publisher k)) (\<lambda>p. host_send p (connect_tcp_message (c_name k)) n)
     else foldE (sub_connect_tcp E) (c_subscriptions k) n)"

definition channel_connect_shm :: "env \<Rightarrow> addr \<Rightarrow> node \<Rightarrow> node res" where
  "channel_connect_shm E c n =
     bindE (live (chan_tab n) c) (\<lambda>k.
     if c_offeredShmPath k = []
     then bindE (deref (c_publisher k)) (\<lambda>p. host_send p (connect_shm_message (c_name k)) n)
     else foldE (sub_connect_shm E) (c_subscriptions k) n)"

definition channel_connect :: "env \<Rightarrow> addr \<Rightarrow> node \<Rightarrow> node res" where
  "channel_connect E c n =
     bindE (live (chan_tab n) c) (\<lambda>k.
     case c_publisher k of
       None \<Rightarrow> Inr n
     | Some p \<Rightarrow>
         if c_subscriptions k = [] then Inr n
         else bindE (me n) (\<lambda>m.
         if p = m then Inr n
         else bindE (is_local p n) (\<lambda>loc.
         if loc then channel_connect_shm E c n else channel_connect_tcp E c n)))"

text \<open>
  \<open>disconnect\<close> is a range-for over \<open>subscriptions\<close>. When closing a subscription takes it out of
  that vector, the erasure invalidates the loop's iterators and advancing them is a fault.
\<close>

fun close_subs :: "addr \<Rightarrow> addr list \<Rightarrow> node \<Rightarrow> node res" where
  "close_subs c [] n = Inr n"
| "close_subs c (s # ss) n =
     bindE (live (chan_tab n) c) (\<lambda>k.
     bindE (sub_close s n) (\<lambda>m.
     bindE (live (chan_tab m) c) (\<lambda>k'.
     if c_subscriptions k' = c_subscriptions k then close_subs c ss m else Inl InvalidIterator)))"

definition channel_disconnect :: "addr \<Rightarrow> node \<Rightarrow> node res" where
  "channel_disconnect c n =
     bindE (live (chan_tab n) c) (\<lambda>k. close_subs c (c_subscriptions k) n)"

definition setPublisher :: "env \<Rightarrow> addr \<Rightarrow> addr option \<Rightarrow> node \<Rightarrow> node res" where
  "setPublisher E c p n =
     bindE (live (chan_tab n) c) (\<lambda>k.
     bindE (if c_publisher k \<noteq> None \<and> c_publisher k \<noteq> p then channel_disconnect c n else Inr n) (\<lambda>n.
     bindE (upd_chan c (\<lambda>k. k\<lparr>c_publisher := p, c_offeredPort := 0\<rparr>) n) (\<lambda>n.
     bindE (live (chan_tab n) c) (\<lambda>k.
     if c_subscriptions k \<noteq> [] \<and> p \<noteq> None then channel_connect E c n else Inr n))))"

definition getType :: "addr \<Rightarrow> node \<Rightarrow> char res" where
  "getType c n =
     bindE (live (chan_tab n) c) (\<lambda>k.
     bindE (me n) (\<lambda>m.
     Inr (if c_publisher k = Some m then CHR ''P''
          else if c_subscriptions k \<noteq> [] then CHR ''S''
          else if c_publisher k \<noteq> None then CHR ''A''
          else CHR ''N'')))"

definition channel_tostring :: "addr \<Rightarrow> node \<Rightarrow> string res" where
  "channel_tostring c n =
     bindE (live (chan_tab n) c) (\<lambda>k.
     bindE (getType c n) (\<lambda>t.
     bindE (case c_publisher k of
              None \<Rightarrow> Inr []
            | Some p \<Rightarrow> bindE (live (host_tab n) p) (\<lambda>h. Inr (host_tostring h))) (\<lambda>p.
     Inr ([t] @ c_name k @ ''|'' @ p))))"

definition channel_publish :: "env \<Rightarrow> addr \<Rightarrow> node \<Rightarrow> node res" where
  "channel_publish E c n =
     bindE (live (chan_tab n) c) (\<lambda>k.
     bindE (me n) (\<lambda>m.
     if c_publisher k = Some m then Inr n
     else
       bindE (setPublisher E c (Some m) n) (\<lambda>n.
       bindE (channel_tostring c n) (\<lambda>s.
       broadcast (''PUBLISH='' @ s) n))))"

definition channel_unpublish :: "env \<Rightarrow> addr \<Rightarrow> node \<Rightarrow> node res" where
  "channel_unpublish E c n =
     bindE (setPublisher E c None n) (\<lambda>n.
     bindE (channel_tostring c n) (\<lambda>s.
     broadcast (''UNPUBLISH='' @ s) n))"

text \<open>\<open>new SubscriptionImpl(this)\<close>: with the member's default, \<open>bAsync\<close> is false.\<close>

definition channel_subscribe :: "env \<Rightarrow> addr \<Rightarrow> node \<Rightarrow> (addr \<times> node) res" where
  "channel_subscribe E c n =
     bindE (Subscription_local c False n) (\<lambda>(s, n).
     bindE (channel_connect E c n) (\<lambda>n. Inr (s, n)))"

definition alloc_message :: "string \<Rightarrow> nat \<Rightarrow> string" where
  "alloc_message name sz = ''ALLOCATE='' @ name @ ''='' @ show_nat sz"

definition channel_alloc :: "env \<Rightarrow> addr \<Rightarrow> nat \<Rightarrow> node \<Rightarrow> node res" where
  "channel_alloc E c sz n =
     bindE (live (chan_tab n) c) (\<lambda>k.
     if c_ptr k \<noteq> None
     then Inr (emit (Dbg (''WARNING : channel '' @ c_str (c_name k) @ '' already allocated'' @ [NL])) n)
     else
       bindE (upd_chan c (\<lambda>k. k\<lparr>c_ptr := Some (shm_create E (c_name k) sz), c_size := sz\<rparr>) n) (\<lambda>n.
       broadcast (alloc_message (c_name k) sz) n))"

definition channel_write :: "addr \<Rightarrow> string \<Rightarrow> node \<Rightarrow> node res" where
  "channel_write c msg n =
     bindE (live (chan_tab n) c) (\<lambda>k. foldE (\<lambda>s. sub_write s msg) (c_subscriptors k) n)"

definition channel_write_dma :: "addr \<Rightarrow> node \<Rightarrow> node res" where
  "channel_write_dma c n =
     bindE (live (chan_tab n) c) (\<lambda>k. foldE sub_write_dma (c_subscriptors k) n)"

text \<open>Offers: the server is created on the first request, with the requesting host captured.\<close>

definition offer_tcp :: "env \<Rightarrow> addr \<Rightarrow> addr \<Rightarrow> node \<Rightarrow> node res" where
  "offer_tcp E c h n =
     bindE (live (chan_tab n) c) (\<lambda>k.
     bindE (case c_server k of
              Some v \<Rightarrow> Inr (v, n)
            | None \<Rightarrow>
                bindE (TCPServer_range E 10000 20000 n) (\<lambda>(v, n).
                bindE (upd_chan c (\<lambda>k. k\<lparr>c_server := Some v\<rparr>) n) (\<lambda>n.
                bindE (upd_server v (\<lambda>sv. sv\<lparr>srv_on_open := AcceptSubscriptor c h\<rparr>) n) (\<lambda>n.
                Inr (v, n))))) (\<lambda>(v, n).
     bindE (live (server_tab n) v) (\<lambda>sv.
     host_send h (offer_tcp_message (c_name k) (srv_port sv)) n)))"

definition offer_shm :: "addr \<Rightarrow> addr \<Rightarrow> node \<Rightarrow> node res" where
  "offer_shm c h n =
     bindE (live (chan_tab n) c) (\<lambda>k.
     bindE (upd_chan c (\<lambda>k. k\<lparr>c_offeredShmPath := c_name k\<rparr>) n) (\<lambda>n.
     host_send h (offer_shm_message (c_name k) (c_name k) (c_size k)) n))"

definition on_offer_tcp :: "env \<Rightarrow> addr \<Rightarrow> string \<Rightarrow> node \<Rightarrow> node res" where
  "on_offer_tcp E c offer n =
     bindE (upd_chan c (\<lambda>k. k\<lparr>c_offeredPort := atoi offer\<rparr>) n) (channel_connect_tcp E c)"

text \<open>\<open>_size = atoi(...)\<close> converts an int to \<open>size_t\<close>: a 64-bit unsigned word.\<close>

definition size_of_int :: "int \<Rightarrow> nat" where
  "size_of_int i = unat (word_of_int i :: 64 word)"

definition on_offer_shm :: "env \<Rightarrow> addr \<Rightarrow> string \<Rightarrow> node \<Rightarrow> node res" where
  "on_offer_shm E c offer n =
     bindE (upd_chan c (\<lambda>k. k\<lparr>c_offeredShmPath := str_before offer ''|'',
                             c_size := size_of_int (atoi (str_after offer ''|''))\<rparr>) n)
       (channel_connect_shm E c)"

section \<open>Over all channels\<close>

definition close_all_channels :: "env \<Rightarrow> addr \<Rightarrow> node \<Rightarrow> node res" where
  "close_all_channels E h n =
     foldE (\<lambda>c n. bindE (live (chan_tab n) c) (\<lambda>k.
              if c_publisher k = Some h then setPublisher E c None n else Inr n)) (channels n) n"

definition broadcast_published_channels :: "node \<Rightarrow> node res" where
  "broadcast_published_channels n =
     foldE (\<lambda>c n. bindE (live (chan_tab n) c) (\<lambda>k.
              bindE (me n) (\<lambda>m.
              if c_publisher k = Some m
              then bindE (channel_tostring c n) (\<lambda>s. broadcast (''PUBLISH='' @ s) n)
              else Inr n))) (channels n) n"

fun dump_channel_lines :: "addr list \<Rightarrow> node \<Rightarrow> string list res" where
  "dump_channel_lines [] n = Inr []"
| "dump_channel_lines (c # cs) n =
     bindE (channel_tostring c n) (\<lambda>s.
     bindE (dump_channel_lines cs n) (\<lambda>rest. Inr ((''  - '' @ s) # rest)))"

definition dump_channels :: "node \<Rightarrow> string list res" where
  "dump_channels n =
     bindE (dump_channel_lines (channels n) n) (\<lambda>ls.
     Inr ([''CHANNELS'' @ [NL] @ ''------------''] @ ls @ [''------------'']))"

end
