(* ===== verification/Signaling.thy ===== *)
theory Signaling
  imports Channels
begin

text \<open>
  The signaling layer: the statement handlers of src/channel.cpp (PUBLISH, UNPUBLISH, CONNECT,
  OFFER), their dispatch in src/signaling.cpp, and the notifications a host gives on opening and
  closing.
\<close>

section \<open>Statement handlers (channel.cpp)\<close>

text \<open>\<open>statement[0]\<close> and \<open>statement.substr(1)\<close>: the latter throws on an empty string.\<close>

definition split_statement :: "string \<Rightarrow> (char \<times> string) res" where
  "split_statement s = (case s of [] \<Rightarrow> Inl (Thrown ''std::out_of_range'') | t # u \<Rightarrow> Inr (t, u))"

definition apply_publish_statement :: "env \<Rightarrow> addr \<Rightarrow> string \<Rightarrow> node \<Rightarrow> node res" where
  "apply_publish_statement E h statement n =
     bindE (split_statement statement) (\<lambda>(type, body).
     let name = str_before body ''|''; opts = str_after statement ''|'' in
     bindE (get_or_create_channel name n) (\<lambda>(c, n).
     if type = CHR ''P'' then setPublisher E c (Some h) n
     else if type = CHR ''A'' \<or> type = CHR ''S'' then
       bindE (get_host (str_before opts '':'') (atoi (str_after opts '':'')) n) (\<lambda>p.
       bindE (live (chan_tab n) c) (\<lambda>k.
       if c_publisher k \<noteq> None then Inr n else setPublisher E c p n))
     else Inr n))"

definition apply_unpublish_statement :: "env \<Rightarrow> addr \<Rightarrow> string \<Rightarrow> node \<Rightarrow> node res" where
  "apply_unpublish_statement E h statement n =
     bindE (split_statement statement) (\<lambda>(type, body).
     bindE (get_channel (str_before body ''|'') n) (\<lambda>r.
     case r of None \<Rightarrow> Inr n | Some c \<Rightarrow> setPublisher E c None n))"

definition make_offer_tcp :: "env \<Rightarrow> addr \<Rightarrow> string \<Rightarrow> node \<Rightarrow> node res" where
  "make_offer_tcp E h name n =
     bindE (get_channel name n) (\<lambda>r.
     case r of None \<Rightarrow> Inr n | Some c \<Rightarrow> offer_tcp E c h n)"

definition make_offer_shm :: "addr \<Rightarrow> string \<Rightarrow> node \<Rightarrow> node res" where
  "make_offer_shm h name n =
     bindE (get_channel name n) (\<lambda>r.
     case r of None \<Rightarrow> Inr n | Some c \<Rightarrow> offer_shm c h n)"

definition answer_offer_tcp :: "env \<Rightarrow> addr \<Rightarrow> string \<Rightarrow> node \<Rightarrow> node res" where
  "answer_offer_tcp E h offer n =
     bindE (get_channel (str_before offer ''|'') n) (\<lambda>r.
     case r of None \<Rightarrow> Inr n | Some c \<Rightarrow> on_offer_tcp E c (str_after offer ''|'') n)"

definition answer_offer_shm :: "env \<Rightarrow> addr \<Rightarrow> string \<Rightarrow> node \<Rightarrow> node res" where
  "answer_offer_shm E h offer n =
     bindE (get_channel (str_before offer ''|'') n) (\<lambda>r.
     case r of None \<Rightarrow> Inr n | Some c \<Rightarrow> on_offer_shm E c (str_after offer ''|'') n)"

section \<open>Dispatch (signaling.cpp)\<close>

definition digest_message :: "env \<Rightarrow> addr \<Rightarrow> string \<Rightarrow> node \<Rightarrow> node res" where
  "digest_message E h s n =
     (if str_starts_with s ''PUBLISH='' then apply_publish_statement E h (str_after s ''='') n
      else if str_starts_with s ''UNPUBLISH='' then apply_unpublish_statement E h (str_after s ''='') n
      else if str_starts_with s ''CONNECT_TCP='' then make_offer_tcp E h (str_after s ''='') n
      else if str_starts_with s ''CONNECT_SHM='' then make_offer_shm h (str_after s ''='') n
      else if str_starts_with s ''OFFER_TCP='' then answer_offer_tcp E h (str_after s ''='') n
      else if str_starts_with s ''OFFER_SHM='' then answer_offer_shm E h (str_after s ''='') n
      else Inr n)"

definition on_host_open :: "addr \<Rightarrow> node \<Rightarrow> node res" where
  "on_host_open h n = broadcast_published_channels n"

definition on_host_close :: "env \<Rightarrow> addr \<Rightarrow> node \<Rightarrow> node res" where
  "on_host_close E h n = close_all_channels E h n"

section \<open>Which message goes where\<close>

text \<open>The separator of a statement is the first equals sign, which ends the keyword.\<close>

lemma digest_PUBLISH:
  "digest_message E h (''PUBLISH='' @ b) n = apply_publish_statement E h b n"
  using str_after_char [of "CHR ''=''" "''PUBLISH''" b] by (simp add: digest_message_def)

lemma digest_UNPUBLISH:
  "digest_message E h (''UNPUBLISH='' @ b) n = apply_unpublish_statement E h b n"
  using str_after_char [of "CHR ''=''" "''UNPUBLISH''" b] by (simp add: digest_message_def)

lemma digest_CONNECT_TCP [simp]:
  "digest_message E h (connect_tcp_message b) n = make_offer_tcp E h b n"
  using str_after_char [of "CHR ''=''" "''CONNECT_TCP''" b]
  by (simp add: digest_message_def connect_tcp_message_def)

lemma digest_OFFER_TCP:
  "digest_message E h (''OFFER_TCP='' @ b) n = answer_offer_tcp E h b n"
  using str_after_char [of "CHR ''=''" "''OFFER_TCP''" b] by (simp add: digest_message_def)

lemmas digest_cons [simp] = digest_PUBLISH [simplified] digest_UNPUBLISH [simplified]
  digest_OFFER_TCP [simplified]

end
