(* ===== verification/Handlers.thy ===== *)
theory Handlers
  imports Signaling
begin

text \<open>
  The entry points of the process: the receive handler of a Host and of an incoming connection
  (src/mesh.cpp), the thread of a TCPSocket and the accept loop of a TCPServer
  (src/utils/Socket.cpp) with the callbacks they run, and the calls of the public API
  (src/libpubsub.cpp). Each entry point is one event; a run of the process is a sequence of events.
\<close>

section \<open>Host (mesh.cpp)\<close>

definition host_on_close :: "env \<Rightarrow> addr \<Rightarrow> node \<Rightarrow> node res" where
  "host_on_close E h n =
     bindE (upd_host h (\<lambda>k. k\<lparr>h_bReady := False\<rparr>) n) (\<lambda>n.
     bindE (live (host_tab n) h) (\<lambda>k.
     bindE (deref (h_socket k)) (\<lambda>sk.
     bindE (sock_close sk False n) (on_host_close E h))))"

definition host_on_open :: "addr \<Rightarrow> node \<Rightarrow> node res" where
  "host_on_open h n = on_host_open h n"

declare host_on_open_def [simp]

text \<open>The two numbers of an \<open>ID=i|PORT=p\<close> message.\<close>

definition parse_id :: "string \<Rightarrow> int" where
  "parse_id s = atoi (str_after (str_before s ''|'') ''='')"

definition parse_port :: "string \<Rightarrow> int" where
  "parse_port s = atoi (str_after (str_after s ''|'') ''='')"

definition on_receive :: "env \<Rightarrow> addr \<Rightarrow> string \<Rightarrow> node \<Rightarrow> node res" where
  "on_receive E h s n =
     (if str_starts_with s ''ID='' then
        bindE (upd_host h (\<lambda>k. k\<lparr>h_id := parse_id s, h_port := parse_port s\<rparr>) n)
          (host_send h ''CONNECTED'')
      else if str_starts_with s ''YOU='' then
        bindE (me n) (\<lambda>m.
        upd_host m (\<lambda>k. k\<lparr>h_ip := str_after s ''='', h_bReady := True\<rparr>) n)
      else if s = ''CONNECTED'' then
        bindE (upd_host h (\<lambda>k. k\<lparr>h_bReady := True\<rparr>) n) (\<lambda>n.
        bindE (live (host_tab n) h) (\<lambda>k.
        bindE (has_host (h_ip k) (h_port k) n) (\<lambda>known.
        bindE (host_on_open h (if known then n else push_host h n)) broadcast_hosts)))
      else
        bindE (live (host_tab n) h) (\<lambda>k.
        if \<not> h_bReady k then Inr n
        else if str_starts_with s ''Host='' then
          let ss = str_after s ''='' in
          add_host E (str_before ss '':'') (atoi (str_after ss '':'')) n
        else digest_message E h s n))"

text \<open>The lambda of \<open>handle_incoming_connection\<close>, run on each message of a new connection.\<close>

definition incoming_message :: "addr \<Rightarrow> string \<Rightarrow> node \<Rightarrow> node res" where
  "incoming_message sk s n =
     (if str_starts_with s ''ID='' then
        bindE (live (sock_tab n) sk) (\<lambda>so.
        let id = parse_id s; port = parse_port s; ip = localize (s_ip so) in
        bindE (get_host ip port n) (\<lambda>r.
        case r of
          None \<Rightarrow> bindE (Host_incoming ip port sk n) (\<lambda>(h, n). host_send h ''CONNECTED'' n)
        | Some h \<Rightarrow>
            bindE (live (host_tab n) h) (\<lambda>k.
            if id > my_ID n \<or> h_bServer k then
              bindE (case h_socket k of
                       None \<Rightarrow> Inr n
                     | Some old \<Rightarrow> bindE (remove_listeners old n) (sock_close old True)) (\<lambda>n.
              bindE (upd_host h (\<lambda>k. k\<lparr>h_bServer := True\<rparr>) n) (\<lambda>n.
              bindE (setSocket h sk n) (\<lambda>n.
              if h_bReady k then Inr n else host_send h ''CONNECTED'' n)))
            else if id < my_ID n then sock_close sk True n
            else Inr n)))
      else Inr n)"

definition handle_incoming_connection :: "addr \<Rightarrow> node \<Rightarrow> node res" where
  "handle_incoming_connection sk n =
     upd_sock sk (\<lambda>so. so\<lparr>s_bLinebuffer := True, s_cbRecv := RecvIncoming\<rparr>) n"

section \<open>The socket thread and the accept loop (Socket.cpp)\<close>

definition run_open_cb :: "open_cb \<Rightarrow> node \<Rightarrow> node res" where
  "run_open_cb cb n =
     (case cb of OpenNone \<Rightarrow> Inr n | OpenHost h \<Rightarrow> host_welcome h n | OpenSub s \<Rightarrow> sub_on_open s n)"

definition run_recv_cb :: "env \<Rightarrow> addr \<Rightarrow> recv_cb \<Rightarrow> string \<Rightarrow> node \<Rightarrow> node res" where
  "run_recv_cb E sk cb msg n =
     (case cb of
        RecvNone \<Rightarrow> Inr n
      | RecvHost h \<Rightarrow> on_receive E h msg n
      | RecvIncoming \<Rightarrow> incoming_message sk msg n
      | RecvChannel c \<Rightarrow>
          bindE (live (chan_tab n) c) (\<lambda>k.
          Inr (if c_on_message k then emit (DeliverChannel c msg) n else n))
      | RecvSub s \<Rightarrow>
          bindE (live (sub_tab n) s) (\<lambda>k.
          Inr (if sub_on_message k then emit (DeliverSub s msg) n else n)))"

text \<open>
  The lambda the accept loop wraps around \<open>on_close\<close> captures the loop's variable \<open>c\<close> by
  reference; by the time it runs that variable is gone. The lambda of a ClientTCP calls the
  \<open>on_close\<close> of its Client base, a function nobody sets.
\<close>

fun run_close_cb :: "env \<Rightarrow> close_cb \<Rightarrow> node \<Rightarrow> node res" where
  "run_close_cb E CloseNone n = Inr n"
| "run_close_cb E (CloseHost h) n = host_on_close E h n"
| "run_close_cb E (CloseSub s) n = sub_on_close s n"
| "run_close_cb E CloseClientTCP n = Inl (Thrown ''std::bad_function_call'')"
| "run_close_cb E (CloseAccepted v inner) n =
     bindE (run_close_cb E inner n) (\<lambda>_. Inl DanglingCapture)"

text \<open>The thread, connected: clear \<open>bStop\<close>, post the semaphore, run \<open>on_open\<close>.\<close>

definition thread_opened :: "addr \<Rightarrow> node \<Rightarrow> node res" where
  "thread_opened sk n =
     bindE (upd_sock sk (\<lambda>so. so\<lparr>s_bStop := False, s_semConnected := Suc (s_semConnected so)\<rparr>) n) (\<lambda>n.
     bindE (live (sock_tab n) sk) (\<lambda>so. run_open_cb (s_on_open so) n))"

text \<open>The thread, after a successful \<open>recv\<close>; \<open>cbRecv\<close> is looked up anew for every message.\<close>

definition dispatch_event :: "env \<Rightarrow> addr \<Rightarrow> recv_event \<Rightarrow> node \<Rightarrow> node res" where
  "dispatch_event E sk e n =
     (case e of
        RecvTooLong \<Rightarrow> Inr (emit (Dbg ''[tcp-recv] Error'') n)
      | RecvChunk m \<Rightarrow> bindE (live (sock_tab n) sk) (\<lambda>so. run_recv_cb E sk (s_cbRecv so) m n))"

definition thread_received :: "env \<Rightarrow> addr \<Rightarrow> string \<Rightarrow> node \<Rightarrow> node res" where
  "thread_received E sk buf n =
     bindE (live (sock_tab n) sk) (\<lambda>so.
     if s_bLinebuffer so then foldE (dispatch_event E sk) (recv_loop buf 0) n
     else run_recv_cb E sk (s_cbRecv so) buf n)"

text \<open>
  The thread, after the receive loop: close the descriptor, run \<open>on_close\<close>, and connect again when
  the socket is a reconnecting client (the thread's handler swallows a failure of that).
\<close>

definition thread_closed :: "env \<Rightarrow> addr \<Rightarrow> node \<Rightarrow> node res" where
  "thread_closed E sk n =
     bindE (live (sock_tab n) sk) (\<lambda>so.
     bindE (run_close_cb E (s_on_close so) (emit (CloseFd sk) n)) (\<lambda>n.
     bindE (live (sock_tab n) sk) (\<lambda>so.
     Inr (if s_bReconnect so \<and> s_isClient so \<and> resolves E (c_str (s_ip so)) \<and> can_socket E
          then emit (Connect sk (s_ip so) (s_port so)) n else n))))"

definition run_accept_cb :: "accept_cb \<Rightarrow> addr \<Rightarrow> node \<Rightarrow> node res" where
  "run_accept_cb cb sk n =
     (case cb of
        AcceptNone \<Rightarrow> Inr n
      | AcceptSignaling \<Rightarrow> handle_incoming_connection sk n
      | AcceptSubscriptor c h \<Rightarrow> bindE (Subscriptor_tcp c sk h n) (\<lambda>(s, n). Inr n))"

definition server_accept :: "addr \<Rightarrow> string \<Rightarrow> int \<Rightarrow> node \<Rightarrow> node res" where
  "server_accept v ip port n =
     bindE (live (server_tab n) v) (\<lambda>srv.
     case new_TCPSocket_fd ip port n of (sk, n) \<Rightarrow>
       bindE (run_accept_cb (srv_on_open srv) sk n) (\<lambda>n.
       bindE (upd_sock sk (\<lambda>so. so\<lparr>s_on_close := CloseAccepted v (s_on_close so)\<rparr>) n) (\<lambda>n.
       upd_server v (\<lambda>srv. srv\<lparr>srv_connections := srv_connections srv @ [sk]\<rparr>) n)))"

section \<open>The public API (libpubsub.cpp)\<close>

definition publish :: "env \<Rightarrow> string \<Rightarrow> node \<Rightarrow> (addr \<times> node) res" where
  "publish E name n =
     bindE (get_or_create_channel name n) (\<lambda>(c, n).
     bindE (channel_publish E c n) (\<lambda>n. Inr (c, n)))"

definition subscribe :: "env \<Rightarrow> string \<Rightarrow> node \<Rightarrow> (addr \<times> node) res" where
  "subscribe E name n = bindE (get_or_create_channel name n) (\<lambda>(c, n). channel_subscribe E c n)"

section \<open>Events and runs\<close>

datatype event =
    Accept addr string int
  | Opened addr
  | Received addr string
  | Closed addr
  | Publish string
  | Unpublish addr
  | Subscribe string
  | Write addr string
  | WriteOwn addr
  | SubWrite addr string
  | SubWriteOwn addr
  | Alloc addr nat
  | SetOnMessage addr
  | SubSetOnMessage addr
  | AddHost string int

definition handle :: "env \<Rightarrow> event \<Rightarrow> node \<Rightarrow> node res" where
  "handle E e n =
     (case e of
        Accept v ip port \<Rightarrow> server_accept v ip port n
      | Opened sk \<Rightarrow> thread_opened sk n
      | Received sk buf \<Rightarrow> thread_received E sk buf n
      | Closed sk \<Rightarrow> thread_closed E sk n
      | Publish name \<Rightarrow> bindE (publish E name n) (\<lambda>(c, n). Inr n)
      | Unpublish c \<Rightarrow> channel_unpublish E c n
      | Subscribe name \<Rightarrow> bindE (subscribe E name n) (\<lambda>(s, n). Inr n)
      | Write c msg \<Rightarrow> channel_write c msg n
      | WriteOwn c \<Rightarrow> channel_write_dma c n
      | SubWrite s msg \<Rightarrow> sub_write s msg n
      | SubWriteOwn s \<Rightarrow> sub_write_dma s n
      | Alloc c sz \<Rightarrow> channel_alloc E c sz n
      | SetOnMessage c \<Rightarrow> upd_chan c (\<lambda>k. k\<lparr>c_on_message := True\<rparr>) n
      | SubSetOnMessage s \<Rightarrow> upd_sub s (\<lambda>k. k\<lparr>sub_on_message := True\<rparr>) n
      | AddHost ip port \<Rightarrow> add_host E ip port n)"

inductive reachable :: "env \<Rightarrow> node \<Rightarrow> bool" for E where
  start: "init E empty_node = Inr n \<Longrightarrow> reachable E n"
| step: "reachable E n \<Longrightarrow> handle E e n = Inr m \<Longrightarrow> reachable E m"

end
