(* ===== verification/Channel_Props.thy ===== *)
theory Channel_Props
  imports Signaling
begin

text \<open>
  What channels and signaling guarantee: the channel registry as a keyed table, the exact effect of
  choosing a publisher, writing and offering, the directory of publishers as an abstract map that
  the statements implement, and the situations in which the code has no defined behaviour.
\<close>

section \<open>The channel registry\<close>

definition chans_live :: "node \<Rightarrow> bool" where
  "chans_live n \<longleftrightarrow> (\<forall>c\<in>set (channels n). c < next_addr n \<and> chan_tab n c \<noteq> None)"

definition chan_named :: "node \<Rightarrow> string \<Rightarrow> addr \<Rightarrow> bool" where
  "chan_named n name c = (case chan_tab n c of None \<Rightarrow> False | Some k \<Rightarrow> c_name k = name)"

definition chan_find :: "node \<Rightarrow> string \<Rightarrow> addr option" where
  "chan_find n name = List.find (chan_named n name) (channels n)"

lemma get_channel_eq:
  assumes "chans_live n"
  shows "get_channel name n = Inr (chan_find n name)"
proof -
  have "find_channel (chan_tab n) cs name = Inr (List.find (chan_named n name) cs)"
    if "\<forall>c\<in>set cs. chan_tab n c \<noteq> None" for cs
    using that by (induction cs) (auto simp: chan_named_def)
  with assms show ?thesis by (simp add: get_channel_def chan_find_def chans_live_def)
qed

lemma chan_find_SomeD:
  "chan_find n name = Some c \<Longrightarrow> c \<in> set (channels n) \<and> (\<exists>k. chan_tab n c = Some k \<and> c_name k = name)"
  by (auto simp: chan_find_def chan_named_def dest!: find_SomeD split: option.splits)

lemma chan_named_out [simp]: "chan_named (n\<lparr>out := x\<rparr>) = chan_named n"
  by (intro ext) (simp add: chan_named_def)

lemma chan_find_out [simp]: "chan_find (n\<lparr>out := x\<rparr>) = chan_find n"
  by (intro ext) (simp add: chan_find_def)

definition create_channel :: "string \<Rightarrow> node \<Rightarrow> node res" where
  "create_channel name n = bindE (get_or_create_channel name n) (\<lambda>(c, n). Inr n)"

lemma get_or_create_channel_cases:
  "chans_live n \<Longrightarrow> get_or_create_channel name n =
     (case chan_find n name of None \<Rightarrow> Inr (ChannelImpl_ctor name n) | Some c \<Rightarrow> Inr (c, n))"
  by (simp add: get_or_create_channel_def get_channel_eq)

lemma chan_find_ctor:
  assumes "chans_live n" and "ChannelImpl_ctor name n = (c, m)"
  shows "chans_live m \<and> chan_find m x =
    (case chan_find n x of Some d \<Rightarrow> Some d | None \<Rightarrow> if x = name then Some c else None)"
proof -
  have c: "c = next_addr n" and m: "m = n\<lparr>chan_tab := (chan_tab n)(c \<mapsto> new_channel name),
      next_addr := Suc (next_addr n), channels := channels n @ [c]\<rparr>"
    using assms(2) by (auto simp: ChannelImpl_ctor_def)
  have "chan_named m x d = chan_named n x d" if "d \<in> set (channels n)" for d
    using assms(1) that by (auto simp: m c chan_named_def chans_live_def)
  then have "List.find (chan_named m x) (channels n) = chan_find n x"
    unfolding chan_find_def by (intro find_cong_set)
  moreover have "chan_named m x c \<longleftrightarrow> x = name"
    by (auto simp: m chan_named_def new_channel_def)
  moreover have "chan_find m x = (case List.find (chan_named m x) (channels n) of
      Some d \<Rightarrow> Some d | None \<Rightarrow> if chan_named m x c then Some c else None)"
    by (simp add: chan_find_def find_append m split: option.splits)
  ultimately have "chan_find m x =
      (case chan_find n x of Some d \<Rightarrow> Some d | None \<Rightarrow> if x = name then Some c else None)"
    by simp
  moreover have "chans_live m" using assms(1) by (auto simp: m c chans_live_def)
  ultimately show ?thesis by simp
qed

interpretation channel_registry: keyed_registry chan_find create_channel chans_live
proof
  fix n m k k'
  assume live: "chans_live n"
  show present: "create_channel k n = Inr n" if "chan_find n k \<noteq> None"
    using live that by (auto simp: create_channel_def get_or_create_channel_cases)
  assume m: "create_channel k n = Inr m"
  have "chans_live m \<and> chan_find m k \<noteq> None \<and> (k' \<noteq> k \<longrightarrow> chan_find m k' = chan_find n k')" for k'
  proof (cases "chan_find n k")
    case None
    obtain c where "ChannelImpl_ctor k n = (c, m)"
      using m None live by (cases "ChannelImpl_ctor k n")
        (auto simp: create_channel_def get_or_create_channel_cases)
    with chan_find_ctor [OF live this] None show ?thesis by (auto split: option.splits)
  qed (use live present m in auto)
  then show "chans_live m" "chan_find m k \<noteq> None" "k' \<noteq> k \<Longrightarrow> chan_find m k' = chan_find n k'"
    by blast+
qed

text \<open>
  A name keeps its channel: getting or creating it again returns the same object and changes
  nothing, the object carries the name, and no other name is affected.
\<close>

theorem get_or_create_channel_registry:
  assumes "chans_live n" and "get_or_create_channel name n = Inr (c, m)"
  shows "get_or_create_channel name m = Inr (c, m) \<and> chan_named m name c
    \<and> {x. chan_find m x \<noteq> chan_find n x} \<subseteq> {name}"
proof -
  have m: "create_channel name n = Inr m" using assms(2) by (simp add: create_channel_def)
  have live: "chans_live m" using assms(1) m by (rule channel_registry.add_inv)
  have "chan_find m name = Some c"
  proof (cases "chan_find n name")
    case None
    with assms show ?thesis
      using chan_find_ctor [OF assms(1), of name c m]
      by (auto simp: get_or_create_channel_cases)
  qed (use assms in \<open>auto simp: get_or_create_channel_cases\<close>)
  then show ?thesis
    using live channel_registry.add_other [OF assms(1) m] chan_find_SomeD [of m name c]
    by (auto simp: get_or_create_channel_cases chan_named_def)
qed

section \<open>Choosing a publisher\<close>

lemma setPublisher_no_subs:
  assumes "chan_tab n c = Some k" and "c_subscriptions k = []"
  shows "setPublisher E c p n =
    Inr (n\<lparr>chan_tab := (chan_tab n)(c \<mapsto> k\<lparr>c_publisher := p, c_offeredPort := 0\<rparr>)\<rparr>)"
  using assms by (simp add: setPublisher_def channel_disconnect_def)

text \<open>Closing a subscription takes it out of its channel's vector, so the loop cannot go on.\<close>

lemma Subscription_dtor_removes:
  assumes "Subscription_dtor s n = Inr m" and "sub_tab n s = Some k"
  shows "\<exists>c. chan_tab m (sub_channel k) = Some c \<and> s \<notin> set (c_subscriptions c)"
  using assms by (auto simp: Subscription_dtor_def upd_Inr_iff split: if_splits)

lemma remove_listeners_subs: "remove_listeners sk n = Inr m \<Longrightarrow> sub_tab m = sub_tab n"
  by (auto simp: remove_listeners_def upd_Inr_iff)

lemma sub_on_close_removes:
  assumes "sub_on_close s n = Inr m" and "sub_tab n s = Some k"
  shows "\<exists>c. chan_tab m (sub_channel k) = Some c \<and> s \<notin> set (c_subscriptions c)"
proof -
  obtain u sk v where u: "upd_sub s (\<lambda>k. k\<lparr>sub_bConnected := False, sub_shm := None\<rparr>)
        (if sub_shm k = None then n else emit (ShmFree s) n) = Inr u"
    and v: "remove_listeners sk u = Inr v" "Subscription_dtor s v = Inr m"
    using assms by (auto simp: sub_on_close_def)
  have "sub_tab u s = Some (k\<lparr>sub_bConnected := False, sub_shm := None\<rparr>)"
    using u assms(2) by (auto simp: upd_Inr_iff split: if_splits)
  then have "sub_tab v s = Some (k\<lparr>sub_bConnected := False, sub_shm := None\<rparr>)"
    using remove_listeners_subs [OF v(1)] by simp
  from Subscription_dtor_removes [OF v(2) this] show ?thesis by simp
qed

lemma sub_close_removes:
  assumes "sub_close s n = Inr m" and "sub_tab n s = Some k"
  shows "\<exists>c. chan_tab m (sub_channel k) = Some c \<and> s \<notin> set (c_subscriptions c)"
proof -
  obtain u where u: "(if sub_transport k = TRANSPORT_TCP
            then bindE (deref (sub_socket k)) (\<lambda>sk.
                 bindE (remove_listeners sk n) (sock_close sk False))
            else Inr n) = Inr u" "sub_on_close s u = Inr m"
    using assms by (auto simp: sub_close_def)
  then have "sub_tab u = sub_tab n"
    by (auto simp: sock_close_def upd_Inr_iff split: if_splits dest!: remove_listeners_subs)
  with u(2) assms(2) show ?thesis by (auto dest: sub_on_close_removes)
qed


text \<open>
  When the publisher of a channel changes or goes away while a TCP subscription is still
  pending (no socket yet), the process dereferences a null pointer.
\<close>

theorem lost_publisher_pending_subscription:
  assumes "chan_tab n c = Some k" and "c_publisher k = Some p" and "q \<noteq> Some p"
    and "c_subscriptions k = s # ss" and "sub_tab n s = Some sk"
    and "sub_transport sk = TRANSPORT_TCP" and "sub_socket sk = None"
  shows "setPublisher E c q n = Inl NullDeref"
  using assms by (simp add: setPublisher_def channel_disconnect_def sub_close_def)

text \<open>
  Closing a subscription that uses shared memory dereferences its null socket pointer.
\<close>

theorem close_shm_subscription_null_socket:
  assumes "sub_tab n s = Some k" and "sub_transport k = TRANSPORT_SHM" and "sub_socket k = None"
  shows "sub_close s n = Inl NullDeref"
  using assms by (auto simp: sub_close_def sub_on_close_def upd_sub_def)

section \<open>The directory of publishers\<close>

text \<open>
  The abstract view of a process that only relays or publishes: a map from channel names to the
  host that publishes them. A statement is an update of that map.
\<close>

definition directory :: "node \<Rightarrow> string \<Rightarrow> addr option" where
  "directory n name = Option.bind (chan_find n name) (\<lambda>c. Option.bind (chan_tab n c) c_publisher)"

datatype statement = Announce addr string string | Withdraw string string | Gone addr

fun spec_statement :: "statement \<Rightarrow> (string \<Rightarrow> addr option) \<Rightarrow> (string \<Rightarrow> addr option)" where
  "spec_statement (Announce h name opts) d = d(name := Some h)"
| "spec_statement (Withdraw name opts) d = d(name := None)"
| "spec_statement (Gone h) d = (\<lambda>name. if d name = Some h then None else d name)"

fun run_statement :: "env \<Rightarrow> statement \<Rightarrow> node \<Rightarrow> node res" where
  "run_statement E (Announce h name opts) n = digest_message E h (''PUBLISH=P'' @ name @ ''|'' @ opts) n"
| "run_statement E (Withdraw name opts) n = digest_message E 0 (''UNPUBLISH=N'' @ name @ ''|'' @ opts) n"
| "run_statement E (Gone h) n = on_host_close E h n"

fun statement_ok :: "statement \<Rightarrow> bool" where
  "statement_ok (Announce h name opts) = (CHR ''|'' \<notin> set name)"
| "statement_ok (Withdraw name opts) = (CHR ''|'' \<notin> set name)"
| "statement_ok (Gone h) = True"

text \<open>No local subscription, every channel registered under its own name.\<close>

definition relay :: "node \<Rightarrow> bool" where
  "relay n \<longleftrightarrow> chans_live n
     \<and> (\<forall>c\<in>set (channels n). \<forall>k. chan_tab n c = Some k \<longrightarrow>
           c_subscriptions k = [] \<and> chan_find n (c_name k) = Some c)"

lemma relay_ctor:
  assumes "relay n" and "chan_find n name = None" and "ChannelImpl_ctor name n = (c, m)"
  shows "relay m \<and> directory m = directory n \<and> chan_find m name = Some c
    \<and> chan_tab m c = Some (new_channel name)"
proof -
  have live: "chans_live n" using assms(1) by (simp add: relay_def)
  note f = chan_find_ctor [OF live assms(3)]
  have c: "c = next_addr n" and m: "m = n\<lparr>chan_tab := (chan_tab n)(c \<mapsto> new_channel name),
      next_addr := Suc (next_addr n), channels := channels n @ [c]\<rparr>"
    using assms(3) by (auto simp: ChannelImpl_ctor_def)
  have fresh: "d \<in> set (channels n) \<Longrightarrow> d \<noteq> c" for d
    using live by (auto simp: c chans_live_def)
  have "directory m x = directory n x" for x
    using f assms(2) fresh
    by (auto simp: directory_def m new_channel_def dest: chan_find_SomeD split: option.splits)
  moreover have "relay m"
    using assms(1) f fresh assms(2) unfolding relay_def
    by (auto simp: m new_channel_def)
  ultimately show ?thesis using f assms(2) by (auto simp: m fun_eq_iff)
qed

lemma chan_find_update:
  assumes "chan_tab n c = Some k" and "c_name k' = c_name k"
  shows "chan_find (n\<lparr>chan_tab := (chan_tab n)(c \<mapsto> k')\<rparr>) = chan_find n"
proof -
  have "chan_named (n\<lparr>chan_tab := (chan_tab n)(c \<mapsto> k')\<rparr>) = chan_named n"
    using assms by (auto simp: fun_eq_iff chan_named_def)
  then show ?thesis by (intro ext) (simp add: chan_find_def)
qed

lemma relay_setPublisher:
  assumes "relay n" and "c \<in> set (channels n)" and "chan_tab n c = Some k"
  shows "\<exists>m. setPublisher E c p n = Inr m \<and> relay m \<and> channels m = channels n
    \<and> chan_find m = chan_find n \<and> directory m = (directory n)(c_name k := p)"
proof -
  let ?k = "k\<lparr>c_publisher := p, c_offeredPort := 0\<rparr>"
  let ?m = "n\<lparr>chan_tab := (chan_tab n)(c \<mapsto> ?k)\<rparr>"
  have k: "c_subscriptions k = []" "chan_find n (c_name k) = Some c"
    using assms by (auto simp: relay_def)
  have f: "chan_find ?m = chan_find n" by (rule chan_find_update [OF assms(3)]) simp
  have "directory ?m x = ((directory n)(c_name k := p)) x" for x
  proof (cases "x = c_name k")
    case True
    with k(2) show ?thesis by (simp add: directory_def f)
  next
    case False
    then have "chan_find n x \<noteq> Some c" using chan_find_SomeD [of n x c] assms(3) by auto
    with False show ?thesis by (cases "chan_find n x") (simp_all add: directory_def f)
  qed
  moreover have "relay ?m" using assms k unfolding relay_def f by (auto simp: chans_live_def)
  ultimately show ?thesis
    using setPublisher_no_subs [OF assms(3) k(1), of E p] f by (auto simp: fun_eq_iff)
qed

lemma relay_get_or_create:
  assumes "relay n"
  shows "\<exists>c m k. get_or_create_channel name n = Inr (c, m) \<and> relay m \<and> directory m = directory n
    \<and> c \<in> set (channels m) \<and> chan_tab m c = Some k \<and> c_name k = name"
proof -
  have live: "chans_live n" using assms by (simp add: relay_def)
  show ?thesis
  proof (cases "chan_find n name")
    case None
    obtain c m where ctor: "ChannelImpl_ctor name n = (c, m)" by fastforce
    with relay_ctor [OF assms None ctor] show ?thesis
      using None live chan_find_SomeD [of m name c]
      by (auto simp: get_or_create_channel_cases new_channel_def)
  next
    case (Some c)
    with chan_find_SomeD [OF Some] assms live show ?thesis
      by (auto simp: get_or_create_channel_cases)
  qed
qed

lemma statement_body:
  "CHR ''|'' \<notin> set name \<Longrightarrow> str_before (name @ CHR ''|'' # opts) ''|'' = name"
  by simp

lemma relay_gone_loop:
  assumes "relay n" and "set cs \<subseteq> set (channels n)"
  shows "\<exists>m. foldE (\<lambda>c n. bindE (live (chan_tab n) c) (\<lambda>k.
              if c_publisher k = Some h then setPublisher E c None n else Inr n)) cs n = Inr m
    \<and> relay m \<and> channels m = channels n \<and> chan_find m = chan_find n
    \<and> directory m = (\<lambda>x. if directory n x = Some h \<and> (\<exists>c\<in>set cs. chan_find n x = Some c)
                          then None else directory n x)"
  using assms
proof (induction cs arbitrary: n)
  case (Cons c cs)
  have c: "c \<in> set (channels n)" using Cons.prems(2) by simp
  then obtain k where k: "chan_tab n c = Some k"
    using Cons.prems(1) by (auto simp: relay_def chans_live_def)
  have find: "chan_find n (c_name k) = Some c" using Cons.prems(1) c k by (auto simp: relay_def)
  have dir: "directory n (c_name k) = c_publisher k" using find k by (simp add: directory_def)
  have name: "chan_find n x = Some c \<longleftrightarrow> x = c_name k" for x
    using find chan_find_SomeD [of n x c] k by auto
  show ?case
  proof (cases "c_publisher k = Some h")
    case True
    obtain u where u: "setPublisher E c None n = Inr u" "relay u" "channels u = channels n"
        "chan_find u = chan_find n" "directory u = (directory n)(c_name k := None)"
      using relay_setPublisher [OF Cons.prems(1) c k, of E None] by blast
    have "set cs \<subseteq> set (channels u)" using u(3) Cons.prems(2) by simp
    from Cons.IH [OF u(2) this] show ?thesis
      using u k True dir name by (auto simp: fun_eq_iff)
  next
    case False
    then show ?thesis
      using Cons.IH [OF Cons.prems(1)] Cons.prems(2) k dir name by (auto simp: fun_eq_iff)
  qed
qed simp

text \<open>
  One statement: the code, run on the concrete registry, does to the directory what the abstract
  update says.
\<close>

lemma run_statement_refines:
  assumes "relay n" and "statement_ok st"
  shows "\<exists>m. run_statement E st n = Inr m \<and> relay m \<and> directory m = spec_statement st (directory n)"
proof (cases st)
  case (Announce h name opts)
  obtain c u k where u: "get_or_create_channel name n = Inr (c, u)" "relay u"
      "directory u = directory n" "c \<in> set (channels u)" "chan_tab u c = Some k" "c_name k = name"
    using relay_get_or_create [OF assms(1)] by blast
  have "run_statement E st n = setPublisher E c (Some h) u"
    using Announce assms(2) u(1) digest_PUBLISH [of E h "CHR ''P'' # name @ CHR ''|'' # opts" n]
    by (simp add: apply_publish_statement_def split_statement_def)
  then show ?thesis
    using relay_setPublisher [OF u(2,4,5), of E "Some h"] u Announce by auto
next
  case (Withdraw name opts)
  have live: "chans_live n" using assms(1) by (simp add: relay_def)
  have run: "run_statement E st n = (case chan_find n name of None \<Rightarrow> Inr n
      | Some c \<Rightarrow> setPublisher E c None n)"
    using Withdraw assms(2) digest_UNPUBLISH [of E 0 "CHR ''N'' # name @ CHR ''|'' # opts" n]
    by (simp add: apply_unpublish_statement_def split_statement_def get_channel_eq [OF live])
  show ?thesis
  proof (cases "chan_find n name")
    case None
    then show ?thesis using run assms(1) Withdraw by (auto simp: directory_def fun_eq_iff)
  next
    case (Some c)
    with chan_find_SomeD [OF Some] relay_setPublisher [OF assms(1), of c] run Withdraw
    show ?thesis by fastforce
  qed
next
  case (Gone h)
  have "directory n x = Some h \<Longrightarrow> \<exists>c\<in>set (channels n). chan_find n x = Some c" for x
    by (auto simp: directory_def bind_eq_Some_conv dest: chan_find_SomeD)
  then show ?thesis
    using relay_gone_loop [where E = E and h = h, OF assms(1) subset_refl] Gone
    by (auto simp: on_host_close_def close_all_channels_def fun_eq_iff)
qed


end
