(* ===== verification/Negotiation.thy ===== *)
theory Negotiation
  imports Handlers Channel_Props
begin

text \<open>
  Signaling between two processes: what one sends is what the other acts on. A ready link delivers
  each framed statement to the dispatcher; an announcement reaches the directories of the peers; a
  subscription request, the offer and the connection fit together. Also the requests that do not
  fit: the shared memory ones are never recognised, and some statements crash the receiver.
\<close>

section \<open>A framed stream is dispatched message by message\<close>

lemma recv_loop_frames:
  assumes "drop i buf = concat (map frame ms)" and "\<forall>m\<in>set ms. wire_ok m"
  shows "recv_loop buf i = map RecvChunk ms"
  using assms
proof (induction ms arbitrary: i)
  case Nil
  then show ?case by (subst recv_loop.simps) simp
next
  case (Cons m ms)
  have m: "wire_ok m" using Cons.prems(2) by simp
  then have d: "drop i buf = m @ NUL # concat (map frame ms)" using Cons.prems(1) by simp
  then have "drop (length m + 1) (drop i buf) = concat (map frame ms)" by simp
  then have "recv_loop buf (i + Suc (length m)) = map RecvChunk ms"
    using Cons.prems(2) by (intro Cons.IH) (simp_all add: add.commute)
  moreover have "m \<noteq> []" using m by (simp add: wire_ok_def)
  moreover have "\<forall>c\<in>set m. \<not> is_delim c" using wire_ok_no_delim [OF m] by blast
  ultimately show ?case using recv_loop_nth_delim [OF d] by (simp add: is_delim_def)
qed

lemma recv_loop_frame: "wire_ok m \<Longrightarrow> recv_loop (frame m) 0 = [RecvChunk m]"
  using recv_loop_frames [of 0 "frame m" "[m]"] by simp

text \<open>A ready host with a running line-buffered socket that reports to it.\<close>

definition linked :: "node \<Rightarrow> addr \<Rightarrow> addr \<Rightarrow> bool" where
  "linked n h sk \<longleftrightarrow>
     (case host_tab n h of None \<Rightarrow> False | Some k \<Rightarrow>
      case sock_tab n sk of None \<Rightarrow> False | Some so \<Rightarrow>
        h_bReady k \<and> h_socket k = Some sk \<and> \<not> s_bStop so \<and> s_bLinebuffer so
        \<and> s_cbRecv so = RecvHost h)"

lemma linkedE:
  assumes "linked n h sk"
  obtains k so where "host_tab n h = Some k" "sock_tab n sk = Some so" "h_bReady k"
    "h_socket k = Some sk" "\<not> s_bStop so" "s_bLinebuffer so" "s_cbRecv so = RecvHost h"
  using assms by (auto simp: linked_def split: option.splits)

definition signaling_message :: "string \<Rightarrow> bool" where
  "signaling_message s \<longleftrightarrow> \<not> str_starts_with s ''ID='' \<and> \<not> str_starts_with s ''YOU=''
     \<and> \<not> str_starts_with s ''Host='' \<and> s \<noteq> ''CONNECTED''"

lemma linked_dispatch:
  assumes "linked n h sk" and "signaling_message s"
  shows "dispatch_event E sk (RecvChunk s) n = digest_message E h s n"
  using assms(1)
proof (rule linkedE)
  fix k so
  assume "host_tab n h = Some k" "sock_tab n sk = Some so" "h_bReady k" "s_cbRecv so = RecvHost h"
  with assms(2) show ?thesis
    by (simp add: dispatch_event_def run_recv_cb_def on_receive_def signaling_message_def)
qed

lemma linked_delivers:
  assumes "linked n h sk" and "wire_ok s" and "signaling_message s"
  shows "thread_received E sk (frame s) n = digest_message E h s n"
proof -
  obtain so where "sock_tab n sk = Some so" "s_bLinebuffer so" using assms(1) by (rule linkedE)
  then show ?thesis
    using linked_dispatch [OF assms(1,3)] by (simp add: thread_received_def recv_loop_frame [OF assms(2)])
qed

lemma linked_send:
  assumes "linked n h sk"
  shows "host_send h s n = Inr (n\<lparr>out := out n @ [Send sk (frame s)]\<rparr>)"
  using assms by (rule linkedE) (simp add: host_send_def sock_write_def sock_write_buf_def)

lemma linked_frame [simp]:
  "linked (n\<lparr>out := x\<rparr>) = linked n" "linked (n\<lparr>chan_tab := t\<rparr>) = linked n"
  "linked (n\<lparr>server_tab := v\<rparr>) = linked n" "linked (n\<lparr>next_addr := a\<rparr>) = linked n"
  by (auto simp: linked_def fun_eq_iff split: option.splits)

lemma linked_same: "host_tab m h = host_tab n h \<Longrightarrow> sock_tab m s = sock_tab n s \<Longrightarrow> linked m h s = linked n h s"
  by (simp only: linked_def)

text \<open>A channel name that survives the statement syntax.\<close>

definition name_ok :: "string \<Rightarrow> bool" where
  "name_ok name \<longleftrightarrow> CHR ''|'' \<notin> set name \<and> NUL \<notin> set name \<and> NL \<notin> set name"

lemma wire_ok_messages [simp]:
  "name_ok name \<Longrightarrow> wire_ok (connect_tcp_message name)"
  "name_ok name \<Longrightarrow> wire_ok (offer_tcp_message name port)"
  by (auto simp: name_ok_def wire_ok_def connect_tcp_message_def offer_tcp_message_def NUL_def NL_def)

lemma signaling_messages [simp]:
  "signaling_message (connect_tcp_message name)" "signaling_message (offer_tcp_message name port)"
  "signaling_message (''PUBLISH='' @ b)" "signaling_message (''UNPUBLISH='' @ b)"
  by (simp_all add: signaling_message_def connect_tcp_message_def offer_tcp_message_def)

section \<open>Announcements\<close>

lemma getType_self:
  "chan_tab n c = Some k \<Longrightarrow> me n = Inr m \<Longrightarrow> c_publisher k = Some m \<Longrightarrow> getType c n = Inr (CHR ''P'')"
  by (simp add: getType_def)

definition publish_message :: "string \<Rightarrow> host \<Rightarrow> string" where
  "publish_message name k = ''PUBLISH=P'' @ name @ ''|'' @ host_tostring k"

lemma mesh_wf_chan_tab [simp]:
  "chan_tab n c \<noteq> None \<Longrightarrow> mesh_wf (n\<lparr>chan_tab := (chan_tab n)(c \<mapsto> k)\<rparr>) = mesh_wf n"
  by (auto simp: mesh_wf_defs)

lemma setPublisher_me:
  assumes "chan_tab n c = Some k" and "me n = Inr m"
    and "c_publisher k = None \<or> c_subscriptions k = []"
  shows "setPublisher E c (Some m) n =
    Inr (n\<lparr>chan_tab := (chan_tab n)(c \<mapsto> k\<lparr>c_publisher := Some m, c_offeredPort := 0\<rparr>)\<rparr>)"
  using assms
  by (auto simp: setPublisher_def channel_disconnect_def channel_connect_def me_def)

text \<open>
  Publishing a channel makes this process its publisher and sends exactly one announcement,
  with the name and the own address, to the ready hosts; publishing again does nothing.
\<close>

theorem publish_announces:
  assumes "mesh_wf n" and "chan_tab n c = Some k"
    and "c_publisher k = None \<or> c_subscriptions k = []"
    and "c_publisher k \<noteq> Some (hd (hosts n))" and "host_tab n (hd (hosts n)) = Some mk"
  shows "\<exists>m. channel_publish E c n = Inr m \<and> channel_publish E c m = Inr m
    \<and> chan_tab m = (chan_tab n)(c \<mapsto> k\<lparr>c_publisher := Some (hd (hosts n)), c_offeredPort := 0\<rparr>)
    \<and> out m = out n @ broadcast_sends n (publish_message (c_name k) mk)"
proof -
  let ?k = "k\<lparr>c_publisher := Some (hd (hosts n)), c_offeredPort := 0\<rparr>"
  let ?u = "n\<lparr>chan_tab := (chan_tab n)(c \<mapsto> ?k)\<rparr>"
  have me: "me n = Inr (hd (hosts n))" "me ?u = Inr (hd (hosts n))"
    using assms(1) mesh_wf_me [of n] by (simp_all add: me_def)
  have set: "setPublisher E c (Some (hd (hosts n))) n = Inr ?u"
    using assms(2,3) me(1) by (intro setPublisher_me)
  have str: "channel_tostring c ?u = Inr ([CHR ''P''] @ c_name k @ ''|'' @ host_tostring mk)"
    using me(2) assms(5) by (simp add: channel_tostring_def getType_def)
  have wf: "mesh_wf ?u" using assms(1,2) by simp
  let ?m = "?u\<lparr>out := out n @ broadcast_sends n (publish_message (c_name k) mk)\<rparr>"
  have pub: "channel_publish E c n = Inr ?m"
    using broadcast_result [OF wf, of "publish_message (c_name k) mk"] assms(2,4) me set str
    by (simp add: channel_publish_def publish_message_def)
  have "me ?m = Inr (hd (hosts n))" using me(1) by (simp add: me_def)
  then have "channel_publish E c ?m = Inr ?m" by (simp add: channel_publish_def)
  with pub show ?thesis by auto
qed

text \<open>
  A peer without local subscriptions that receives the announcement on a ready link records
  the announcing host as the publisher of exactly that name.
\<close>

theorem announcement_updates_peer:
  assumes "relay n" and "linked n h sk" and "name_ok (c_name k)"
    and "NUL \<notin> set (h_ip mk) \<and> NL \<notin> set (h_ip mk)"
  shows "\<exists>m. thread_received E sk (frame (publish_message (c_name k) mk)) n = Inr m
    \<and> directory m = (directory n)(c_name k := Some h)"
proof -
  let ?msg = "publish_message (c_name k) mk"
  have "wire_ok ?msg"
    using assms(3,4)
    by (auto simp: publish_message_def host_tostring_def wire_ok_def name_ok_def NUL_def NL_def)
  moreover have "signaling_message ?msg" by (simp add: publish_message_def signaling_message_def)
  ultimately have "thread_received E sk (frame ?msg) n =
      run_statement E (Announce h (c_name k) (host_tostring mk)) n"
    using linked_delivers [OF assms(2), of ?msg E]
    by (simp only: run_statement.simps publish_message_def)
  then show ?thesis
    using run_statement_refines [OF assms(1), of "Announce h (c_name k) (host_tostring mk)" E]
      assms(3) by (auto simp: name_ok_def)
qed

section \<open>Statements that do not fit\<close>

text \<open>
  The requests and offers for shared memory are sent without the equals sign the dispatcher
  looks for, so the receiver ignores them.
\<close>

theorem shm_requests_ignored:
  assumes "\<not> str_starts_with name ''=''"
  shows "digest_message E h (connect_shm_message name) n = Inr n
    \<and> digest_message E h (offer_shm_message name path sz) n = Inr n"
proof -
  have "\<not> str_starts_with (name @ rest) ''=''" if "name \<noteq> []" for rest
    using assms that by (cases name) auto
  then show ?thesis
    using assms
    by (cases "name = []")
       (auto simp: digest_message_def connect_shm_message_def offer_shm_message_def)
qed

text \<open>A PUBLISH or UNPUBLISH statement with an empty body throws in the receiver.\<close>

theorem empty_statement_throws:
  "digest_message E h ''PUBLISH='' n = Inl (Thrown ''std::out_of_range'')
   \<and> digest_message E h ''UNPUBLISH='' n = Inl (Thrown ''std::out_of_range'')"
  using digest_PUBLISH [of E h "[]" n] digest_UNPUBLISH [of E h "[]" n]
  by (simp add: apply_publish_statement_def apply_unpublish_statement_def split_statement_def)

text \<open>
  An offer for a channel whose publisher is unknown makes the receiver dereference a null
  pointer, be it that the port reads as zero or that a local subscription waits for it.
\<close>

theorem unsolicited_offer_null_publisher:
  assumes "get_channel name n = Inr (Some c)" and "chan_tab n c = Some k"
    and "c_publisher k = None" and "CHR ''|'' \<notin> set name"
  shows "digest_message E h (''OFFER_TCP='' @ name @ ''|0'') n = Inl NullDeref"
proof -
  have "str_before (name @ ''|0'') ''|'' = name" "str_after (name @ ''|0'') ''|'' = ''0''"
    using assms(4) by simp_all
  moreover have "atoi ''0'' = 0" by code_simp
  ultimately show ?thesis
    using assms
    by (simp add: answer_offer_tcp_def on_offer_tcp_def channel_connect_tcp_def)
qed

section \<open>The TCP negotiation\<close>

text \<open>A subscription that has started to connect: its socket reports to it and is dialling.\<close>

definition dialling :: "node \<Rightarrow> addr \<Rightarrow> string \<Rightarrow> int \<Rightarrow> bool" where
  "dialling n s ip port \<longleftrightarrow>
     (case sub_tab n s of None \<Rightarrow> False | Some k \<Rightarrow>
      case sub_socket k of None \<Rightarrow> False | Some sk \<Rightarrow>
      case sock_tab n sk of None \<Rightarrow> False | Some so \<Rightarrow>
        sk < next_addr n \<and> \<not> sub_bConnected k \<and> sub_transport k = TRANSPORT_TCP
        \<and> s_on_open so = OpenSub s \<and> s_cbRecv so = RecvSub s \<and> s_isClient so
        \<and> \<not> s_bLinebuffer so \<and> Connect sk ip port \<in> set (out n))"

definition dialling_sock :: "addr \<Rightarrow> string \<Rightarrow> int \<Rightarrow> socket" where
  "dialling_sock s ip port = TCPSocket_default\<lparr>s_ip := ip, s_port := port,
     s_on_open := OpenSub s, s_on_close := CloseSub s, s_cbRecv := RecvSub s\<rparr>"

lemma sub_connect_tcp_result:
  assumes "sub_tab n s = Some k" and "\<not> sub_bConnected k" and "chan_tab n (sub_channel k) = Some c"
    and "c_publisher c = Some p" and "host_tab n p = Some ph"
    and "resolves E (c_str (h_ip ph))" and "can_socket E"
  shows "sub_connect_tcp E s n = Inr (n\<lparr>
     sock_tab := (sock_tab n)(next_addr n \<mapsto> dialling_sock s (c_str (h_ip ph)) (c_offeredPort c)),
     next_addr := Suc (next_addr n),
     sub_tab := (sub_tab n)(s \<mapsto> k\<lparr>sub_bConnected := False, sub_socket := Some (next_addr n),
                                        sub_transport := TRANSPORT_TCP\<rparr>),
     out := out n @ [Connect (next_addr n) (c_str (h_ip ph)) (c_offeredPort c)]\<rparr>)"
  using assms
  by (cases n) (simp add: sub_connect_tcp_def new_TCPSocket_def sock_connect_def dialling_sock_def
      TCPSocket_default_def)

definition pending_sub :: "node \<Rightarrow> addr \<Rightarrow> addr \<Rightarrow> bool" where
  "pending_sub n c s \<longleftrightarrow>
     (case sub_tab n s of None \<Rightarrow> False | Some k \<Rightarrow> \<not> sub_bConnected k \<and> sub_channel k = c)"

lemma pending_sub_out [simp]: "pending_sub (n\<lparr>out := x\<rparr>) = pending_sub n"
  by (intro ext) (simp add: pending_sub_def)

lemma connect_all_subs:
  assumes "distinct ss" and "\<forall>s\<in>set ss. pending_sub n c s" and "chan_tab n c = Some k"
    and "c_publisher k = Some p" and "host_tab n p = Some ph"
    and "resolves E (c_str (h_ip ph))" and "can_socket E"
  shows "\<exists>m. foldE (sub_connect_tcp E) ss n = Inr m
    \<and> (\<forall>s. s \<in> set ss \<or> dialling n s (c_str (h_ip ph)) (c_offeredPort k)
            \<longrightarrow> dialling m s (c_str (h_ip ph)) (c_offeredPort k))"
  using assms
proof (induction ss arbitrary: n)
  case (Cons s ss)
  obtain sk where sk: "sub_tab n s = Some sk" "\<not> sub_bConnected sk" "sub_channel sk = c"
    using Cons.prems(2) by (auto simp: pending_sub_def split: option.splits)
  let ?m = "n\<lparr>
     sock_tab := (sock_tab n)(next_addr n \<mapsto> dialling_sock s (c_str (h_ip ph)) (c_offeredPort k)),
     next_addr := Suc (next_addr n),
     sub_tab := (sub_tab n)(s \<mapsto> sk\<lparr>sub_bConnected := False, sub_socket := Some (next_addr n),
                                        sub_transport := TRANSPORT_TCP\<rparr>),
     out := out n @ [Connect (next_addr n) (c_str (h_ip ph)) (c_offeredPort k)]\<rparr>"
  have step: "sub_connect_tcp E s n = Inr ?m"
    using sk Cons.prems by (intro sub_connect_tcp_result) auto
  have here: "dialling ?m s (c_str (h_ip ph)) (c_offeredPort k)"
    using sk by (simp add: dialling_def dialling_sock_def TCPSocket_default_def)
  have keep: "dialling ?m x (c_str (h_ip ph)) (c_offeredPort k)"
    if "dialling n x (c_str (h_ip ph)) (c_offeredPort k)" for x
    using that here by (cases "x = s") (auto simp: dialling_def split: option.splits)
  have "\<forall>x\<in>set ss. pending_sub ?m c x"
    using Cons.prems(1,2) by (auto simp: pending_sub_def split: option.splits)
  then have "\<exists>m. foldE (sub_connect_tcp E) ss ?m = Inr m
    \<and> (\<forall>s. s \<in> set ss \<or> dialling ?m s (c_str (h_ip ph)) (c_offeredPort k)
            \<longrightarrow> dialling m s (c_str (h_ip ph)) (c_offeredPort k))"
    using Cons.prems by (intro Cons.IH) auto
  with step here keep show ?case by auto
qed simp

text \<open>
  The subscriber: its channel knows a remote publisher it has a ready link to, no port was offered
  yet, and its subscriptions are pending. The publisher: it has the channel and a ready link back,
  and either serves it already or finds a free port.
\<close>

definition waiting_subscriber :: "env \<Rightarrow> node \<Rightarrow> addr \<Rightarrow> addr \<Rightarrow> addr \<Rightarrow> string \<Rightarrow> bool" where
  "waiting_subscriber E n h sk c name \<longleftrightarrow>
     linked n h sk \<and> chans_live n \<and> chan_find n name = Some c \<and> is_local h n = Inr False
     \<and> me n \<noteq> Inr h \<and> me n \<noteq> Inl OutOfBounds \<and> can_socket E
     \<and> (case host_tab n h of None \<Rightarrow> False | Some k \<Rightarrow> resolves E (c_str (h_ip k)))
     \<and> (case chan_tab n c of None \<Rightarrow> False | Some k \<Rightarrow>
           c_publisher k = Some h \<and> c_offeredPort k = 0 \<and> c_subscriptions k \<noteq> []
           \<and> distinct (c_subscriptions k) \<and> list_all (pending_sub n c) (c_subscriptions k))"

definition serves :: "node \<Rightarrow> addr \<Rightarrow> int \<Rightarrow> bool" where
  "serves n c port \<longleftrightarrow>
     (case chan_tab n c of None \<Rightarrow> False | Some k \<Rightarrow>
      case c_server k of None \<Rightarrow> False | Some v \<Rightarrow>
      case server_tab n v of None \<Rightarrow> False | Some sv \<Rightarrow> srv_port sv = port)"

definition ready_publisher :: "env \<Rightarrow> node \<Rightarrow> addr \<Rightarrow> addr \<Rightarrow> addr \<Rightarrow> string \<Rightarrow> int \<Rightarrow> bool" where
  "ready_publisher E n h sk c name port \<longleftrightarrow>
     linked n h sk \<and> chans_live n \<and> chan_find n name = Some c \<and> int32 port \<and> port \<noteq> 0
     \<and> (case chan_tab n c of None \<Rightarrow> False | Some k \<Rightarrow>
         case c_server k of None \<Rightarrow> scan_ports E 10000 20000 = Inr port | Some _ \<Rightarrow> serves n c port)"

lemma subscriber_requests:
  assumes "waiting_subscriber E n h sk c name"
  shows "channel_connect E c n =
    Inr (n\<lparr>out := out n @ [Send sk (frame (connect_tcp_message name))]\<rparr>)"
proof -
  obtain k where k: "chan_tab n c = Some k" "c_publisher k = Some h" "c_offeredPort k = 0"
      "c_subscriptions k \<noteq> []" and l: "linked n h sk" "is_local h n = Inr False"
    using assms by (auto simp: waiting_subscriber_def split: option.splits)
  obtain m where m: "me n = Inr m" "m \<noteq> h"
    using assms by (cases "hosts n") (auto simp: waiting_subscriber_def me_def)
  have "c_name k = name" using assms k chan_find_SomeD [of n name c]
    by (auto simp: waiting_subscriber_def)
  with k l m linked_send [OF l(1)] show ?thesis
    by (simp add: channel_connect_def channel_connect_tcp_def)
qed

text \<open>The publisher, when it has opened the server of a channel and offered its port.\<close>

definition offered :: "addr \<Rightarrow> addr \<Rightarrow> addr \<Rightarrow> string \<Rightarrow> int \<Rightarrow> channel \<Rightarrow> node \<Rightarrow> node" where
  "offered c h sk name port k n = n\<lparr>next_addr := Suc (next_addr n),
     chan_tab := (chan_tab n)(c \<mapsto> k\<lparr>c_server := Some (next_addr n)\<rparr>),
     server_tab := (server_tab n)(next_addr n \<mapsto> \<lparr>srv_port = port, srv_bStop = False, srv_connections = [],
       srv_on_open = AcceptSubscriptor c h\<rparr>),
     out := out n @ [Listen (next_addr n) port, Send sk (frame (offer_tcp_message name port))]\<rparr>"

lemma request_received:
  assumes "linked n h sk" and "chans_live n" and "chan_find n name = Some c" and "chan_tab n c = Some k"
    and "c_server k = None" and "name_ok name" and "scan_ports E 10000 20000 = Inr port"
  shows "thread_received E sk (frame (connect_tcp_message name)) n = Inr (offered c h sk name port k n)"
proof -
  have name: "c_name k = name" using chan_find_SomeD [OF assms(3)] assms(4) by auto
  let ?v = "next_addr n"
  let ?u = "n\<lparr>next_addr := Suc ?v, out := out n @ [Listen ?v port],
      chan_tab := (chan_tab n)(c \<mapsto> k\<lparr>c_server := Some ?v\<rparr>),
      server_tab := (server_tab n)(?v \<mapsto> \<lparr>srv_port = port,
      srv_bStop = False, srv_connections = [], srv_on_open = AcceptSubscriptor c h\<rparr>)\<rparr>"
  have "thread_received E sk (frame (connect_tcp_message name)) n = offer_tcp E c h n"
    using linked_delivers [OF assms(1), of "connect_tcp_message name" E] assms(2,3,6)
    by (simp add: make_offer_tcp_def get_channel_eq)
  moreover have "linked ?u h sk" using assms(1) linked_same [of ?u h n sk] by simp
  ultimately show ?thesis
    using assms(4,5,7) name linked_send [of ?u h sk]
    by (simp add: offer_tcp_def TCPServer_range_def new_server_def offered_def)
qed

lemma publisher_offers:
  assumes "ready_publisher E n h sk c name port" and "name_ok name"
  shows "\<exists>m. thread_received E sk (frame (connect_tcp_message name)) n = Inr m
    \<and> last (out m) = Send sk (frame (offer_tcp_message name port)) \<and> serves m c port"
proof -
  obtain k where k: "chan_tab n c = Some k" and l: "linked n h sk" "chans_live n" "chan_find n name = Some c"
    using assms by (auto simp: ready_publisher_def split: option.splits)
  have name: "c_name k = name" using k l(3) chan_find_SomeD [of n name c] by auto
  have run: "thread_received E sk (frame (connect_tcp_message name)) n = offer_tcp E c h n"
    using linked_delivers [OF l(1), of "connect_tcp_message name" E] assms(2) l
    by (simp add: make_offer_tcp_def get_channel_eq)
  show ?thesis
  proof (cases "c_server k")
    case (Some v)
    then obtain sv where "server_tab n v = Some sv" "srv_port sv = port"
      using assms k by (auto simp: ready_publisher_def serves_def split: option.splits)
    with run Some k name linked_send [OF l(1)] show ?thesis
      by (simp add: offer_tcp_def serves_def)
  next
      case None
    then have "scan_ports E 10000 20000 = Inr port" using assms k by (auto simp: ready_publisher_def)
    from request_received [OF l k None assms(2) this] show ?thesis
      by (simp add: offered_def serves_def)
  qed
qed

lemma sub_connect_keeps_callback:
  "sub_connect_tcp E s n = Inr m \<Longrightarrow>
   map_option sub_on_message (sub_tab m x) = map_option sub_on_message (sub_tab n x)"
  by (auto simp: sub_connect_tcp_def new_TCPSocket_def sock_connect_def upd_Inr_iff
      split: if_splits)

lemma foldE_keeps_callback:
  "foldE (sub_connect_tcp E) ss n = Inr m \<Longrightarrow>
   map_option sub_on_message (sub_tab m x) = map_option sub_on_message (sub_tab n x)"
  by (induction ss arbitrary: n) (auto dest: sub_connect_keeps_callback)

lemma subscriber_dials:
  assumes "waiting_subscriber E n h sk c name" and "name_ok name" and "int32 port" and "port \<noteq> 0"
    and "chan_tab n c = Some k" and "host_tab n h = Some hk"
  shows "\<exists>m. thread_received E sk (frame (offer_tcp_message name port)) n = Inr m
    \<and> (\<forall>s\<in>set (c_subscriptions k). dialling m s (c_str (h_ip hk)) port)
    \<and> (\<forall>x. map_option sub_on_message (sub_tab m x) = map_option sub_on_message (sub_tab n x))"
proof -
  have l: "linked n h sk" "chans_live n" "chan_find n name = Some c" "c_publisher k = Some h"
      "distinct (c_subscriptions k)" "\<forall>s\<in>set (c_subscriptions k). pending_sub n c s"
      "resolves E (c_str (h_ip hk))" "can_socket E"
    using assms(1,5,6) by (auto simp: waiting_subscriber_def list_all_iff)
  let ?n = "n\<lparr>chan_tab := (chan_tab n)(c \<mapsto> k\<lparr>c_offeredPort := port\<rparr>)\<rparr>"
  have "str_before (name @ CHR ''|'' # show_int port) ''|'' = name"
    "str_after (name @ CHR ''|'' # show_int port) ''|'' = show_int port"
    using assms(2) by (simp_all add: name_ok_def)
  then have "digest_message E h (offer_tcp_message name port) n
      = foldE (sub_connect_tcp E) (c_subscriptions k) ?n"
    using l assms(3,4,5)
    by (simp add: offer_tcp_message_def answer_offer_tcp_def get_channel_eq on_offer_tcp_def
        channel_connect_tcp_def)
  then have run: "thread_received E sk (frame (offer_tcp_message name port)) n
      = foldE (sub_connect_tcp E) (c_subscriptions k) ?n"
    using linked_delivers [OF l(1), of "offer_tcp_message name port" E] assms(2) by simp
  have "\<forall>s\<in>set (c_subscriptions k). pending_sub ?n c s" using l(6) by (simp add: pending_sub_def)
  then have "\<exists>m. foldE (sub_connect_tcp E) (c_subscriptions k) ?n = Inr m
    \<and> (\<forall>s. s \<in> set (c_subscriptions k) \<or> dialling ?n s (c_str (h_ip hk)) port \<longrightarrow> dialling m s (c_str (h_ip hk)) port)"
    using connect_all_subs [of "c_subscriptions k" ?n c "k\<lparr>c_offeredPort := port\<rparr>" h hk E]
      l assms(5,6) by simp
  with run show ?thesis using foldE_keeps_callback [of E "c_subscriptions k" ?n] by fastforce
qed

text \<open>
  C15: the TCP negotiation of two processes fits together. The request the subscriber sends makes
  the publisher offer the port it serves the channel on, and that offer makes every pending
  subscription of the subscriber dial that port at the publisher's address.
\<close>

theorem tcp_negotiation:
  assumes "waiting_subscriber EB nB hA skB cB name" and "ready_publisher EA nA hB skA cA name port"
    and "name_ok name" and "chan_tab nB cB = Some kB" and "host_tab nB hA = Some hk"
  shows "\<exists>B1 A1 B2. channel_connect EB cB nB = Inr B1
    \<and> out B1 = out nB @ [Send skB (frame (connect_tcp_message name))]
    \<and> thread_received EA skA (frame (connect_tcp_message name)) nA = Inr A1
    \<and> last (out A1) = Send skA (frame (offer_tcp_message name port)) \<and> serves A1 cA port
    \<and> thread_received EB skB (frame (offer_tcp_message name port)) B1 = Inr B2
    \<and> list_all (\<lambda>s. dialling B2 s (c_str (h_ip hk)) port) (c_subscriptions kB)"
proof -
  let ?B1 = "nB\<lparr>out := out nB @ [Send skB (frame (connect_tcp_message name))]\<rparr>"
  have port: "int32 port" "port \<noteq> 0" using assms(2) by (simp_all add: ready_publisher_def)
  have "waiting_subscriber EB ?B1 hA skB cB name"
    using assms(1) unfolding waiting_subscriber_def
    by (auto simp: chans_live_def is_local_def me_def split: option.splits)
  then obtain B2 where "thread_received EB skB (frame (offer_tcp_message name port)) ?B1 = Inr B2"
      "\<forall>s\<in>set (c_subscriptions kB). dialling B2 s (c_str (h_ip hk)) port"
    using subscriber_dials [OF _ assms(3) port, of EB ?B1 hA skB cB kB hk] assms(4,5) by auto
  then show ?thesis
    using subscriber_requests [OF assms(1)] publisher_offers [OF assms(2,3)]
    by (auto simp: list_all_iff)
qed

text \<open>
  When the socket of a dialling subscription opens, the subscription is connected, and what it
  writes from then on goes out on that socket, unchanged.
\<close>

theorem dialling_subscription_opens:
  assumes "dialling n s ip port"
  shows "\<exists>sk m. Connect sk ip port \<in> set (out n) \<and> thread_opened sk n = Inr m
    \<and> map_option sub_bConnected (sub_tab m s) = Some True
    \<and> sub_write s msg m = Inr (m\<lparr>out := out m @ [Send sk msg]\<rparr>)"
proof -
  obtain k sk so where "sub_tab n s = Some k" "sub_socket k = Some sk" "sock_tab n sk = Some so"
      "s_on_open so = OpenSub s" "sub_transport k = TRANSPORT_TCP" "Connect sk ip port \<in> set (out n)"
    using assms by (auto simp: dialling_def split: option.splits)
  then show ?thesis
    by (intro exI [of _ sk])
       (simp add: thread_opened_def run_open_cb_def sub_on_open_def sub_write_def sock_write_buf_def)
qed

end
