(* ===== verification/Delivery.thy ===== *)
theory Delivery
  imports Negotiation
begin

text \<open>
  From the offer to the data: the accept loop of a channel's server makes every connection a
  subscriptor, and what is written to the channel goes to every connected one, once and in order.
  Also three things the code does that its comments do not say: all subscriptors are attributed to
  the host that asked first, direct memory access over TCP sends nothing, and an offer that arrives
  twice makes a pending subscription dial twice.
\<close>

section \<open>Writing\<close>

text \<open>A subscriptor over TCP whose socket exists; where its data goes.\<close>

definition tcp_sub :: "node \<Rightarrow> addr \<Rightarrow> bool" where
  "tcp_sub n s \<longleftrightarrow>
     (case sub_tab n s of
        None \<Rightarrow> False
      | Some k \<Rightarrow> sub_transport k = TRANSPORT_TCP \<and> sub_size k = 0
          \<and> (case sub_socket k of None \<Rightarrow> \<not> sub_bConnected k | Some sk \<Rightarrow> sock_tab n sk \<noteq> None))"

definition sub_target :: "node \<Rightarrow> addr \<Rightarrow> addr option" where
  "sub_target n s = Option.bind (sub_tab n s) (\<lambda>k. if sub_bConnected k then sub_socket k else None)"

definition sub_sends :: "node \<Rightarrow> string \<Rightarrow> addr list \<Rightarrow> effect list" where
  "sub_sends n msg ss = map (\<lambda>sk. Send sk msg) (List.map_filter (sub_target n) ss)"

lemma tcp_sub_out [simp]: "tcp_sub (n\<lparr>out := x\<rparr>) = tcp_sub n" "sub_target (n\<lparr>out := x\<rparr>) = sub_target n"
  by (auto simp: fun_eq_iff tcp_sub_def sub_target_def split: option.splits)

lemma sub_sends_Cons:
  "sub_sends n msg (s # ss) = (case sub_target n s of None \<Rightarrow> [] | Some sk \<Rightarrow> [Send sk msg]) @ sub_sends n msg ss"
  by (simp add: sub_sends_def map_filter_simps split: option.splits)

lemma sub_sends_simps [simp]: "sub_sends n msg [] = []" "sub_sends (n\<lparr>out := x\<rparr>) = sub_sends n"
  by (simp_all add: fun_eq_iff sub_sends_def map_filter_simps)

lemma sub_write_result:
  assumes "tcp_sub n s"
  shows "sub_write s msg n = Inr (n\<lparr>out := out n @ sub_sends n msg [s]\<rparr>)"
    "sub_write_dma s n = Inr (n\<lparr>out := out n @ sub_sends n [] [s]\<rparr>)"
  using assms
  by (auto simp: tcp_sub_def sub_write_def sub_write_dma_def sock_write_buf_def sub_sends_Cons
      sub_target_def split: option.splits)

lemma write_all:
  assumes "list_all (tcp_sub n) ss" and "\<And>s n. tcp_sub n s \<Longrightarrow> f s n = Inr (n\<lparr>out := out n @ sub_sends n msg [s]\<rparr>)"
  shows "foldE f ss n = Inr (n\<lparr>out := out n @ sub_sends n msg ss\<rparr>)"
  using assms(1)
proof (induction ss arbitrary: n)
  case (Cons s ss)
  let ?m = "n\<lparr>out := out n @ sub_sends n msg [s]\<rparr>"
  have "list_all (tcp_sub ?m) ss" using Cons.prems by simp
  from Cons.IH [OF this] Cons.prems show ?case
    by (simp add: assms(2) sub_sends_Cons [of n msg s ss] sub_sends_Cons [of n msg s "[]"])
qed simp

text \<open>
  A message written to a channel is sent unchanged to every connected subscriptor, once each and
  in the order they came; subscriptors that are not connected are passed over.
\<close>

theorem channel_write_delivers:
  assumes "chan_tab n c = Some k" and "list_all (tcp_sub n) (c_subscriptors k)"
  shows "channel_write c msg n = Inr (n\<lparr>out := out n @ sub_sends n msg (c_subscriptors k)\<rparr>)"
  using assms write_all [OF assms(2), of "\<lambda>s. sub_write s msg" msg] sub_write_result(1)
  by (simp add: channel_write_def)

text \<open>
  Direct memory access over TCP sends an empty buffer to every subscriptor, whatever memory was
  allocated for the channel: a subscription's own pointer and size are never set.
\<close>

theorem dma_over_tcp_sends_nothing:
  assumes "chan_tab n c = Some k" and "list_all (tcp_sub n) (c_subscriptors k)"
  shows "channel_write_dma c n = Inr (n\<lparr>out := out n @ sub_sends n [] (c_subscriptors k)\<rparr>)"
  using assms write_all [OF assms(2), of sub_write_dma "[]"] sub_write_result(2)
  by (simp add: channel_write_dma_def)

section \<open>Accepting subscriptors\<close>

definition accepted_sub :: "addr \<Rightarrow> addr \<Rightarrow> addr \<Rightarrow> subscription" where
  "accepted_sub c sk h = \<lparr>sub_channel = c, sub_host = h, sub_bAsync = False, sub_bConnected = True,
     sub_transport = TRANSPORT_TCP, sub_socket = Some sk, sub_shm = None, sub_on_message = False,
     sub_size = 0\<rparr>"

lemma accept_subscriptor:
  assumes "server_tab n v = Some sv" and "srv_on_open sv = AcceptSubscriptor c h"
    and "chan_tab n c = Some k"
  shows "\<exists>m. server_accept v ip port n = Inr m
    \<and> chan_tab m = (chan_tab n)(c \<mapsto> k\<lparr>c_subscriptors := c_subscriptors k @ [Suc (next_addr n)]\<rparr>)
    \<and> sub_tab m = (sub_tab n)(Suc (next_addr n) \<mapsto> accepted_sub c (next_addr n) h)
    \<and> (\<forall>x. x = next_addr n \<or> sock_tab n x \<noteq> None \<longrightarrow> sock_tab m x \<noteq> None)
    \<and> out m = out n"
  using assms
  by (simp add: server_accept_def new_TCPSocket_fd_def run_accept_cb_def Subscriptor_tcp_def new_sub_def
      accepted_sub_def)

text \<open>
  A connection to the server of a channel makes a subscriptor that gets what is written from
  then on, after the subscriptors there were.
\<close>

theorem accepted_subscriptor_receives:
  assumes "server_tab n v = Some sv" and "srv_on_open sv = AcceptSubscriptor c h"
    and "chan_tab n c = Some k" and "list_all (tcp_sub n) (c_subscriptors k)"
    and "list_all (\<lambda>s. s < next_addr n) (c_subscriptors k)"
  shows "\<exists>m. server_accept v ip port n = Inr m
    \<and> channel_write c msg m = Inr (m\<lparr>out := out n @ sub_sends n msg (c_subscriptors k)
          @ [Send (next_addr n) msg]\<rparr>)"
proof -
  let ?s = "Suc (next_addr n)"
  obtain m where m: "server_accept v ip port n = Inr m"
      "chan_tab m = (chan_tab n)(c \<mapsto> k\<lparr>c_subscriptors := c_subscriptors k @ [?s]\<rparr>)"
      "sub_tab m = (sub_tab n)(?s \<mapsto> accepted_sub c (next_addr n) h)"
      "\<forall>x. x = next_addr n \<or> sock_tab n x \<noteq> None \<longrightarrow> sock_tab m x \<noteq> None" "out m = out n"
    using accept_subscriptor [OF assms(1-3)] by blast
  have old: "tcp_sub m s \<and> sub_target m s = sub_target n s" if "s \<in> set (c_subscriptors k)" for s
  proof -
    have "tcp_sub n s" "s < next_addr n" using that assms(4,5) by (auto simp: list_all_iff)
    then show ?thesis
      using m(3,4) by (auto simp: tcp_sub_def sub_target_def split: option.splits)
  qed
  have new: "tcp_sub m ?s" "sub_target m ?s = Some (next_addr n)"
    using m(3,4) by (auto simp: tcp_sub_def sub_target_def accepted_sub_def)
  have same: "sub_sends m msg ss = sub_sends n msg ss" if "set ss \<subseteq> set (c_subscriptors k)" for ss
    using that old by (induction ss) (auto simp: sub_sends_Cons)
  have app: "sub_sends m msg (ss @ [?s]) = sub_sends m msg ss @ [Send (next_addr n) msg]" for ss
    using new(2) by (induction ss) (simp_all add: sub_sends_Cons)
  have "list_all (tcp_sub m) (c_subscriptors k @ [?s])"
    using old new(1) by (auto simp: list_all_iff)
  then have "foldE (\<lambda>s. sub_write s msg) (c_subscriptors k @ [?s]) m =
      Inr (m\<lparr>out := out m @ sub_sends m msg (c_subscriptors k @ [?s])\<rparr>)"
    by (rule write_all) (rule sub_write_result(1))
  then show ?thesis
    using m(1,2,5) same [OF subset_refl] app [of "c_subscriptors k"]
    by (simp add: channel_write_def)
qed

section \<open>Who subscribed\<close>

lemma offer_creates_server:
  assumes "offer_tcp E c h n = Inr m" and "chan_tab n c = Some k" and "c_server k = None"
  shows "\<exists>sv. chan_tab m = (chan_tab n)(c \<mapsto> k\<lparr>c_server := Some (next_addr n)\<rparr>)
    \<and> server_tab m (next_addr n) = Some sv
    \<and> srv_on_open sv = AcceptSubscriptor c h"
  using assms
  by (auto simp: offer_tcp_def TCPServer_range_def new_server_def host_send_def sock_write_def
      sock_write_buf_def split: option.splits if_splits)

lemma offer_keeps_server:
  assumes "offer_tcp E c h n = Inr m" and "chan_tab n c = Some k" and "c_server k = Some v"
  shows "chan_tab m = chan_tab n \<and> server_tab m = server_tab n \<and> sub_tab m = sub_tab n"
  using assms
  by (auto simp: offer_tcp_def host_send_def sock_write_def sock_write_buf_def
      split: option.splits if_splits)

text \<open>
  The server of a channel remembers the host whose request created it, and every subscriptor it
  accepts is recorded as that host's, whoever connects.
\<close>

theorem subscriptors_attributed_to_first_host:
  assumes "offer_tcp E c h1 n = Inr n1" and "chan_tab n c = Some k" and "c_server k = None"
    and "offer_tcp E c h2 n1 = Inr n2"
  shows "\<exists>v n3 s. server_accept v ip port n2 = Inr n3
    \<and> map_option c_server (chan_tab n2 c) = Some (Some v)
    \<and> map_option (\<lambda>k. last (c_subscriptors k)) (chan_tab n3 c) = Some s
    \<and> map_option sub_host (sub_tab n3 s) = Some h1"
proof -
  obtain v sv where v: "chan_tab n1 = (chan_tab n)(c \<mapsto> k\<lparr>c_server := Some v\<rparr>)"
      "server_tab n1 v = Some sv" "srv_on_open sv = AcceptSubscriptor c h1"
    using offer_creates_server [OF assms(1-3)] by blast
  then have "chan_tab n2 = chan_tab n1" "server_tab n2 = server_tab n1"
    using offer_keeps_server [OF assms(4), of "k\<lparr>c_server := Some v\<rparr>" v] by simp_all
  then show ?thesis
    using accept_subscriptor [of n2 v sv c h1 "k\<lparr>c_server := Some v\<rparr>" ip port] v
    by (auto simp: accepted_sub_def)
qed

section \<open>Dialling twice\<close>

text \<open>
  An offer that arrives again before the first connection is up gives the subscription a second
  socket; the first one goes on dialling, with the callbacks of the subscription, and nothing
  refers to it any more.
\<close>

theorem repeated_offer_dials_twice:
  assumes "sub_tab n s = Some k" and "\<not> sub_bConnected k" and "chan_tab n (sub_channel k) = Some c"
    and "c_publisher c = Some p" and "host_tab n p = Some ph"
    and "resolves E (c_str (h_ip ph))" and "can_socket E"
  shows "\<exists>n1 n2. sub_connect_tcp E s n = Inr n1 \<and> sub_connect_tcp E s n1 = Inr n2
    \<and> map_option sub_socket (sub_tab n2 s) = Some (Some (Suc (next_addr n)))
    \<and> map_option s_on_open (sock_tab n2 (next_addr n)) = Some (OpenSub s)
    \<and> map_option s_on_open (sock_tab n2 (Suc (next_addr n))) = Some (OpenSub s)
    \<and> out n2 = out n @ [Connect (next_addr n) (c_str (h_ip ph)) (c_offeredPort c),
                         Connect (Suc (next_addr n)) (c_str (h_ip ph)) (c_offeredPort c)]"
  using assms sub_connect_tcp_result [OF assms]
  by (simp add: sub_connect_tcp_result dialling_sock_def TCPSocket_default_def)

end
