(* ===== verification/Handshake.thy ===== *)
theory Handshake
  imports Negotiation
begin

text \<open>
  How two processes become ready hosts of each other: the messages of the handshake are read back
  as they were printed, the exchange ends with both sides ready, simultaneous connections are
  resolved by the unique identifiers, and the host list a process broadcasts is what its peers add.
  Also two inputs the registry does not defend against.
\<close>

section \<open>The messages\<close>

lemma id_message_cuts:
  "str_before (id_message i p) ''|'' = ''ID='' @ show_int i"
  "str_after (id_message i p) ''|'' = ''PORT='' @ show_int p"
  using str_before_char [of "CHR ''|''" "''ID='' @ show_int i" "''PORT='' @ show_int p"]
    str_after_char [of "CHR ''|''" "''ID='' @ show_int i" "''PORT='' @ show_int p"]
  by (simp_all add: id_message_def)

lemma wire_ok_id [simp]: "wire_ok (id_message i p)"
  by (simp add: wire_ok_def id_message_def NUL_def NL_def)

lemma id_message_reads:
  assumes "int32 i" and "int32 p"
  shows "parse_id (id_message i p) = i" "parse_port (id_message i p) = p"
    "str_starts_with (id_message i p) ''ID=''"
proof -
  have "str_after (''ID='' @ show_int i) ''='' = show_int i"
    "str_after (''PORT='' @ show_int p) ''='' = show_int p"
    using str_after_char [of "CHR ''=''" "''ID''" "show_int i"]
      str_after_char [of "CHR ''=''" "''PORT''" "show_int p"] by simp_all
  then show "parse_id (id_message i p) = i" "parse_port (id_message i p) = p"
    using assms by (simp_all add: parse_id_def parse_port_def id_message_cuts)
  show "str_starts_with (id_message i p) ''ID=''" by (simp add: id_message_def)
qed

text \<open>The identifier and the port a process sends are the ones its peer reads.\<close>

theorem id_message_roundtrip:
  assumes "int32 i" and "int32 p"
  shows "\<exists>msg. recv_chunks (frame (id_message i p)) = [msg]
    \<and> parse_id msg = i \<and> parse_port msg = p \<and> str_starts_with msg ''ID=''"
  using id_message_reads [OF assms] nul_framing.dec_stream [of "[id_message i p]"] by simp

theorem id_message_roundtrip_witness:
  "\<exists>msg. recv_chunks (frame (id_message (-5) 12212)) = [msg] \<and> parse_id msg = -5 \<and> parse_port msg = 12212"
  using id_message_roundtrip [of "-5" 12212] by (auto simp: int32_def)

lemma wire_ok_you: "NUL \<notin> set ip \<Longrightarrow> NL \<notin> set ip \<Longrightarrow> wire_ok (you_message ip)"
  by (auto simp: wire_ok_def you_message_def NUL_def NL_def)

lemma wire_ok_connected [simp]: "wire_ok ''CONNECTED''"
  by (simp add: wire_ok_def NUL_def NL_def)

section \<open>One message each\<close>

lemma mesh_wf_host_upd:
  assumes "mesh_wf n" and "host_tab n h = Some k" and "h_socket k' = h_socket k"
  shows "mesh_wf (n\<lparr>host_tab := (host_tab n)(h \<mapsto> k')\<rparr>)"
  using assms by (auto simp: mesh_wf_defs)

lemma on_receive_ID:
  assumes "host_tab n h = Some k" and "h_socket k = Some sk" and "sock_tab n sk = Some so"
    and "\<not> s_bStop so" and "int32 i" and "int32 p"
  shows "on_receive E h (id_message i p) n = Inr (n\<lparr>
     host_tab := (host_tab n)(h \<mapsto> k\<lparr>h_id := i, h_port := p\<rparr>),
     out := out n @ [Send sk (frame ''CONNECTED'')]\<rparr>)"
  using assms id_message_reads [OF assms(5,6)]
  by (simp add: on_receive_def host_send_def sock_write_def sock_write_buf_def)

lemma on_receive_YOU:
  assumes "me n = Inr m" and "host_tab n m = Some mk"
  shows "on_receive E h (you_message ip) n = Inr (n\<lparr>
     host_tab := (host_tab n)(m \<mapsto> mk\<lparr>h_ip := ip, h_bReady := True\<rparr>)\<rparr>)"
  using assms str_after_char [of "CHR ''=''" "''YOU''" ip]
  by (simp add: on_receive_def you_message_def)

lemma ready_lines_total:
  "\<forall>h\<in>set hs. host_tab n h \<noteq> None \<Longrightarrow>
   ready_lines (host_tab n) hs =
     Inr (concat (map (\<lambda>h. host_line (the (host_tab n h))) (filter (host_ready n) hs)))"
  by (induction hs) (auto simp: host_ready_def)

lemma broadcast_hosts_result:
  assumes "mesh_wf n"
  shows "broadcast_hosts n = Inr (n\<lparr>out := out n @ broadcast_sends n
     (concat (map (\<lambda>h. host_line (the (host_tab n h))) (filter (host_ready n) (hosts n))))\<rparr>)"
  using assms broadcast_result [OF assms]
  by (simp add: broadcast_hosts_def ready_lines_total mesh_wf_defs)

text \<open>The channels this process publishes, in the order of the registry, and their announcements.\<close>

definition published :: "node \<Rightarrow> string list" where
  "published n = map (\<lambda>c. c_name (the (chan_tab n c)))
     (filter (\<lambda>c. Option.bind (chan_tab n c) c_publisher = Some (hd (hosts n))) (channels n))"

definition announcement :: "node \<Rightarrow> string \<Rightarrow> string" where
  "announcement n name = publish_message name (the (host_tab n (hd (hosts n))))"

definition announcements :: "node \<Rightarrow> effect list" where
  "announcements n = concat (map (\<lambda>name. broadcast_sends n (announcement n name)) (published n))"

lemma broadcast_published_exact:
  assumes "mesh_wf n" and "chans_live n"
  shows "broadcast_published_channels n = Inr (n\<lparr>out := out n @ announcements n\<rparr>)"
proof -
  let ?m = "hd (hosts n)"
  obtain mk where mk: "host_tab n ?m = Some mk"
    using mesh_wf_live [OF assms(1), of ?m] assms(1) by (auto simp: mesh_wf_def)
  let ?body = "\<lambda>c n. bindE (live (chan_tab n) c) (\<lambda>k.
              bindE (me n) (\<lambda>m.
              if c_publisher k = Some m
              then bindE (channel_tostring c n) (\<lambda>s. broadcast (''PUBLISH='' @ s) n)
              else Inr n))"
  let ?own = "\<lambda>c. Option.bind (chan_tab n c) c_publisher = Some ?m" and ?name = "\<lambda>c. c_name (the (chan_tab n c))"
  let ?says = "\<lambda>cs. concat (map (\<lambda>c. broadcast_sends n (publish_message (?name c) mk)) (filter ?own cs))"
  have "foldE ?body cs (n\<lparr>out := x\<rparr>) = Inr (n\<lparr>out := x @ ?says cs\<rparr>)" if "\<forall>c\<in>set cs. chan_tab n c \<noteq> None" for cs x
    using that
  proof (induction cs arbitrary: x)
    case (Cons c cs)
    obtain k where k: "chan_tab n c = Some k" using Cons.prems by auto
    have me: "me (n\<lparr>out := x\<rparr>) = Inr ?m" using mesh_wf_me [OF assms(1)] by (simp add: me_def)
    have "?body c (n\<lparr>out := x\<rparr>) = Inr (n\<lparr>out := x @ ?says [c]\<rparr>)"
    proof (cases "c_publisher k = Some ?m")
      case True
      then have "channel_tostring c (n\<lparr>out := x\<rparr>) = Inr ([CHR ''P''] @ c_name k @ ''|'' @ host_tostring mk)"
        using k mk me by (simp add: channel_tostring_def getType_def)
      then show ?thesis
        using True k me broadcast_result [of "n\<lparr>out := x\<rparr>" "publish_message (c_name k) mk"] assms(1)
        by (simp add: publish_message_def broadcast_sends_def)
    qed (use k me in simp)
    with Cons.IH [of "x @ ?says [c]"] Cons.prems show ?case by simp
  qed simp
  from this [of "channels n" "out n"] assms(2) show ?thesis
    by (simp add: broadcast_published_channels_def chans_live_def announcements_def announcement_def mk published_def comp_def)
qed

text \<open>A process that publishes nothing itself, and the list of hosts it tells its peers.\<close>

definition quiet :: "node \<Rightarrow> bool" where
  "quiet n \<longleftrightarrow> (\<forall>c k. chan_tab n c = Some k \<longrightarrow> c_publisher k \<noteq> Some (hd (hosts n)))"

definition host_list :: "node \<Rightarrow> string" where
  "host_list n = concat (map (\<lambda>h. host_line (the (host_tab n h))) (filter (host_ready n) (hosts n)))"

definition said :: "effect list \<Rightarrow> node \<Rightarrow> node" where
  "said os n = n\<lparr>out := out n @ os\<rparr>"

lemma foldE_skip: "(\<And>x. x \<in> set xs \<Longrightarrow> f x n = Inr n) \<Longrightarrow> foldE f xs n = Inr n"
  by (induction xs) simp_all

lemma quiet_announcements:
  assumes "chans_live n" and "quiet n"
  shows "announcements n = []"
proof -
  have "filter (\<lambda>c. Option.bind (chan_tab n c) c_publisher = Some (hd (hosts n))) (channels n) = []"
    using assms(2) by (auto simp: filter_empty_conv quiet_def bind_eq_Some_conv)
  then show ?thesis by (simp add: announcements_def published_def)
qed

text \<open>The state in which a host has just become ready; the host list follows the channels.\<close>

definition now_ready :: "addr \<Rightarrow> node \<Rightarrow> node" where
  "now_ready h n = n\<lparr>host_tab := (host_tab n)(h \<mapsto> (the (host_tab n h))\<lparr>h_bReady := True\<rparr>)\<rparr>"

lemma CONNECTED_announces:
  assumes "mesh_wf n" and "chans_live n" and "h \<in> set (hosts n)"
  shows "on_receive E h ''CONNECTED'' n =
      Inr (said (announcements (now_ready h n) @ broadcast_sends (now_ready h n) (host_list (now_ready h n))) (now_ready h n))"
proof -
  obtain k where k: "host_tab n h = Some k" using mesh_wf_live [OF assms(1,3)] by blast
  let ?m = "now_ready h n"
  have m: "?m = n\<lparr>host_tab := (host_tab n)(h \<mapsto> k\<lparr>h_bReady := True\<rparr>)\<rparr>"
    using k by (simp add: now_ready_def)
  have wf: "mesh_wf ?m" unfolding m using assms(1) k by (rule mesh_wf_host_upd) simp
  have live: "chans_live ?m" using assms(2) by (simp add: m chans_live_def)
  have "mesh_find ?m (h_ip k, h_port k) \<noteq> None"
    using assms(3) by (auto simp: mesh_find_None_key host_key_def image_iff m intro!: bexI [of _ h])
  then have "on_receive E h ''CONNECTED'' n = bindE (broadcast_published_channels ?m) broadcast_hosts"
    using k has_host_eq [OF wf, of "h_ip k" "h_port k"]
    by (simp add: on_receive_def on_host_open_def str_starts_with_def m)
  then show ?thesis
    using broadcast_published_exact [OF wf live] broadcast_hosts_result [of "?m\<lparr>out := out ?m @ announcements ?m\<rparr>"] wf
    by (simp add: said_def host_list_def)
qed

lemma on_receive_CONNECTED:
  assumes "mesh_wf n" and "chans_live n" and "h \<in> set (hosts n)"
  shows "\<exists>os. on_receive E h ''CONNECTED'' n =
      Inr (said (os @ broadcast_sends (now_ready h n) (host_list (now_ready h n))) (now_ready h n))
    \<and> (quiet n \<longrightarrow> os = [])"
proof -
  obtain k where "host_tab n h = Some k" using mesh_wf_live [OF assms(1,3)] by blast
  then have "chans_live (now_ready h n)" "quiet (now_ready h n) = quiet n"
    using assms(2) by (simp_all add: now_ready_def chans_live_def quiet_def)
  then show ?thesis using CONNECTED_announces [OF assms, of E] quiet_announcements [of "now_ready h n"] by auto
qed

section \<open>The exchange\<close>

lemma dispatch_host:
  "sock_tab n sk = Some so \<Longrightarrow> s_cbRecv so = RecvHost h \<Longrightarrow>
   dispatch_event E sk (RecvChunk m) n = on_receive E h m n"
  by (simp add: dispatch_event_def run_recv_cb_def)

lemma received_frames:
  assumes "sock_tab n sk = Some so" and "s_bLinebuffer so" and "\<forall>m\<in>set ms. wire_ok m"
  shows "thread_received E sk (concat (map frame ms)) n =
     foldE (dispatch_event E sk) (map RecvChunk ms) n"
  using assms recv_loop_frames [of 0 "concat (map frame ms)" ms]
  by (simp add: thread_received_def)

text \<open>The object a new incoming connection is given, and the messages it is greeted with.\<close>

definition accepted_host :: "string \<Rightarrow> int \<Rightarrow> addr \<Rightarrow> host" where
  "accepted_host ip port s = \<lparr>h_ip = ip, h_port = port, h_id = 0, h_bReady = False,
     h_bConnecting = Some True, h_bServer = True, h_socket = Some s, h_commit_id = -1,
     h_known_commit_id = -1, h_bUpToDate = False, h_bFastforwarding = False\<rparr>"

lemma Host_incoming_result:
  assumes "mesh_wf n" and "sock_tab n sk = Some so" and "\<not> s_bStop so"
    and "mesh_find n (ip, port) = None"
  shows "Host_incoming ip port sk n = Inr (next_addr n, n\<lparr>
     hosts := hosts n @ [next_addr n],
     host_tab := (host_tab n)(next_addr n \<mapsto> accepted_host ip port sk),
     sock_tab := (sock_tab n)(sk \<mapsto> attached_sock (next_addr n) so),
     next_addr := Suc (next_addr n),
     out := out n @ welcome_sends n sk (s_ip so)\<rparr>)"
proof -
  let ?k = "\<lparr>h_ip = ip, h_port = port, h_id = 0, h_bReady = False,
         h_bConnecting = None, h_bServer = True, h_socket = None, h_commit_id = -1,
         h_known_commit_id = -1, h_bUpToDate = False, h_bFastforwarding = False\<rparr>"
  let ?n = "n\<lparr>next_addr := Suc (next_addr n), host_tab := (host_tab n)(next_addr n \<mapsto> ?k),
     hosts := hosts n @ [next_addr n]\<rparr>"
  have "host_tab ?n (next_addr n) = Some ?k" "sock_tab ?n sk = Some so" using assms(2) by simp_all
  from setSocket_result [OF this] assms show ?thesis
    by (simp add: Host_incoming_def new_host_def has_host_fresh greets_def accepted_host_def
        welcome_sends_def)
qed

lemma incoming_message_new:
  assumes "mesh_wf n" and "sock_tab n sk = Some so" and "\<not> s_bStop so" and "int32 i" and "int32 p"
    and "mesh_find n (localize (s_ip so), p) = None"
  shows "incoming_message sk (id_message i p) n = Inr (n\<lparr>
     hosts := hosts n @ [next_addr n],
     host_tab := (host_tab n)(next_addr n \<mapsto> accepted_host (localize (s_ip so)) p sk),
     sock_tab := (sock_tab n)(sk \<mapsto> attached_sock (next_addr n) so),
     next_addr := Suc (next_addr n),
     out := out n @ welcome_sends n sk (s_ip so) @ [Send sk (frame ''CONNECTED'')]\<rparr>)"
proof -
  have "get_host (localize (s_ip so)) p n = Inr None"
    using assms(1,6) by (simp add: get_host_eq)
  then show ?thesis
    using assms id_message_reads [OF assms(4,5)]
    by (simp add: incoming_message_def Let_def Host_incoming_result
        host_send_def sock_write_def sock_write_buf_def accepted_host_def attached_sock_def)
qed

section \<open>The exchange, end to end\<close>

text \<open>
  The states of the two sides: a dialled connection is open; an accepted one has been given a host
  and answered; the dialling side has read the answer.
\<close>

definition client_opened :: "addr \<Rightarrow> addr \<Rightarrow> node \<Rightarrow> node" where
  "client_opened h sk n = (let so = the (sock_tab n sk) in n\<lparr>
     sock_tab := (sock_tab n)(sk \<mapsto> so\<lparr>s_bStop := False, s_semConnected := Suc (s_semConnected so)\<rparr>),
     host_tab := (host_tab n)(h \<mapsto> (the (host_tab n h))\<lparr>h_bConnecting := Some True\<rparr>),
     out := out n @ welcome_sends n sk (s_ip so)\<rparr>)"

definition server_greeted :: "addr \<Rightarrow> int \<Rightarrow> string \<Rightarrow> node \<Rightarrow> node" where
  "server_greeted sk p ip n = (let so = the (sock_tab n sk); m = hd (hosts n) in n\<lparr>
     hosts := hosts n @ [next_addr n],
     host_tab := (host_tab n)(next_addr n \<mapsto> accepted_host (localize (s_ip so)) p sk,
                              m \<mapsto> (the (host_tab n m))\<lparr>h_ip := ip, h_bReady := True\<rparr>),
     sock_tab := (sock_tab n)(sk \<mapsto> attached_sock (next_addr n) so),
     next_addr := Suc (next_addr n),
     out := out n @ welcome_sends n sk (s_ip so) @ [Send sk (frame ''CONNECTED'')]\<rparr>)"

definition client_told :: "addr \<Rightarrow> int \<Rightarrow> int \<Rightarrow> string \<Rightarrow> addr \<Rightarrow> node \<Rightarrow> node" where
  "client_told h i p ip sk n = (let m = hd (hosts n) in n\<lparr>
     host_tab := (host_tab n)(h \<mapsto> (the (host_tab n h))\<lparr>h_id := i, h_port := p\<rparr>,
                              m \<mapsto> (the (host_tab n m))\<lparr>h_ip := ip, h_bReady := True\<rparr>),
     out := out n @ [Send sk (frame ''CONNECTED'')]\<rparr>)"

lemma client_completes:
  assumes wf: "mesh_wf n" "chans_live n" and k: "host_tab n h = Some k" "h_socket k = Some sk"
    and h: "h \<in> set (tl (hosts n))"
    and so: "sock_tab n sk = Some so" "\<not> s_bStop so" "s_bLinebuffer so" "s_cbRecv so = RecvHost h"
    and int: "int32 i" "int32 p" and ip: "NUL \<notin> set ip" "NL \<notin> set ip"
  shows "thread_received E sk (concat (map frame [id_message i p, you_message ip, ''CONNECTED''])) n
      = on_receive E h ''CONNECTED'' (client_told h i p ip sk n)"
    and "mesh_wf (client_told h i p ip sk n)" "chans_live (client_told h i p ip sk n)"
proof -
  let ?m = "hd (hosts n)"
  let ?k1 = "k\<lparr>h_id := i, h_port := p\<rparr>"
  let ?n1 = "n\<lparr>host_tab := (host_tab n)(h \<mapsto> ?k1), out := out n @ [Send sk (frame ''CONNECTED'')]\<rparr>"
  have m: "?m \<noteq> h" using wf(1) h by (cases "hosts n") (auto simp: mesh_wf_def)
  obtain mk where mk: "host_tab n ?m = Some mk"
    using mesh_wf_live [OF wf(1), of ?m] wf(1) by (auto simp: mesh_wf_def)
  let ?n2 = "?n1\<lparr>host_tab := (host_tab ?n1)(?m \<mapsto> mk\<lparr>h_ip := ip, h_bReady := True\<rparr>)\<rparr>"
  have n2: "?n2 = client_told h i p ip sk n" using k mk by (simp add: client_told_def Let_def)
  have wf1: "mesh_wf ?n1"
    using mesh_wf_host_upd [OF wf(1) k(1), of ?k1] by simp
  have wf2: "mesh_wf ?n2" by (rule mesh_wf_host_upd [OF wf1]) (use m mk in simp_all)
  have id: "on_receive E h (id_message i p) n = Inr ?n1"
    using on_receive_ID [OF k so(1,2) int] .
  have "me ?n1 = Inr ?m" using mesh_wf_me [OF wf1] by simp
  from on_receive_YOU [OF this] have you: "on_receive E h (you_message ip) ?n1 = Inr ?n2"
    using m mk by simp
  have live2: "chans_live ?n2" using wf(2) by (simp add: chans_live_def)
  have "\<forall>x\<in>set [id_message i p, you_message ip, ''CONNECTED'']. wire_ok x"
    using ip by (simp add: wire_ok_you)
  from received_frames [OF so(1,3) this, of E]
  have "thread_received E sk (concat (map frame [id_message i p, you_message ip, ''CONNECTED''])) n
    = on_receive E h ''CONNECTED'' ?n2"
    using so id you by (simp add: dispatch_host)
  with wf2 live2 show "thread_received E sk (concat (map frame [id_message i p, you_message ip, ''CONNECTED''])) n
      = on_receive E h ''CONNECTED'' (client_told h i p ip sk n)"
    "mesh_wf (client_told h i p ip sk n)" "chans_live (client_told h i p ip sk n)"
    unfolding n2 by simp_all
qed

lemma server_greets:
  assumes wf: "mesh_wf n" and so: "sock_tab n sk = Some so" "\<not> s_bStop so" "s_bLinebuffer so"
      "s_cbRecv so = RecvIncoming"
    and int: "int32 i" "int32 p" and ip: "NUL \<notin> set ip" "NL \<notin> set ip"
    and new: "mesh_find n (localize (s_ip so), p) = None"
  shows "thread_received E sk (concat (map frame [id_message i p, you_message ip])) n
      = Inr (server_greeted sk p ip n)"
    and "mesh_wf (server_greeted sk p ip n)"
proof -
  let ?m = "hd (hosts n)" and ?h = "next_addr n"
  let ?n1 = "n\<lparr>hosts := hosts n @ [?h],
     host_tab := (host_tab n)(?h \<mapsto> accepted_host (localize (s_ip so)) p sk),
     sock_tab := (sock_tab n)(sk \<mapsto> attached_sock ?h so), next_addr := Suc ?h,
     out := out n @ welcome_sends n sk (s_ip so) @ [Send sk (frame ''CONNECTED'')]\<rparr>"
  have ne: "hosts n \<noteq> []" using wf by (simp add: mesh_wf_def)
  obtain mk where m: "host_tab n ?m = Some mk"
    using mesh_wf_live [OF wf, of ?m] ne by auto
  have mh: "?m \<noteq> ?h" using mesh_wf_fresh(7) [OF wf] hd_in_set [OF ne] by metis
  have "me ?n1 = Inr ?m" using ne by (cases "hosts n") (simp_all add: me_def)
  from on_receive_YOU [OF this, of mk E ?h ip] have you: "on_receive E ?h (you_message ip) ?n1 = Inr (?n1\<lparr>
     host_tab := (host_tab ?n1)(?m \<mapsto> mk\<lparr>h_ip := ip, h_bReady := True\<rparr>)\<rparr>)"
    using m mh by simp
  have "\<forall>x\<in>set [id_message i p, you_message ip]. wire_ok x"
    using ip by (simp add: wire_ok_you)
  from received_frames [OF so(1,3) this, of E]
  have "thread_received E sk (concat (map frame [id_message i p, you_message ip])) n
    = on_receive E ?h (you_message ip) ?n1"
    using so incoming_message_new [OF wf so(1,2) int new]
    by (simp add: dispatch_event_def run_recv_cb_def attached_sock_def)
  with you m so(1) show "thread_received E sk (concat (map frame [id_message i p, you_message ip])) n
      = Inr (server_greeted sk p ip n)" by (simp add: server_greeted_def Let_def)
  have "?m < next_addr n" "sk < next_addr n"
    using wf m so(1) by (auto simp: mesh_wf_defs not_le [symmetric])
  then show "mesh_wf (server_greeted sk p ip n)"
    using wf m so(1) mh
    by (auto simp: mesh_wf_defs server_greeted_def Let_def accepted_host_def less_SucI)
qed

lemma server_completes:
  assumes "sock_tab n sk = Some so" "s_bLinebuffer so" "s_cbRecv so = RecvHost h"
  shows "thread_received E sk (frame ''CONNECTED'') n = on_receive E h ''CONNECTED'' n"
  using received_frames [OF assms(1,2), of "[''CONNECTED'']" E] dispatch_host [OF assms(1,3)] by simp

text \<open>The bytes one handler run puts on a socket.\<close>

definition sent_bytes :: "addr \<Rightarrow> effect list \<Rightarrow> string" where
  "sent_bytes sk es = concat (map (\<lambda>e. case e of Send s b \<Rightarrow> if s = sk then b else [] | _ \<Rightarrow> []) es)"

definition sent_on :: "addr \<Rightarrow> node \<Rightarrow> node \<Rightarrow> string" where
  "sent_on sk n m = sent_bytes sk (drop (length (out n)) (out m))"

lemma sent_on_eq: "out m = out n @ es \<Longrightarrow> sent_on sk n m = sent_bytes sk es"
  by (simp add: sent_on_def)

lemma sent_bytes_simps [simp]:
  "sent_bytes sk [] = []" "sent_bytes sk (es @ fs) = sent_bytes sk es @ sent_bytes sk fs"
  "sent_bytes sk (Send s b # es) = (if s = sk then b else []) @ sent_bytes sk es"
  by (simp_all add: sent_bytes_def)

text \<open>What a broadcast puts on a connection: the message, once for every ready host that uses it.\<close>

lemma broadcast_count:
  "\<exists>k. (\<forall>msg. sent_bytes s (broadcast_sends n msg) = concat (replicate k (frame msg)))
    \<and> (\<forall>h. linked n h s \<longrightarrow> h \<in> set (tl (hosts n)) \<longrightarrow> 0 < k)"
proof -
  let ?all = "filter (\<lambda>h. host_link n h = Some s)" and ?hs = "filter (host_ready n) (tl (hosts n))"
  have "sent_bytes s (concat (map (\<lambda>h. host_sends n h msg) hs)) = concat (replicate (length (?all hs)) (frame msg))" for hs msg
    by (induction hs) (auto simp: host_sends_def split: option.split)
  moreover have "0 < length (?all ?hs)" if "linked n h s" "h \<in> set (tl (hosts n))" for h
  proof -
    have "h \<in> set (?all ?hs)" using that by (auto simp: host_link_def host_ready_def elim: linkedE)
    then show ?thesis by (rule length_pos_if_in_set)
  qed
  ultimately show ?thesis
    unfolding broadcast_sends_def by (intro exI [of _ "length (?all ?hs)"] conjI allI impI) blast+
qed

lemma broadcast_frames:
  assumes "linked n h s" and "h \<in> set (tl (hosts n))"
  shows "\<exists>k. sent_bytes s (broadcast_sends n msg) = concat (replicate (Suc k) (frame msg))"
  using broadcast_count [of s n] assms gr0_implies_Suc by metis

text \<open>A host that is being dialled, and a connection that has been accepted.\<close>

definition dialled :: "node \<Rightarrow> addr \<Rightarrow> addr \<Rightarrow> bool" where
  "dialled n h sk \<longleftrightarrow> mesh_wf n \<and> chans_live n \<and> h \<in> set (tl (hosts n))
     \<and> (case host_tab n h of None \<Rightarrow> False | Some k \<Rightarrow> h_socket k = Some sk)
     \<and> (case sock_tab n sk of None \<Rightarrow> False | Some so \<Rightarrow>
          s_bLinebuffer so \<and> s_on_open so = OpenHost h \<and> s_cbRecv so = RecvHost h
          \<and> NUL \<notin> set (s_ip so) \<and> NL \<notin> set (s_ip so))
     \<and> int32 (my_ID n) \<and> int32 (SIGNALING_PORT n)"

definition accepted :: "node \<Rightarrow> addr \<Rightarrow> bool" where
  "accepted n sk \<longleftrightarrow> mesh_wf n \<and> chans_live n
     \<and> (case sock_tab n sk of None \<Rightarrow> False | Some so \<Rightarrow>
          s_bLinebuffer so \<and> \<not> s_bStop so \<and> s_cbRecv so = RecvIncoming
          \<and> NUL \<notin> set (s_ip so) \<and> NL \<notin> set (s_ip so))
     \<and> int32 (my_ID n) \<and> int32 (SIGNALING_PORT n)"

definition my_ip :: "node \<Rightarrow> string option" where
  "my_ip n = map_option h_ip (host_tab n (hd (hosts n)))"

lemma localize_ok [simp]: "c \<notin> set ip \<Longrightarrow> c \<notin> set ''localhost'' \<Longrightarrow> c \<notin> set (localize ip)"
  by (simp add: localize_def)

lemma client_opens:
  assumes "host_tab n h = Some k" "h_socket k = Some sk" "sock_tab n sk = Some so"
    "s_on_open so = OpenHost h"
  shows "thread_opened sk n = Inr (client_opened h sk n)"
  using assms
  by (simp add: thread_opened_def run_open_cb_def host_welcome_result client_opened_def welcome_sends_def)

lemma said_simps [simp]:
  "hosts (said os n) = hosts n" "host_tab (said os n) = host_tab n" "sock_tab (said os n) = sock_tab n"
  "server_tab (said os n) = server_tab n" "channels (said os n) = channels n" "chan_tab (said os n) = chan_tab n"
  "sub_tab (said os n) = sub_tab n" "next_addr (said os n) = next_addr n" "my_ID (said os n) = my_ID n"
  "SIGNALING_PORT (said os n) = SIGNALING_PORT n" "bInited (said os n) = bInited n"
  "out (said os n) = out n @ os" "mesh_wf (said os n) = mesh_wf n" "linked (said os n) = linked n"
  by (simp_all add: said_def fun_eq_iff linked_def)

text \<open>What each side does by itself.\<close>

lemma client_turns:
  assumes "dialled A h sk" and "sock_tab A sk = Some so" and "int32 i" and "int32 p" and "NUL \<notin> set ip" and "NL \<notin> set ip"
    and "A1 = client_opened h sk A" and "A2 = now_ready h (client_told h i p ip sk A1)"
  shows "thread_opened sk A = Inr A1"
    and "sent_on sk A A1 = concat (map frame [id_message (my_ID A) (SIGNALING_PORT A), you_message (localize (s_ip so))])"
    and "\<exists>os. thread_received E sk (concat (map frame [id_message i p, you_message ip, ''CONNECTED''])) A1
        = Inr (said (os @ broadcast_sends A2 (host_list A2)) A2) \<and> (quiet A \<longrightarrow> os = [])"
    and "out A2 = out A1 @ [Send sk (frame ''CONNECTED'')]" and "linked A2 h sk"
proof -
  obtain k where k: "host_tab A h = Some k" "h_socket k = Some sk" and h: "h \<in> set (tl (hosts A))"
    using assms(1) by (auto simp: dialled_def split: option.splits)
  have wf: "mesh_wf A" "chans_live A" using assms(1) by (simp_all add: dialled_def)
  have so: "s_bLinebuffer so" "s_on_open so = OpenHost h" "s_cbRecv so = RecvHost h"
    using assms(1,2) by (simp_all add: dialled_def)
  have me: "hd (hosts A) \<noteq> h" using h wf(1) by (cases "hosts A") (auto simp: mesh_wf_def)
  show "thread_opened sk A = Inr A1" unfolding assms(7) using client_opens [OF k assms(2) so(2)] .
  show "sent_on sk A A1 = concat (map frame [id_message (my_ID A) (SIGNALING_PORT A), you_message (localize (s_ip so))])"
    using assms(2) by (simp add: assms(7) sent_on_def welcome_sends_def client_opened_def Let_def)
  let ?k = "k\<lparr>h_bConnecting := Some True\<rparr>" and ?At = "client_told h i p ip sk A1"
  let ?so = "so\<lparr>s_bStop := False, s_semConnected := Suc (s_semConnected so)\<rparr>"
  have A1: "A1 = A\<lparr>sock_tab := (sock_tab A)(sk \<mapsto> ?so), host_tab := (host_tab A)(h \<mapsto> ?k),
     out := out A @ welcome_sends A sk (s_ip so)\<rparr>"
    using k assms(2) by (simp add: assms(7) client_opened_def Let_def)
  have wf1: "mesh_wf A1" "chans_live A1"
    using wf k assms(2) by (auto simp: A1 mesh_wf_defs chans_live_def)
  have t: "host_tab A1 h = Some ?k" "h_socket ?k = Some sk" "h \<in> set (tl (hosts A1))"
      "sock_tab A1 sk = Some ?so" "\<not> s_bStop ?so" "s_bLinebuffer ?so" "s_cbRecv ?so = RecvHost h"
    using k h so by (simp_all add: A1)
  note told = client_completes [OF wf1 t assms(3-6)]
  have "h \<in> set (hosts ?At)" using h by (cases "hosts A") (auto simp: client_told_def Let_def A1)
  moreover have "quiet A \<Longrightarrow> quiet ?At" by (simp add: quiet_def client_told_def Let_def A1)
  ultimately show "\<exists>os. thread_received E sk (concat (map frame [id_message i p, you_message ip, ''CONNECTED''])) A1
        = Inr (said (os @ broadcast_sends A2 (host_list A2)) A2) \<and> (quiet A \<longrightarrow> os = [])"
    using on_receive_CONNECTED [OF told(2,3), where E = E] unfolding told(1) assms(8) by blast
  show "out A2 = out A1 @ [Send sk (frame ''CONNECTED'')]"
    by (simp add: assms(8) now_ready_def client_told_def Let_def)
  show "linked A2 h sk"
    using t me k by (simp add: assms(8) now_ready_def client_told_def Let_def linked_def A1)
qed

lemma server_turns:
  assumes "accepted B sk" and "sock_tab B sk = Some so" and "int32 i" and "int32 p" and "NUL \<notin> set ip" and "NL \<notin> set ip"
    and "mesh_find B (localize (s_ip so), p) = None" and "B1 = server_greeted sk p ip B" and "B2 = now_ready (next_addr B) B1"
  shows "thread_received E sk (concat (map frame [id_message i p, you_message ip])) B = Inr B1"
    and "sent_on sk B B1 = concat (map frame [id_message (my_ID B) (SIGNALING_PORT B), you_message (localize (s_ip so)), ''CONNECTED''])"
    and "\<exists>os. thread_received E sk (frame ''CONNECTED'') B1
        = Inr (said (os @ broadcast_sends B2 (host_list B2)) B2) \<and> (quiet B \<longrightarrow> os = [])"
    and "linked B2 (next_addr B) sk"
proof -
  have wf: "mesh_wf B" "chans_live B" using assms(1) by (simp_all add: accepted_def)
  have so: "s_bLinebuffer so" "\<not> s_bStop so" "s_cbRecv so = RecvIncoming"
    using assms(1,2) by (simp_all add: accepted_def)
  have me: "hd (hosts B) \<noteq> next_addr B"
    using mesh_wf_fresh(7) [OF wf(1)] hd_in_set [of "hosts B"] wf(1) by (metis mesh_wf_def)
  note greets = server_greets [OF wf(1) assms(2) so(2,1,3) assms(3-7)]
  show "thread_received E sk (concat (map frame [id_message i p, you_message ip])) B = Inr B1"
    unfolding assms(8) by (rule greets(1))
  show "sent_on sk B B1 = concat (map frame [id_message (my_ID B) (SIGNALING_PORT B), you_message (localize (s_ip so)), ''CONNECTED''])"
    using assms(2) by (simp add: assms(8) sent_on_def welcome_sends_def server_greeted_def Let_def)
  have wf1: "mesh_wf B1" "chans_live B1"
    using greets(2) wf(2) by (auto simp: assms(8) server_greeted_def Let_def chans_live_def less_SucI)
  have "next_addr B \<in> set (hosts B1)" by (simp add: assms(8) server_greeted_def Let_def)
  moreover have "quiet B \<Longrightarrow> quiet B1"
    using wf(1) by (simp add: quiet_def assms(8) server_greeted_def Let_def mesh_wf_def)
  moreover have t: "sock_tab B1 sk = Some (attached_sock (next_addr B) so)"
      "s_bLinebuffer (attached_sock (next_addr B) so)"
      "s_cbRecv (attached_sock (next_addr B) so) = RecvHost (next_addr B)"
      "\<not> s_bStop (attached_sock (next_addr B) so)"
    using assms(2) so by (simp_all add: assms(8) server_greeted_def Let_def attached_sock_def)
  ultimately show "\<exists>os. thread_received E sk (frame ''CONNECTED'') B1
        = Inr (said (os @ broadcast_sends B2 (host_list B2)) B2) \<and> (quiet B \<longrightarrow> os = [])"
    using on_receive_CONNECTED [OF wf1, where h = "next_addr B" and E = E]
    unfolding assms(9) server_completes [OF t(1-3)] by blast
  show "linked B2 (next_addr B) sk"
    using t me by (simp add: assms(9) now_ready_def linked_def)
      (simp add: assms(8) server_greeted_def Let_def accepted_host_def)
qed

text \<open>
  The whole exchange, with the states it passes through. What follows on the last message of each
  side are its announcements (none, if it publishes nothing) and its host list.
\<close>

lemma handshake_run:
  assumes "dialled A h skA" and "accepted B skB"
    and "sock_tab A skA = Some soA" and "sock_tab B skB = Some soB"
    and "mesh_find B (localize (s_ip soB), SIGNALING_PORT A) = None"
    and "A1 = client_opened h skA A"
    and "B1 = server_greeted skB (SIGNALING_PORT A) (localize (s_ip soA)) B"
    and "A2 = now_ready h (client_told h (my_ID B) (SIGNALING_PORT B) (localize (s_ip soB)) skA A1)"
    and "B2 = now_ready (next_addr B) B1"
  shows "thread_opened skA A = Inr A1"
    and "thread_received EB skB (sent_on skA A A1) B = Inr B1"
    and "\<exists>os. thread_received EA skA (sent_on skB B B1) A1
        = Inr (said (os @ broadcast_sends A2 (host_list A2)) A2) \<and> (quiet A \<longrightarrow> os = [])"
    and "\<exists>os. thread_received EB skB (frame ''CONNECTED'') B1
        = Inr (said (os @ broadcast_sends B2 (host_list B2)) B2) \<and> (quiet B \<longrightarrow> os = [])"
    and "out A2 = out A1 @ [Send skA (frame ''CONNECTED'')]"
    and "linked A2 h skA" and "linked B2 (next_addr B) skB"
proof -
  have int: "int32 (my_ID A)" "int32 (SIGNALING_PORT A)" "int32 (my_ID B)" "int32 (SIGNALING_PORT B)"
    using assms(1,2) by (simp_all add: dialled_def accepted_def)
  have ips: "NUL \<notin> set (localize (s_ip soA))" "NL \<notin> set (localize (s_ip soA))"
      "NUL \<notin> set (localize (s_ip soB))" "NL \<notin> set (localize (s_ip soB))"
    using assms(1-4) by (simp_all add: dialled_def accepted_def NUL_def NL_def)
  note A = client_turns [OF assms(1,3) int(3,4) ips(3,4) assms(6,8)]
  note B = server_turns [OF assms(2,4) int(1,2) ips(1,2) assms(5,7,9)]
  show "thread_opened skA A = Inr A1" by (rule A(1))
  show "thread_received EB skB (sent_on skA A A1) B = Inr B1" unfolding A(2) by (rule B(1))
  show "\<exists>os. thread_received EA skA (sent_on skB B B1) A1
        = Inr (said (os @ broadcast_sends A2 (host_list A2)) A2) \<and> (quiet A \<longrightarrow> os = [])"
    unfolding B(2) by (rule A(3))
  show "\<exists>os. thread_received EB skB (frame ''CONNECTED'') B1
        = Inr (said (os @ broadcast_sends B2 (host_list B2)) B2) \<and> (quiet B \<longrightarrow> os = [])" by (rule B(3))
  show "out A2 = out A1 @ [Send skA (frame ''CONNECTED'')]" by (rule A(4))
  show "linked A2 h skA" by (rule A(5))
  show "linked B2 (next_addr B) skB" by (rule B(4))
qed

text \<open>
  C7: the handshake. A process that dials another, and the one that accepted the connection,
  end up as ready hosts of each other: each learns the address the other sees it under, the
  dialling side the identifier and signaling port of its peer, the accepting side the signaling
  port of the caller, and messages from then on reach the handlers on both sides.
\<close>

theorem handshake:
  assumes "dialled A h skA" and "accepted B skB"
    and "sock_tab A skA = Some soA" and "sock_tab B skB = Some soB"
    and "mesh_find B (localize (s_ip soB), SIGNALING_PORT A) = None"
  shows "\<exists>A1 B1 A2 B2 hB rest kA kB. thread_opened skA A = Inr A1
    \<and> thread_received EB skB (sent_on skA A A1) B = Inr B1
    \<and> thread_received EA skA (sent_on skB B B1) A1 = Inr A2
    \<and> sent_on skA A1 A2 = frame ''CONNECTED'' @ rest
    \<and> thread_received EB skB (frame ''CONNECTED'') B1 = Inr B2
    \<and> linked A2 h skA \<and> linked B2 hB skB \<and> hB \<in> set (hosts B2)
    \<and> host_tab A2 h = Some kA \<and> h_id kA = my_ID B \<and> h_port kA = SIGNALING_PORT B
    \<and> host_tab B2 hB = Some kB \<and> h_ip kB = localize (s_ip soB) \<and> h_port kB = SIGNALING_PORT A
    \<and> my_ip A2 = Some (localize (s_ip soB)) \<and> my_ip B2 = Some (localize (s_ip soA))"
proof -
  let ?A1 = "client_opened h skA A"
  let ?B1 = "server_greeted skB (SIGNALING_PORT A) (localize (s_ip soA)) B"
  let ?At = "client_told h (my_ID B) (SIGNALING_PORT B) (localize (s_ip soB)) skA ?A1"
  let ?A2 = "now_ready h ?At" and ?B2 = "now_ready (next_addr B) ?B1"
  note run = handshake_run [OF assms refl refl refl refl]
  obtain oA where A2: "thread_received EA skA (sent_on skB B ?B1) ?A1 = Inr (said oA ?A2)"
    using run(3) [of EA] by blast
  obtain oB where B2: "thread_received EB skB (frame ''CONNECTED'') ?B1 = Inr (said oB ?B2)"
    using run(4) [of EB] by blast
  have wf: "mesh_wf A" "mesh_wf B" "h \<in> set (tl (hosts A))"
    using assms(1,2) by (simp_all add: dialled_def accepted_def)
  then have me: "hd (hosts A) \<noteq> h" "hd (hosts B) \<noteq> next_addr B" "hosts B \<noteq> []"
    using mesh_wf_fresh(7) [OF wf(2)] hd_in_set [of "hosts B"]
    by (cases "hosts A"; auto simp: mesh_wf_def)+
  have "sent_on skA ?A1 (said oA ?A2) = frame ''CONNECTED'' @ sent_bytes skA oA"
    by (rule trans [OF sent_on_eq [of _ _ "[Send skA (frame ''CONNECTED'')] @ oA"]]) (use run(5) in simp_all)
  moreover have "linked (said oA ?A2) h skA" "linked (said oB ?B2) (next_addr B) skB" using run(6,7) by simp_all
  moreover have "next_addr B \<in> set (hosts (said oB ?B2))"
    by (simp add: now_ready_def server_greeted_def Let_def)
  moreover obtain kA where "host_tab (said oA ?A2) h = Some kA" "h_id kA = my_ID B" "h_port kA = SIGNALING_PORT B"
    using me(1) not_sym [OF me(1)] by (simp add: now_ready_def client_told_def client_opened_def Let_def)
  moreover obtain kB where "host_tab (said oB ?B2) (next_addr B) = Some kB" "h_ip kB = localize (s_ip soB)"
      "h_port kB = SIGNALING_PORT A"
    using me(2) assms(4) by (auto simp: now_ready_def server_greeted_def accepted_host_def Let_def)
  moreover have "my_ip (said oA ?A2) = Some (localize (s_ip soB))" "my_ip (said oB ?B2) = Some (localize (s_ip soA))"
    using me by (simp_all add: my_ip_def now_ready_def client_told_def client_opened_def server_greeted_def Let_def)
  ultimately show ?thesis using run(1) run(2) [of EB] A2 B2 by blast
qed

end
