(* ===== verification/Gossip.thy ===== *)
theory Gossip
  imports Handshake
begin

text \<open>
  The mesh beyond one handshake: two processes that dial each other at the same time settle on one
  connection, the host lists the processes exchange merge their registries, and a peer can make the
  registry hold one address twice.
\<close>

section \<open>Simultaneous connections\<close>

text \<open>A host this process has dialled itself, with its own socket, and a second connection from it.\<close>

definition crossing :: "node \<Rightarrow> addr \<Rightarrow> addr \<Rightarrow> addr \<Rightarrow> int \<Rightarrow> bool" where
  "crossing n h old sk p \<longleftrightarrow> mesh_wf n \<and> old \<noteq> sk \<and> int32 (my_ID n)
     \<and> (case sock_tab n sk of None \<Rightarrow> False | Some so \<Rightarrow>
          \<not> s_bStop so \<and> mesh_find n (localize (s_ip so), p) = Some h)
     \<and> (case host_tab n h of None \<Rightarrow> False | Some k \<Rightarrow> \<not> h_bServer k \<and> h_socket k = Some old)"

text \<open>The link of a host, and whether a socket has been given up for good.\<close>

definition link_of :: "node \<Rightarrow> addr \<Rightarrow> addr option" where
  "link_of n h = Option.bind (host_tab n h) h_socket"

definition given_up :: "node \<Rightarrow> addr \<Rightarrow> bool" where
  "given_up n sk = (case sock_tab n sk of None \<Rightarrow> False | Some so \<Rightarrow>
     s_bStop so \<and> \<not> s_bReconnect so \<and> CloseFd sk \<in> set (out n))"

lemma crossing_resolved:
  assumes "crossing n h old sk p" and "int32 i" and "int32 p" and "i \<noteq> my_ID n"
  shows "\<exists>m. incoming_message sk (id_message i p) n = Inr m
    \<and> (if i > my_ID n then link_of m h = Some sk \<and> given_up m old
        else link_of m h = Some old \<and> given_up m sk)"
proof -
  obtain so k where so: "sock_tab n sk = Some so" "\<not> s_bStop so"
      "mesh_find n (localize (s_ip so), p) = Some h"
    and k: "host_tab n h = Some k" "\<not> h_bServer k" "h_socket k = Some old"
    and wf: "mesh_wf n" and ne: "old \<noteq> sk"
    using assms(1) by (auto simp: crossing_def split: option.splits)
  obtain oso where oso: "sock_tab n old = Some oso" using mesh_wf_link [OF wf k(1,3)] by blast
  have get: "get_host (localize (s_ip so)) p n = Inr (Some h)" using wf so(3) by (simp add: get_host_eq)
  show ?thesis
  proof (cases "i > my_ID n")
    case True
    then show ?thesis
      using so k oso ne get id_message_reads [OF assms(2,3)]
      by (simp add: incoming_message_def Let_def remove_listeners_def sock_close_def
          setSocket_result greets_def host_send_def sock_write_def sock_write_buf_def
          attached_sock_def link_of_def given_up_def)
  next
    case False
    then show ?thesis
      using so k oso ne get assms(4) id_message_reads [OF assms(2,3)]
      by (simp add: incoming_message_def Let_def sock_close_def link_of_def given_up_def)
  qed
qed

text \<open>
  C28: when two processes dial each other at the same time, the identifiers choose one of the two
  connections: the process with the smaller one gives up the socket it dialled with and adopts the
  connection of its peer, the other refuses the incoming connection and keeps its own.
\<close>

theorem simultaneous_connect:
  assumes "crossing A hB dA sA pB" and "crossing B hA dB sB pA" and "int32 pA" and "int32 pB"
    and "my_ID A < my_ID B"
  shows "\<exists>A' B'. incoming_message sA (id_message (my_ID B) pB) A = Inr A'
    \<and> incoming_message sB (id_message (my_ID A) pA) B = Inr B'
    \<and> link_of A' hB = Some sA \<and> given_up A' dA \<and> link_of B' hA = Some dB \<and> given_up B' sB"
proof -
  have "int32 (my_ID A)" "int32 (my_ID B)" using assms(1,2) by (simp_all add: crossing_def)
  then show ?thesis
    using crossing_resolved [OF assms(1), of "my_ID B"] crossing_resolved [OF assms(2), of "my_ID A"]
      assms(3-5) by auto
qed

section \<open>Gossip\<close>

lemma recv_loop_lines:
  assumes "drop i buf = concat (map line ms) @ [NUL]" and "\<forall>m\<in>set ms. wire_ok m"
  shows "recv_loop buf i = map RecvChunk ms"
  using assms
proof (induction ms arbitrary: i)
  case Nil
  then have "drop i buf = [] @ NUL # []" by simp
  from recv_loop_nth_delim [OF this] have "recv_loop buf i = recv_loop buf (Suc i)"
    by (simp add: is_delim_def)
  moreover have "length buf = Suc i" using arg_cong [OF Nil(1), of length] by simp
  ultimately show ?case by (simp add: recv_loop.simps [of buf "Suc i"])
next
  case (Cons m ms)
  have m: "wire_ok m" using Cons.prems(2) by simp
  then have d: "drop i buf = m @ NL # (concat (map line ms) @ [NUL])"
    using Cons.prems(1) by (simp add: line_def [of m])
  have "drop (length m + 1) (drop i buf) = concat (map line ms) @ [NUL]" by (subst d) simp
  then have "recv_loop buf (i + Suc (length m)) = map RecvChunk ms"
    using Cons.prems(2) by (intro Cons.IH) (simp_all add: add.commute)
  moreover have "m \<noteq> []" using m by (simp add: wire_ok_def)
  moreover have "\<forall>c\<in>set m. \<not> is_delim c" using wire_ok_no_delim [OF m] by blast
  ultimately show ?case using recv_loop_nth_delim [OF d] by (simp add: is_delim_def)
qed

text \<open>A registry entry that survives being printed.\<close>

definition printable :: "host \<Rightarrow> bool" where
  "printable k \<longleftrightarrow> CHR '':'' \<notin> set (h_ip k) \<and> NUL \<notin> set (h_ip k) \<and> NL \<notin> set (h_ip k) \<and> int32 (h_port k)"

definition host_entry :: "host \<Rightarrow> string" where
  "host_entry k = ''Host='' @ h_ip k @ '':'' @ show_int (h_port k)"

lemma host_line_eq: "host_line k = line (host_entry k)"
  by (simp add: host_line_def line_def host_entry_def)

lemma host_entry_wire [simp]: "printable k \<Longrightarrow> wire_ok (host_entry k)"
  by (auto simp: printable_def wire_ok_def host_entry_def NUL_def NL_def)

lemma host_entry_parse:
  assumes "printable k"
  shows "str_before (str_after (host_entry k) ''='') '':'' = h_ip k"
    "atoi (str_after (str_after (host_entry k) ''='') '':'') = h_port k"
proof -
  have "str_after (host_entry k) ''='' = h_ip k @ CHR '':'' # show_int (h_port k)"
    using str_after_char [of "CHR ''=''" "''Host''" "h_ip k @ CHR '':'' # show_int (h_port k)"]
    by (simp add: host_entry_def)
  then show "str_before (str_after (host_entry k) ''='') '':'' = h_ip k"
    "atoi (str_after (str_after (host_entry k) ''='') '':'') = h_port k"
    using assms by (simp_all add: printable_def)
qed

lemma on_receive_Host:
  assumes "linked n h sk" and "bInited n" and "printable k"
  shows "on_receive E h (host_entry k) n = add_host_key E (h_ip k, h_port k) n"
  using assms(1)
proof (rule linkedE)
  fix hk assume "host_tab n h = Some hk" "h_bReady hk"
  with assms(2) host_entry_parse [OF assms(3)] show ?thesis
    by (simp add: on_receive_def Let_def add_host_def add_host_key_def init_def)
       (simp add: host_entry_def)
qed


lemma gossip_loop:
  assumes "linked n h sk" and "mesh_wf n" and "bInited n" and "\<forall>k\<in>set ks. printable k"
    and "\<forall>k\<in>set ks. resolves E (c_str (h_ip k))" and "can_socket E"
  shows "\<exists>m. foldE (dispatch_event E sk) (map (\<lambda>k. RecvChunk (host_entry k)) ks) n = Inr m
    \<and> foldE (add_host_key E) (map (\<lambda>k. (h_ip k, h_port k)) ks) n = Inr m"
  using assms
proof (induction ks arbitrary: n)
  case (Cons k ks)
  obtain so where so: "sock_tab n sk = Some so" "s_cbRecv so = RecvHost h"
    using Cons.prems(1) by (rule linkedE)
  let ?key = "(h_ip k, h_port k)"
  have step: "dispatch_event E sk (RecvChunk (host_entry k)) n = add_host_key E ?key n"
    using on_receive_Host [OF Cons.prems(1,3)] Cons.prems(4) dispatch_host [OF so] by simp
  obtain u where u: "add_host_key E ?key n = Inr u" "linked u h sk" "bInited u"
  proof (cases "mesh_find n ?key")
    case None
    have key: "add_host_key E ?key n = Inr (n\<lparr>
     hosts := hosts n @ [next_addr n],
     host_tab := (host_tab n)(next_addr n \<mapsto> connecting_host (h_ip k) (h_port k) (Suc (next_addr n))),
     sock_tab := (sock_tab n)(Suc (next_addr n) \<mapsto> connecting_sock (h_ip k) (h_port k) (next_addr n)),
     next_addr := Suc (Suc (next_addr n)),
     out := out n @ [Connect (Suc (next_addr n)) (c_str (h_ip k)) (h_port k)]\<rparr>)"
      using Cons.prems(2,5,6) None Host_connect_result [OF Cons.prems(2), of E "h_ip k" "h_port k"]
      by (simp add: add_host_key_def add_host_inited_cases)
    have "h < next_addr n" "sk < next_addr n"
      using Cons.prems(1,2) by (auto simp: linked_def mesh_wf_defs not_le [symmetric] split: option.splits)
    then show ?thesis using Cons.prems(1,3) by (intro that [OF key]) (auto simp: linked_def split: option.splits)
  next
    case (Some a)
    then show ?thesis
      using Cons.prems(1,3) mesh_registry.add_present [OF Cons.prems(2), of ?key E]
      by (intro that) simp_all
  qed
  have "mesh_wf u" using Cons.prems(2) u(1) by (rule mesh_registry.add_inv)
  from Cons.IH [OF u(2) this u(3)] Cons.prems(4-6) show ?case by (simp add: step u(1))
qed simp

text \<open>The addresses of the ready hosts, which is what a process tells its peers.\<close>

definition ready_hosts :: "node \<Rightarrow> host list" where
  "ready_hosts n = map (\<lambda>h. the (host_tab n h)) (filter (host_ready n) (hosts n))"

definition known_keys :: "node \<Rightarrow> (string \<times> int) set" where
  "known_keys n = {key. mesh_find n key \<noteq> None}"

lemma host_list_received:
  assumes "linked B h sk" and "mesh_wf B" and "bInited B"
    and "list_all printable (ready_hosts A)"
    and "list_all (\<lambda>k. resolves EB (c_str (h_ip k))) (ready_hosts A)" and "can_socket EB"
  shows "\<exists>B'. thread_received EB sk (frame (host_list A)) B = Inr B'
    \<and> foldE (add_host_key EB) (map (\<lambda>k. (h_ip k, h_port k)) (ready_hosts A)) B = Inr B'"
proof -
  let ?ks = "ready_hosts A"
  have ok: "\<forall>k\<in>set ?ks. printable k" "\<forall>k\<in>set ?ks. resolves EB (c_str (h_ip k))"
    using assms(4,5) by (simp_all add: list_all_iff)
  have msg: "host_list A = concat (map line (map host_entry ?ks))"
    by (simp add: host_list_def ready_hosts_def host_line_eq comp_def)
  have wire: "\<forall>m\<in>set (map host_entry ?ks). wire_ok m" using ok(1) by simp
  then have "NUL \<notin> set (host_list A)" unfolding msg by (auto simp: line_def wire_ok_def NUL_def NL_def)
  then have "frame (host_list A) = concat (map line (map host_entry ?ks)) @ [NUL]"
    unfolding msg by (simp add: frame_def)
  then have "recv_loop (frame (host_list A)) 0 = map RecvChunk (map host_entry ?ks)"
    using wire by (intro recv_loop_lines) simp_all
  then have run: "thread_received EB sk (frame (host_list A)) B
      = foldE (dispatch_event EB sk) (map (\<lambda>k. RecvChunk (host_entry k)) ?ks) B"
    using assms(1) by (auto elim!: linkedE simp: thread_received_def comp_def)
  then show ?thesis using gossip_loop [OF assms(1-3) ok assms(6)] by auto
qed

text \<open>
  C10: gossip. The host list a process broadcasts makes a peer that receives it on a ready link
  know exactly the addresses it knew and those of the sender's ready hosts, in a well-formed mesh
  whose old entries are unchanged.
\<close>

theorem gossip_merges_hosts:
  assumes "mesh_wf A" and "linked B h sk" and "mesh_wf B" and "bInited B"
    and "list_all printable (ready_hosts A)"
    and "list_all (\<lambda>k. resolves EB (c_str (h_ip k))) (ready_hosts A)" and "can_socket EB"
  shows "\<exists>msg B'. broadcast_hosts A = Inr (A\<lparr>out := out A @ broadcast_sends A msg\<rparr>)
    \<and> thread_received EB sk (frame msg) B = Inr B' \<and> mesh_wf B'
    \<and> known_keys B' = known_keys B \<union> (\<lambda>k. (h_ip k, h_port k)) ` set (ready_hosts A)
    \<and> {(k, a). mesh_find B k = Some a} \<subseteq> {(k, a). mesh_find B' k = Some a}"
proof -
  obtain B' where B': "thread_received EB sk (frame (host_list A)) B = Inr B'"
      "foldE (add_host_key EB) (map (\<lambda>k. (h_ip k, h_port k)) (ready_hosts A)) B = Inr B'"
    using host_list_received [OF assms(2-7)] by blast
  show ?thesis
    using broadcast_hosts_result [OF assms(1)] B'(1) mesh_registry.add_all [OF assms(3) B'(2)]
      mesh_registry.add_all_keeps [OF assms(3) B'(2)]
    by (intro exI [of _ "host_list A"] exI [of _ B']) (auto simp: known_keys_def host_list_def)
qed

section \<open>An address the registry holds twice\<close>

text \<open>
  The port a peer announces is stored without looking at the registry: a peer that announces
  the port of another host with its address leaves two entries under one key.
\<close>

theorem id_message_duplicates_key:
  assumes "linked n h sk" and "h \<in> set (hosts n)" and "h' \<in> set (hosts n)" and "h \<noteq> h'"
    and "host_key n h' = Some (ip, p)" and "map_option h_ip (host_tab n h) = Some ip"
    and "int32 i" and "int32 p"
  shows "\<exists>m. on_receive E h (id_message i p) n = Inr m \<and> \<not> keys_unique m"
proof -
  obtain k so where k: "host_tab n h = Some k" "h_socket k = Some sk" "sock_tab n sk = Some so" "\<not> s_bStop so"
    using assms(1) by (rule linkedE)
  let ?m = "n\<lparr>host_tab := (host_tab n)(h \<mapsto> k\<lparr>h_id := i, h_port := p\<rparr>),
     out := out n @ [Send sk (frame ''CONNECTED'')]\<rparr>"
  have "host_key ?m h = Some (ip, p)" "host_key ?m h' = Some (ip, p)"
    using assms(4-6) k by (simp_all add: host_key_def)
  then have "\<not> inj_on (host_key ?m) (set (hosts ?m))"
    using assms(2-4) inj_onD [of "host_key ?m" "set (hosts ?m)" h h'] by fastforce
  then have "\<not> keys_unique ?m" by (simp add: keys_unique_def distinct_map)
  with on_receive_ID [OF k assms(7,8)] show ?thesis by blast
qed

end
