(* ===== verification/Invariant.thy ===== *)
theory Invariant
  imports Delivery Gossip
begin

text \<open>
  The invariant of the process: whatever events it handles, the registry keeps its loopback entry
  and its entries stay distinct and alive, and no host, channel, server or socket that anything
  still refers to is ever missing. Only subscriptions are deleted, and no channel lists a deleted
  one. Each operation is shown to keep the invariant; the step relation then keeps it in every
  reachable state.
\<close>

section \<open>References that must not dangle\<close>

text \<open>Besides, no server stops before the process exits.\<close>

fun open_ok :: "node \<Rightarrow> open_cb \<Rightarrow> bool" where
  "open_ok n (OpenHost h) = (host_tab n h \<noteq> None)"
| "open_ok n _ = True"

fun close_ok :: "node \<Rightarrow> close_cb \<Rightarrow> bool" where
  "close_ok n (CloseHost h) = (host_tab n h \<noteq> None)"
| "close_ok n (CloseAccepted v cb) = (server_tab n v \<noteq> None \<and> close_ok n cb)"
| "close_ok n _ = True"

fun recv_ok :: "node \<Rightarrow> recv_cb \<Rightarrow> bool" where
  "recv_ok n (RecvHost h) = (host_tab n h \<noteq> None)"
| "recv_ok n (RecvChannel c) = (chan_tab n c \<noteq> None)"
| "recv_ok n _ = True"

fun accept_ok :: "node \<Rightarrow> accept_cb \<Rightarrow> bool" where
  "accept_ok n (AcceptSubscriptor c h) = (chan_tab n c \<noteq> None \<and> host_tab n h \<noteq> None)"
| "accept_ok n _ = True"

definition sock_ok :: "node \<Rightarrow> socket \<Rightarrow> bool" where
  "sock_ok n so \<longleftrightarrow> open_ok n (s_on_open so) \<and> close_ok n (s_on_close so) \<and> recv_ok n (s_cbRecv so)"

definition srv_ok :: "node \<Rightarrow> server \<Rightarrow> bool" where
  "srv_ok n sv \<longleftrightarrow> \<not> srv_bStop sv \<and> accept_ok n (srv_on_open sv)
     \<and> (\<forall>s\<in>set (srv_connections sv). sock_tab n s \<noteq> None)"

definition chan_ok :: "node \<Rightarrow> addr \<Rightarrow> channel \<Rightarrow> bool" where
  "chan_ok n c k \<longleftrightarrow> (\<forall>p. c_publisher k = Some p \<longrightarrow> host_tab n p \<noteq> None)
     \<and> (\<forall>v. c_server k = Some v \<longrightarrow> server_tab n v \<noteq> None)
     \<and> (\<forall>s\<in>set (c_subscriptions k) \<union> set (c_subscriptors k).
          \<exists>sk. sub_tab n s = Some sk \<and> sub_channel sk = c)"

definition sub_ok :: "node \<Rightarrow> subscription \<Rightarrow> bool" where
  "sub_ok n k \<longleftrightarrow> chan_tab n (sub_channel k) \<noteq> None \<and> host_tab n (sub_host k) \<noteq> None
     \<and> (\<forall>s. sub_socket k = Some s \<longrightarrow> sock_tab n s \<noteq> None) \<and> sub_size k = 0"

definition node_wf :: "node \<Rightarrow> bool" where
  "node_wf n \<longleftrightarrow> bInited n \<and> mesh_wf n \<and> (\<forall>c\<in>set (channels n). chan_tab n c \<noteq> None)
     \<and> (\<forall>c k. chan_tab n c = Some k \<longrightarrow> chan_ok n c k)
     \<and> (\<forall>s k. sub_tab n s = Some k \<longrightarrow> sub_ok n k)
     \<and> (\<forall>s so. sock_tab n s = Some so \<longrightarrow> sock_ok n so)
     \<and> (\<forall>v sv. server_tab n v = Some sv \<longrightarrow> srv_ok n sv)"

text \<open>Objects other than subscriptions are never deleted, and the loopback host stays the first.\<close>

definition grows :: "node \<Rightarrow> node \<Rightarrow> bool" where
  "grows n m \<longleftrightarrow> dom (host_tab n) \<subseteq> dom (host_tab m) \<and> dom (sock_tab n) \<subseteq> dom (sock_tab m)
     \<and> dom (server_tab n) \<subseteq> dom (server_tab m) \<and> dom (chan_tab n) \<subseteq> dom (chan_tab m)
     \<and> (\<exists>hs. hosts m = hosts n @ hs)"

lemma grows_refl [simp]: "grows n n"
  by (simp add: grows_def)

lemma grows_trans [trans]: "grows n m \<Longrightarrow> grows m u \<Longrightarrow> grows n u"
  unfolding grows_def by (elim conjE exE, intro conjI) (erule (1) subset_trans | simp)+

lemma growsD:
  assumes "grows n m"
  shows "host_tab n a \<noteq> None \<Longrightarrow> host_tab m a \<noteq> None" "sock_tab n a \<noteq> None \<Longrightarrow> sock_tab m a \<noteq> None"
    "server_tab n a \<noteq> None \<Longrightarrow> server_tab m a \<noteq> None" "chan_tab n a \<noteq> None \<Longrightarrow> chan_tab m a \<noteq> None"
  using assms by (auto simp: grows_def)

lemma open_ok_grows: "grows n m \<Longrightarrow> open_ok n cb \<Longrightarrow> open_ok m cb"
  by (cases cb) (auto simp: growsD)

lemma close_ok_grows: "grows n m \<Longrightarrow> close_ok n cb \<Longrightarrow> close_ok m cb"
  by (induction cb) (auto simp: growsD)

lemma recv_ok_grows: "grows n m \<Longrightarrow> recv_ok n cb \<Longrightarrow> recv_ok m cb"
  by (cases cb) (auto simp: growsD)

lemma accept_ok_grows: "grows n m \<Longrightarrow> accept_ok n cb \<Longrightarrow> accept_ok m cb"
  by (cases cb) (auto simp: growsD)

lemma sock_ok_grows: "grows n m \<Longrightarrow> sock_ok n so \<Longrightarrow> sock_ok m so"
  by (simp add: sock_ok_def open_ok_grows close_ok_grows recv_ok_grows)

lemma srv_ok_grows: "grows n m \<Longrightarrow> srv_ok n sv \<Longrightarrow> srv_ok m sv"
  by (simp add: srv_ok_def accept_ok_grows growsD)

lemma sub_ok_grows: "grows n m \<Longrightarrow> sub_ok n k \<Longrightarrow> sub_ok m k"
  by (simp add: sub_ok_def growsD)

text \<open>Subscriptions are still there, on their channels.\<close>

definition subs_kept :: "node \<Rightarrow> node \<Rightarrow> bool" where
  "subs_kept n m \<longleftrightarrow> (\<forall>s k. sub_tab n s = Some k \<longrightarrow>
     (\<exists>k'. sub_tab m s = Some k' \<and> sub_channel k' = sub_channel k))"

lemma chan_ok_grows:
  assumes "grows n m" and "subs_kept n m" and "chan_ok n c k"
  shows "chan_ok m c k"
proof -
  have "\<exists>sk. sub_tab m s = Some sk \<and> sub_channel sk = c"
    if "s \<in> set (c_subscriptions k) \<union> set (c_subscriptors k)" for s
    using that assms(2,3) unfolding chan_ok_def subs_kept_def by metis
  moreover have "host_tab m p \<noteq> None" if "c_publisher k = Some p" for p
    using that assms(3) growsD(1) [OF assms(1), of p] by (simp add: chan_ok_def)
  moreover have "server_tab m v \<noteq> None" if "c_server k = Some v" for v
    using that assms(3) growsD(3) [OF assms(1), of v] by (simp add: chan_ok_def)
  ultimately show ?thesis by (simp add: chan_ok_def)
qed

text \<open>
  The way every update is justified: the new state is larger, its mesh is well formed, and each
  object is an old one or is all right.
\<close>

lemma node_wf_step:
  assumes "node_wf n" and "mesh_wf m" and "bInited m = bInited n" and "grows n m" and "subs_kept n m"
    and "\<And>c. c \<in> set (channels m) \<Longrightarrow> c \<in> set (channels n) \<or> chan_tab m c \<noteq> None"
    and "\<And>c k. chan_tab m c = Some k \<Longrightarrow> chan_tab n c = Some k \<or> chan_ok m c k"
    and "\<And>s k. sub_tab m s = Some k \<Longrightarrow> sub_tab n s = Some k \<or> sub_ok m k"
    and "\<And>s so. sock_tab m s = Some so \<Longrightarrow> sock_tab n s = Some so \<or> sock_ok m so"
    and "\<And>v sv. server_tab m v = Some sv \<Longrightarrow> server_tab n v = Some sv \<or> srv_ok m sv"
  shows "node_wf m"
  unfolding node_wf_def
proof (intro conjI ballI allI impI)
  show "chan_tab m c \<noteq> None" if "c \<in> set (channels m)" for c
    using assms(6) [OF that] assms(1) growsD(4) [OF assms(4)] by (auto simp: node_wf_def)
  show "chan_ok m c k" if "chan_tab m c = Some k" for c k
    using assms(7) [OF that] assms(1) chan_ok_grows [OF assms(4,5)] by (auto simp: node_wf_def)
  show "sub_ok m k" if "sub_tab m s = Some k" for s k
    using assms(8) [OF that] assms(1) sub_ok_grows [OF assms(4)] by (auto simp: node_wf_def)
  show "sock_ok m so" if "sock_tab m s = Some so" for s so
    using assms(9) [OF that] assms(1) sock_ok_grows [OF assms(4)] by (auto simp: node_wf_def)
  show "srv_ok m sv" if "server_tab m v = Some sv" for v sv
    using assms(10) [OF that] assms(1) srv_ok_grows [OF assms(4)] by (auto simp: node_wf_def)
qed (use assms(1-3) in \<open>simp_all add: node_wf_def\<close>)

lemma node_wfD:
  assumes "node_wf n"
  shows "mesh_wf n" "bInited n" "c \<in> set (channels n) \<Longrightarrow> chan_tab n c \<noteq> None"
    "chan_tab n c = Some k \<Longrightarrow> chan_ok n c k" "sub_tab n s = Some b \<Longrightarrow> sub_ok n b"
    "sock_tab n s = Some so \<Longrightarrow> sock_ok n so" "server_tab n v = Some sv \<Longrightarrow> srv_ok n sv"
  using assms by (simp_all add: node_wf_def)

text \<open>What an operation does to a well-formed process.\<close>

definition evolves :: "node \<Rightarrow> node \<Rightarrow> bool" where
  "evolves n m \<longleftrightarrow> node_wf m \<and> grows n m"

lemma evolvesD [dest]: "evolves n m \<Longrightarrow> node_wf m" "evolves n m \<Longrightarrow> grows n m"
  by (simp_all add: evolves_def)

lemma evolves_refl [simp]: "evolves n n = node_wf n"
  by (simp add: evolves_def)

lemma evolves_trans [trans]: "evolves n m \<Longrightarrow> evolves m u \<Longrightarrow> evolves n u"
  by (auto simp: evolves_def intro: grows_trans)

section \<open>The primitive updates\<close>

lemma fresh_above_dom: "fresh_above n \<longleftrightarrow> (\<forall>a\<in>dom (host_tab n) \<union> dom (sock_tab n) \<union> dom (server_tab n)
    \<union> dom (chan_tab n) \<union> dom (sub_tab n). a < next_addr n)"
  by (auto simp: fresh_above_def not_le [symmetric] dom_def)

lemma evolves_step:
  assumes "node_wf n" and "mesh_wf m" and "bInited m = bInited n" and "grows n m" and "subs_kept n m"
    and "\<And>c. c \<in> set (channels m) \<Longrightarrow> c \<in> set (channels n) \<or> chan_tab m c \<noteq> None"
    and "\<And>c k. chan_tab m c = Some k \<Longrightarrow> chan_tab n c = Some k \<or> chan_ok m c k"
    and "\<And>s k. sub_tab m s = Some k \<Longrightarrow> sub_tab n s = Some k \<or> sub_ok m k"
    and "\<And>s so. sock_tab m s = Some so \<Longrightarrow> sock_tab n s = Some so \<or> sock_ok m so"
    and "\<And>v sv. server_tab m v = Some sv \<Longrightarrow> server_tab n v = Some sv \<or> srv_ok m sv"
  shows "evolves n m"
  using node_wf_step [OF assms] assms(4) by (simp add: evolves_def)

lemma evolves_out [simp]: "node_wf n \<Longrightarrow> evolves n (n\<lparr>out := x\<rparr>)"
  by (rule evolves_step [of n]) (simp_all add: node_wfD grows_def subs_kept_def)

lemma evolves_put_host:
  assumes "node_wf n" and "host_tab n h = Some k" and "\<And>s. h_socket k' = Some s \<Longrightarrow> sock_tab n s \<noteq> None"
  shows "evolves n (n\<lparr>host_tab := (host_tab n)(h \<mapsto> k')\<rparr>)"
proof (rule evolves_step [OF assms(1)])
  show "mesh_wf (n\<lparr>host_tab := (host_tab n)(h \<mapsto> k')\<rparr>)"
    using node_wfD(1) [OF assms(1)] assms(2,3) by (auto simp: mesh_wf_defs)
qed (simp_all add: grows_def subs_kept_def subset_insertI)

lemma evolves_put_sock:
  assumes "node_wf n" and "sock_tab n s = Some so" and "sock_ok n so'"
  shows "evolves n (n\<lparr>sock_tab := (sock_tab n)(s \<mapsto> so')\<rparr>)" (is "evolves n ?m")
proof -
  have g: "grows n ?m" by (simp add: grows_def subset_insertI)
  have "mesh_wf ?m" using node_wfD(1) [OF assms(1)] assms(2) by (auto simp: mesh_wf_defs)
  then show ?thesis
    using g sock_ok_grows [OF g assms(3)]
    by (intro evolves_step [OF assms(1)]) (simp_all add: subs_kept_def split: if_splits)
qed

lemma evolves_put_server:
  assumes "node_wf n" and "server_tab n v = Some sv" and "srv_ok n sv'"
  shows "evolves n (n\<lparr>server_tab := (server_tab n)(v \<mapsto> sv')\<rparr>)" (is "evolves n ?m")
proof -
  have g: "grows n ?m" by (simp add: grows_def subset_insertI)
  have "mesh_wf ?m" using node_wfD(1) [OF assms(1)] assms(2) by (auto simp: mesh_wf_defs)
  then show ?thesis
    using g srv_ok_grows [OF g assms(3)]
    by (intro evolves_step [OF assms(1)]) (simp_all add: subs_kept_def split: if_splits)
qed

lemma evolves_put_chan:
  assumes "node_wf n" and "chan_tab n c = Some k" and "chan_ok n c k'"
  shows "evolves n (n\<lparr>chan_tab := (chan_tab n)(c \<mapsto> k')\<rparr>)" (is "evolves n ?m")
proof -
  have g: "grows n ?m" and s: "subs_kept n ?m" by (simp_all add: grows_def subs_kept_def subset_insertI)
  have "mesh_wf ?m" using node_wfD(1) [OF assms(1)] assms(2) by (auto simp: mesh_wf_defs)
  then show ?thesis
    using g s chan_ok_grows [OF g s assms(3)]
    by (intro evolves_step [OF assms(1)]) (simp_all split: if_splits)
qed

lemma evolves_put_sub:
  assumes "node_wf n" and "sub_tab n s = Some k" and "sub_ok n k'" and "sub_channel k' = sub_channel k"
  shows "evolves n (n\<lparr>sub_tab := (sub_tab n)(s \<mapsto> k')\<rparr>)" (is "evolves n ?m")
proof -
  have g: "grows n ?m" and s: "subs_kept n ?m" using assms(2,4) by (simp_all add: grows_def subs_kept_def)
  have "mesh_wf ?m" using node_wfD(1) [OF assms(1)] assms(2) by (auto simp: mesh_wf_defs)
  then show ?thesis
    using g s sub_ok_grows [OF g assms(3)]
    by (intro evolves_step [OF assms(1)]) (simp_all split: if_splits)
qed

section \<open>Allocation, registration and deletion\<close>

lemma evolves_alloc_host:
  assumes "node_wf n" and "\<And>s. h_socket k = Some s \<Longrightarrow> sock_tab n s \<noteq> None"
  shows "evolves n (n\<lparr>next_addr := Suc (next_addr n), host_tab := (host_tab n)(next_addr n \<mapsto> k)\<rparr>)"
proof (rule evolves_step [OF assms(1)])
  show "mesh_wf (n\<lparr>next_addr := Suc (next_addr n), host_tab := (host_tab n)(next_addr n \<mapsto> k)\<rparr>)"
    using node_wfD(1) [OF assms(1)] assms(2) by (auto simp: mesh_wf_defs)
qed (simp_all add: grows_def subs_kept_def subset_insertI)

lemma evolves_alloc_sock:
  assumes "node_wf n" and "sock_ok n so"
  shows "evolves n (n\<lparr>next_addr := Suc (next_addr n), sock_tab := (sock_tab n)(next_addr n \<mapsto> so)\<rparr>)"
    (is "evolves n ?m")
proof -
  have g: "grows n ?m" by (simp add: grows_def subset_insertI)
  have "mesh_wf ?m" using node_wfD(1) [OF assms(1)] by (auto simp: mesh_wf_defs)
  then show ?thesis
    using g sock_ok_grows [OF g assms(2)]
    by (intro evolves_step [OF assms(1)]) (simp_all add: subs_kept_def split: if_splits)
qed

lemma evolves_alloc_server:
  assumes "node_wf n" and "srv_ok n sv"
  shows "evolves n (n\<lparr>next_addr := Suc (next_addr n), server_tab := (server_tab n)(next_addr n \<mapsto> sv)\<rparr>)"
    (is "evolves n ?m")
proof -
  have g: "grows n ?m" by (simp add: grows_def subset_insertI)
  have "mesh_wf ?m" using node_wfD(1) [OF assms(1)] by (auto simp: mesh_wf_defs)
  then show ?thesis
    using g srv_ok_grows [OF g assms(2)]
    by (intro evolves_step [OF assms(1)]) (simp_all add: subs_kept_def split: if_splits)
qed

lemma evolves_alloc_sub:
  assumes "node_wf n" and "sub_ok n k"
  shows "evolves n (n\<lparr>next_addr := Suc (next_addr n), sub_tab := (sub_tab n)(next_addr n \<mapsto> k)\<rparr>)"
    (is "evolves n ?m")
proof -
  have g: "grows n ?m" and s: "subs_kept n ?m"
    using mesh_wf_fresh(5) [OF node_wfD(1) [OF assms(1)]] by (auto simp: grows_def subs_kept_def)
  have "mesh_wf ?m" using node_wfD(1) [OF assms(1)] by (auto simp: mesh_wf_defs)
  then show ?thesis
    using g s sub_ok_grows [OF g assms(2)]
    by (intro evolves_step [OF assms(1)]) (simp_all split: if_splits)
qed

lemma evolves_ChannelImpl_ctor:
  assumes "node_wf n" and "ChannelImpl_ctor name n = (c, m)"
  shows "evolves n m \<and> chan_tab m c \<noteq> None"
proof -
  have c: "c = next_addr n" and m: "m = n\<lparr>next_addr := Suc c, chan_tab := (chan_tab n)(c \<mapsto> new_channel name),
      channels := channels n @ [c]\<rparr>"
    using assms(2) by (auto simp: ChannelImpl_ctor_def)
  have g: "grows n m" and s: "subs_kept n m" by (simp_all add: m grows_def subs_kept_def subset_insertI)
  have "mesh_wf m" using node_wfD(1) [OF assms(1)] by (auto simp: m c mesh_wf_defs)
  then have "evolves n m"
    using g s node_wfD(3) [OF assms(1)]
    by (intro evolves_step [OF assms(1)]) (auto simp: m chan_ok_def new_channel_def split: if_splits)
  then show ?thesis by (simp add: m)
qed

lemma evolves_push_host:
  assumes "node_wf n" and "host_tab n h \<noteq> None" and "h \<notin> set (hosts n)"
  shows "evolves n (n\<lparr>hosts := hosts n @ [h]\<rparr>)"
proof (rule evolves_step [OF assms(1)])
  show "mesh_wf (n\<lparr>hosts := hosts n @ [h]\<rparr>)"
    using node_wfD(1) [OF assms(1)] assms(2,3) by (auto simp: mesh_wf_defs)
qed (simp_all add: grows_def subs_kept_def)

text \<open>Deleting a subscription that no channel lists.\<close>

lemma evolves_del_sub:
  assumes "node_wf n" and "\<forall>c k. chan_tab n c = Some k \<longrightarrow> s \<notin> set (c_subscriptions k) \<union> set (c_subscriptors k)"
  shows "evolves n (n\<lparr>sub_tab := (sub_tab n)(s := None)\<rparr>)" (is "evolves n ?m")
proof -
  have g: "grows n ?m" by (simp add: grows_def)
  have chan: "chan_ok ?m c k" if k: "chan_tab n c = Some k" for c k
  proof -
    have "chan_ok n c k" "s \<notin> set (c_subscriptions k) \<union> set (c_subscriptors k)"
      using k assms node_wfD(4) by blast+
    then show ?thesis by (auto simp: chan_ok_def)
  qed
  have "node_wf ?m"
    unfolding node_wf_def
  proof (intro conjI ballI allI impI)
    show "bInited ?m" using node_wfD(2) [OF assms(1)] by simp
    show "mesh_wf ?m" using node_wfD(1) [OF assms(1)] by (auto simp: mesh_wf_defs)
    show "chan_tab ?m c \<noteq> None" if "c \<in> set (channels ?m)" for c
      using that node_wfD(3) [OF assms(1)] by simp
    show "chan_ok ?m c k" if "chan_tab ?m c = Some k" for c k using that chan by simp
    show "sub_ok ?m k" if "sub_tab ?m t = Some k" for t k
      using that node_wfD(5) [OF assms(1), of t k] sub_ok_grows [OF g] by (simp split: if_splits)
    show "sock_ok ?m so" if "sock_tab ?m t = Some so" for t so
      using that node_wfD(6) [OF assms(1), of t so] sock_ok_grows [OF g] by simp
    show "srv_ok ?m sv" if "server_tab ?m v = Some sv" for v sv
      using that node_wfD(7) [OF assms(1), of v sv] srv_ok_grows [OF g] by simp
  qed
  with g show ?thesis by (simp add: evolves_def)
qed

section \<open>Updates that name what they change\<close>

lemma evolves_upd_host:
  assumes "node_wf n" and "upd_host h f n = Inr m"
    and "\<And>k s. host_tab n h = Some k \<Longrightarrow> h_socket (f k) = Some s \<Longrightarrow> h_socket k = Some s \<or> sock_tab n s \<noteq> None"
  shows "evolves n m"
proof -
  obtain k where k: "host_tab n h = Some k" "m = n\<lparr>host_tab := (host_tab n)(h \<mapsto> f k)\<rparr>"
    using assms(2) by (auto simp: upd_Inr_iff)
  have "sock_tab n s \<noteq> None" if "h_socket (f k) = Some s" for s
    using assms(3) [OF k(1) that] mesh_wf_link [OF node_wfD(1) [OF assms(1)] k(1), of s] by auto
  then show ?thesis unfolding k(2) by (rule evolves_put_host [OF assms(1) k(1)])
qed

lemma evolves_upd_sock:
  assumes "node_wf n" and "upd_sock s f n = Inr m" and "\<And>so. sock_ok n so \<Longrightarrow> sock_ok n (f so)"
  shows "evolves n m"
proof -
  obtain so where so: "sock_tab n s = Some so" "m = n\<lparr>sock_tab := (sock_tab n)(s \<mapsto> f so)\<rparr>"
    using assms(2) by (auto simp: upd_Inr_iff)
  show ?thesis
    unfolding so(2) by (rule evolves_put_sock [OF assms(1) so(1)]) (rule assms(3), rule node_wfD(6) [OF assms(1) so(1)])
qed

lemma evolves_upd_server:
  assumes "node_wf n" and "upd_server v f n = Inr m" and "\<And>sv. srv_ok n sv \<Longrightarrow> srv_ok n (f sv)"
  shows "evolves n m"
proof -
  obtain sv where sv: "server_tab n v = Some sv" "m = n\<lparr>server_tab := (server_tab n)(v \<mapsto> f sv)\<rparr>"
    using assms(2) by (auto simp: upd_Inr_iff)
  show ?thesis
    unfolding sv(2) by (rule evolves_put_server [OF assms(1) sv(1)]) (rule assms(3), rule node_wfD(7) [OF assms(1) sv(1)])
qed

lemma evolves_upd_chan:
  assumes "node_wf n" and "upd_chan c f n = Inr m" and "\<And>k. chan_ok n c k \<Longrightarrow> chan_ok n c (f k)"
  shows "evolves n m"
proof -
  obtain k where k: "chan_tab n c = Some k" "m = n\<lparr>chan_tab := (chan_tab n)(c \<mapsto> f k)\<rparr>"
    using assms(2) by (auto simp: upd_Inr_iff)
  show ?thesis
    unfolding k(2) by (rule evolves_put_chan [OF assms(1) k(1)]) (rule assms(3), rule node_wfD(4) [OF assms(1) k(1)])
qed

lemma evolves_upd_sub:
  assumes "node_wf n" and "upd_sub s f n = Inr m" and "\<And>k. sub_ok n k \<Longrightarrow> sub_ok n (f k)"
    and "\<And>k. sub_channel (f k) = sub_channel k"
  shows "evolves n m"
proof -
  obtain k where k: "sub_tab n s = Some k" "m = n\<lparr>sub_tab := (sub_tab n)(s \<mapsto> f k)\<rparr>"
    using assms(2) by (auto simp: upd_Inr_iff)
  show ?thesis
    unfolding k(2)
    by (rule evolves_put_sub [OF assms(1) k(1) _ assms(4)]) (rule assms(3), rule node_wfD(5) [OF assms(1) k(1)])
qed

section \<open>Sockets and the mesh\<close>

lemma foldE_evolves:
  assumes "node_wf n" and "foldE f xs n = Inr m"
    and "\<And>x u v. x \<in> set xs \<Longrightarrow> node_wf u \<Longrightarrow> grows n u \<Longrightarrow> f x u = Inr v \<Longrightarrow> evolves u v"
  shows "evolves n m"
proof (rule foldE_invariant [OF assms(2), where I = "evolves n"])
  show "evolves n n" using assms(1) by simp
  show "evolves n v" if "x \<in> set xs" "evolves n u" "f x u = Inr v" for x u v
    using assms(3) [OF that(1) _ _ that(3)] that(2) evolves_trans by blast
qed

lemma foldE_evolves_all:
  "(\<And>x u v. node_wf u \<Longrightarrow> f x u = Inr v \<Longrightarrow> evolves u v) \<Longrightarrow> node_wf n \<Longrightarrow> foldE f xs n = Inr m \<Longrightarrow> evolves n m"
  by (rule foldE_evolves)

lemma sends_evolve:
  "node_wf n \<Longrightarrow> sock_write_buf s b n = Inr m \<Longrightarrow> evolves n m"
  "node_wf n \<Longrightarrow> sock_write s b n = Inr m \<Longrightarrow> evolves n m"
  by (auto simp: sock_write_def sock_write_buf_def)

lemma host_send_evolves: "node_wf n \<Longrightarrow> host_send h b n = Inr m \<Longrightarrow> evolves n m"
  by (auto simp: host_send_def sends_evolve split: option.splits if_splits)

lemma broadcast_evolves:
  assumes "node_wf n" and "broadcast b n = Inr m"
  shows "evolves n m"
  using broadcast_result [OF node_wfD(1) [OF assms(1)], of b] assms by auto

lemma broadcast_hosts_evolves:
  assumes "node_wf n" and "broadcast_hosts n = Inr m"
  shows "evolves n m"
  using assms by (auto simp: broadcast_hosts_def broadcast_evolves)

lemma sock_close_evolves: "node_wf n \<Longrightarrow> sock_close s b n = Inr m \<Longrightarrow> evolves n m"
  by (auto simp: sock_close_def sock_ok_def intro!: evolves_trans [OF evolves_upd_sock evolves_out])
     (auto dest: evolves_upd_sock simp: sock_ok_def)

lemma remove_listeners_evolves: "node_wf n \<Longrightarrow> remove_listeners s n = Inr m \<Longrightarrow> evolves n m"
  unfolding remove_listeners_def by (erule (1) evolves_upd_sock) (simp add: sock_ok_def)

lemma sock_connect_evolves:
  assumes "node_wf n" and "sock_connect E s ip port n = Inr m"
  shows "evolves n m"
proof -
  obtain u v where u: "upd_sock s (\<lambda>k. k\<lparr>s_ip := ip, s_port := port\<rparr>) n = Inr u"
      and v: "upd_sock s (\<lambda>k. k\<lparr>s_isClient := True\<rparr>) u = Inr v" "m = emit (Connect s ip port) v"
    using assms(2) by (auto simp: sock_connect_def split: if_splits)
  have "evolves n u" by (rule evolves_upd_sock [OF assms(1) u]) (simp add: sock_ok_def)
  also have "evolves u v"
    by (rule evolves_upd_sock [OF evolvesD(1) v(1)]) (use \<open>evolves n u\<close> in \<open>simp_all add: sock_ok_def\<close>)
  also have "evolves v m" unfolding v(2) using \<open>evolves u v\<close> by auto
  finally show ?thesis .
qed

lemma host_welcome_evolves:
  assumes "node_wf n" and "host_welcome h n = Inr m"
  shows "evolves n m"
proof -
  obtain k where k: "host_tab n h = Some k" using assms(2) by (auto simp: host_welcome_def)
  show ?thesis
  proof (cases "h_socket k")
    case (Some sk)
    obtain so where so: "sock_tab n sk = Some so"
      using mesh_wf_link [OF node_wfD(1) [OF assms(1)] k Some] by blast
    have "evolves n (n\<lparr>host_tab := (host_tab n)(h \<mapsto> k\<lparr>h_bConnecting := Some True\<rparr>)\<rparr>)"
      using so Some by (intro evolves_put_host [OF assms(1) k]) auto
    from evolves_trans [OF this evolves_out [OF evolvesD(1) [OF this]]] show ?thesis
      using host_welcome_result [OF k Some so] assms by (auto split: if_splits)
  qed (use assms k in \<open>simp add: host_welcome_def\<close>)
qed

lemma setSocket_evolves:
  assumes "node_wf n" and "sock_tab n s \<noteq> None" and "setSocket h s n = Inr m"
  shows "evolves n m"
proof -
  obtain u v where u: "upd_host h (\<lambda>k. k\<lparr>h_socket := Some s\<rparr>) n = Inr u"
      and v: "upd_sock s (\<lambda>so. so\<lparr>s_bLinebuffer := True, s_on_open := OpenHost h,
                               s_on_close := CloseHost h, s_cbRecv := RecvHost h\<rparr>) u = Inr v"
      and k: "host_welcome h v = Inr m \<or> v = m"
    using assms(3) by (auto simp: setSocket_def split: if_splits)
  have nu: "evolves n u" by (rule evolves_upd_host [OF assms(1) u]) (use assms(2) in auto)
  have "host_tab u h \<noteq> None" using u by (auto simp: upd_Inr_iff)
  then have uv: "evolves u v"
    by (intro evolves_upd_sock [OF evolvesD(1) [OF nu] v]) (simp add: sock_ok_def)
  have "evolves v m" using k host_welcome_evolves [of v h m] evolvesD(1) [OF uv] by auto
  with nu uv show ?thesis by (blast intro: evolves_trans)
qed

section \<open>New hosts\<close>

lemma new_TCPSocket_evolves:
  "node_wf n \<Longrightarrow> new_TCPSocket n = (s, m) \<Longrightarrow> evolves n m \<and> sock_tab m s \<noteq> None \<and> hosts m = hosts n"
  using evolves_alloc_sock [of n TCPSocket_default]
  by (auto simp: new_TCPSocket_def sock_ok_def TCPSocket_default_def)

lemma new_host_evolves:
  assumes "node_wf n" and "new_host k n = (h, m)" and "h_socket k = None"
  shows "evolves n m \<and> host_tab m h \<noteq> None \<and> hosts m = hosts n \<and> h \<notin> set (hosts n)
    \<and> sock_tab m = sock_tab n"
  using evolves_alloc_host [OF assms(1), of k] assms mesh_wf_fresh(7) [OF node_wfD(1) [OF assms(1)]]
  by (auto simp: new_host_def)

lemma push_if_evolves:
  assumes "node_wf n" and "host_tab n h \<noteq> None" and "h \<notin> set (hosts n)"
  shows "evolves n (if b then n else push_host h n)"
  using evolves_push_host [OF assms] assms(1) by simp

lemma Host_connect_evolves:
  assumes "node_wf n" and "Host_connect E ip port n = Inr (h, m)"
  shows "evolves n m"
proof -
  obtain k a b u s v w where a: "new_host k n = (a, b)" "h_socket k = None"
      and u: "new_TCPSocket (if u then b else push_host a b) = (s, v)"
      and w: "setSocket a s v = Inr w" "sock_connect E s (c_str ip) port w = Inr m"
    using assms(2) unfolding Host_connect_def by (auto split: prod.splits)
  note ab = new_host_evolves [OF assms(1) a]
  have "evolves b (if u then b else push_host a b)"
    using ab by (intro push_if_evolves) auto
  then have n1: "evolves n (if u then b else push_host a b)" using ab by (blast intro: evolves_trans)
  note v = new_TCPSocket_evolves [OF evolvesD(1) [OF n1] u]
  have "evolves v w" using setSocket_evolves [OF _ _ w(1)] v by blast
  moreover have "evolves w m" using sock_connect_evolves [OF _ w(2)] \<open>evolves v w\<close> by blast
  ultimately show ?thesis using n1 v by (blast intro: evolves_trans)
qed

lemma Host_incoming_evolves:
  assumes "node_wf n" and "sock_tab n s \<noteq> None" and "Host_incoming ip port s n = Inr (h, m)"
  shows "evolves n m"
proof -
  obtain k a b u where a: "new_host k n = (a, b)" "h_socket k = None"
      and w: "setSocket a s (if u then b else push_host a b) = Inr m"
    using assms(3) unfolding Host_incoming_def by (auto split: prod.splits)
  note ab = new_host_evolves [OF assms(1) a]
  have bc: "evolves b (if u then b else push_host a b)"
    using ab by (intro push_if_evolves) auto
  have "sock_tab (if u then b else push_host a b) s \<noteq> None" using ab assms(2) by simp
  with setSocket_evolves [OF _ _ w] bc ab show ?thesis by (blast intro: evolves_trans)
qed

lemma add_host_inited_evolves:
  "node_wf n \<Longrightarrow> add_host_inited E ip port n = Inr m \<Longrightarrow> evolves n m"
  by (auto simp: add_host_inited_def dest: Host_connect_evolves split: if_splits)

lemma add_host_evolves: "node_wf n \<Longrightarrow> add_host E ip port n = Inr m \<Longrightarrow> evolves n m"
  by (simp add: add_host_def init_def node_wfD(2) add_host_inited_evolves)

lemma new_server_evolves:
  assumes "node_wf n" and "new_server port n = (v, m)"
  shows "evolves n m \<and> server_tab m v \<noteq> None"
proof -
  let ?sv = "\<lparr>srv_port = port, srv_bStop = False, srv_connections = [], srv_on_open = AcceptNone\<rparr>"
  have "evolves n (n\<lparr>next_addr := Suc (next_addr n), server_tab := (server_tab n)(next_addr n \<mapsto> ?sv)\<rparr>)"
    by (rule evolves_alloc_server [OF assms(1)]) (simp add: srv_ok_def)
  from evolves_trans [OF this evolves_out [OF evolvesD(1) [OF this]]] show ?thesis
    using assms(2) by (auto simp: new_server_def)
qed

section \<open>Subscriptions\<close>

lemma Subscription_local_evolves:
  assumes "node_wf n" and "chan_tab n c \<noteq> None" and "Subscription_local c b n = Inr (s, m)"
  shows "evolves n m"
proof -
  let ?h = "hd (hosts n)"
  let ?k = "\<lparr>sub_channel = c, sub_host = ?h, sub_bAsync = b, sub_bConnected = False,
         sub_transport = TRANSPORT_TCP, sub_socket = None, sub_shm = None,
         sub_on_message = False, sub_size = 0\<rparr>"
  let ?u = "n\<lparr>next_addr := Suc (next_addr n), sub_tab := (sub_tab n)(next_addr n \<mapsto> ?k)\<rparr>"
  have me: "me n = Inr ?h" and "host_tab n ?h \<noteq> None"
    using mesh_wf_me mesh_wf_live [of n ?h] node_wfD(1) [OF assms(1)] by (auto simp: mesh_wf_def)
  then have u: "evolves n ?u"
    using assms(2) by (intro evolves_alloc_sub [OF assms(1)]) (simp add: sub_ok_def)
  have "upd_chan c (\<lambda>k. k\<lparr>c_subscriptions := c_subscriptions k @ [next_addr n]\<rparr>) ?u = Inr m"
    using assms(3) me by (auto simp: Subscription_local_def new_sub_def)
  then have "evolves ?u m"
    by (rule evolves_upd_chan [OF evolvesD(1) [OF u]]) (auto simp: chan_ok_def)
  with u show ?thesis by (rule evolves_trans)
qed

lemma Subscriptor_tcp_evolves:
  assumes "node_wf n" and "chan_tab n c \<noteq> None" and "host_tab n h \<noteq> None" and "sock_tab n sk \<noteq> None"
    and "Subscriptor_tcp c sk h n = Inr (s, m)"
  shows "evolves n m"
proof -
  let ?u = "n\<lparr>next_addr := Suc (next_addr n), sub_tab := (sub_tab n)(next_addr n \<mapsto> accepted_sub c sk h)\<rparr>"
  have u: "evolves n ?u"
    using assms(2-4) by (intro evolves_alloc_sub [OF assms(1)]) (simp add: sub_ok_def accepted_sub_def)
  obtain v where v: "upd_chan c (\<lambda>k. k\<lparr>c_subscriptors := c_subscriptors k @ [next_addr n]\<rparr>) ?u = Inr v"
      "upd_sock sk (\<lambda>so. so\<lparr>s_on_open := OpenSub (next_addr n), s_on_close := CloseSub (next_addr n),
                                    s_cbRecv := RecvChannel c\<rparr>) v = Inr m"
    using assms(5) by (auto simp: Subscriptor_tcp_def new_sub_def accepted_sub_def)
  have uv: "evolves ?u v"
    by (rule evolves_upd_chan [OF evolvesD(1) [OF u] v(1)]) (auto simp: chan_ok_def accepted_sub_def)
  have "chan_tab v c \<noteq> None" using v(1) by (auto simp: upd_Inr_iff)
  then have "evolves v m"
    by (intro evolves_upd_sock [OF evolvesD(1) [OF uv] v(2)]) (simp add: sock_ok_def)
  with u uv show ?thesis by (blast intro: evolves_trans)
qed

lemma chan_ok_member:
  "chan_ok n c k \<Longrightarrow> s \<in> set (c_subscriptions k) \<union> set (c_subscriptors k) \<Longrightarrow>
     \<exists>sk. sub_tab n s = Some sk \<and> sub_channel sk = c"
  by (simp add: chan_ok_def)

lemma Subscription_dtor_evolves:
  assumes "node_wf n" and "Subscription_dtor s n = Inr m"
  shows "evolves n m"
proof -
  let ?f = "\<lambda>c. c\<lparr>c_subscriptions := vector_remove (c_subscriptions c) s,
                     c_subscriptors := vector_remove (c_subscriptors c) s\<rparr>"
  obtain k n' u where k: "sub_tab n s = Some k" and n': "n' = (if sub_shm k = None then n else emit (ShmFree s) n)"
      and u: "upd_chan (sub_channel k) ?f n' = Inr u" and m: "m = u\<lparr>sub_tab := (sub_tab u)(s := None)\<rparr>"
    using assms(2) by (auto simp: Subscription_dtor_def)
  have n1: "evolves n n'" using assms(1) n' by simp
  have u1: "evolves n' u"
    by (rule evolves_upd_chan [OF evolvesD(1) [OF n1] u]) (auto simp: chan_ok_def)
  have "s \<notin> set (c_subscriptions d) \<union> set (c_subscriptors d)" if d: "chan_tab u c = Some d" for c d
  proof (cases "c = sub_channel k")
    case True
    with d u show ?thesis by (auto simp: upd_Inr_iff)
  next
    case False
    then have "chan_tab n c = Some d" "sub_tab u s = Some k"
      using d u n' k by (auto simp: upd_Inr_iff split: if_splits)
    moreover from this have "chan_ok n c d" using node_wfD(4) [OF assms(1)] by blast
    ultimately show ?thesis using False k chan_ok_member [of n c d s] by auto
  qed
  then have "evolves u m" unfolding m by (intro evolves_del_sub evolvesD(1) [OF u1]) blast
  with n1 u1 show ?thesis by (blast intro: evolves_trans)
qed

lemma sub_on_close_evolves:
  assumes "node_wf n" and "sub_on_close s n = Inr m"
  shows "evolves n m"
proof -
  obtain k where k: "sub_tab n s = Some k"
    using assms(2) by (auto simp: sub_on_close_def live_def split: option.splits)
  define n' where n': "n' = (if sub_shm k = None then n else emit (ShmFree s) n)"
  have "bindE (upd_sub s (\<lambda>k. k\<lparr>sub_bConnected := False, sub_shm := None\<rparr>) n') (\<lambda>n.
     bindE (deref (sub_socket k)) (\<lambda>sk.
     bindE (remove_listeners sk n) (Subscription_dtor s))) = Inr m"
    using assms(2) k unfolding n' by (simp add: sub_on_close_def)
  then obtain u sk v where u: "upd_sub s (\<lambda>k. k\<lparr>sub_bConnected := False, sub_shm := None\<rparr>) n' = Inr u"
      and v: "remove_listeners sk u = Inr v" "Subscription_dtor s v = Inr m"
    by auto
  have n1: "evolves n n'" using assms(1) n' by simp
  have u1: "evolves n' u" by (rule evolves_upd_sub [OF evolvesD(1) [OF n1] u]) (simp_all add: sub_ok_def)
  note v1 = remove_listeners_evolves [OF evolvesD(1) [OF u1] v(1)]
  note m1 = Subscription_dtor_evolves [OF evolvesD(1) [OF v1] v(2)]
  show ?thesis using n1 u1 v1 m1 by (blast intro: evolves_trans)
qed

lemma sub_close_evolves:
  assumes "node_wf n" and "sub_close s n = Inr m"
  shows "evolves n m"
proof -
  obtain u where "u = n \<or> (\<exists>sk v. remove_listeners sk n = Inr v \<and> sock_close sk False v = Inr u)"
      and m: "sub_on_close s u = Inr m"
    using assms(2) unfolding sub_close_def
    by (elim bindE_InrE) (rule that, auto split: if_splits)
  then have "evolves n u"
    using assms(1) remove_listeners_evolves sock_close_evolves by (metis evolvesD(1) evolves_refl evolves_trans)
  with m show ?thesis using sub_on_close_evolves by (blast intro: evolves_trans)
qed

lemma sub_on_open_evolves: "node_wf n \<Longrightarrow> sub_on_open s n = Inr m \<Longrightarrow> evolves n m"
  unfolding sub_on_open_def by (erule (1) evolves_upd_sub) (simp_all add: sub_ok_def)

lemma sub_write_evolves:
  assumes "node_wf n" and "sub_write s msg n = Inr m"
  shows "evolves n m"
proof -
  obtain k where k: "sub_tab n s = Some k" using assms(2) by (auto simp: sub_write_def)
  show ?thesis
  proof (cases "sub_bConnected k \<and> sub_transport k = TRANSPORT_SHM")
    case True
    then obtain x u where u: "upd_sub s (\<lambda>k. k\<lparr>sub_shm := Some x\<rparr>) n = Inr u" "m = emit (ShmWrite s msg) u"
      using assms(2) k by (auto simp: sub_write_def)
    have "evolves n u" by (rule evolves_upd_sub [OF assms(1) u(1)]) (simp_all add: sub_ok_def)
    with u(2) show ?thesis by (auto intro: evolves_trans [OF _ evolves_out])
  next
    case False
    then show ?thesis
      using assms k by (auto simp: sub_write_def intro: sends_evolve split: transport.splits if_splits)
  qed
qed

lemma sub_write_dma_evolves: "node_wf n \<Longrightarrow> sub_write_dma s n = Inr m \<Longrightarrow> evolves n m"
  by (auto simp: sub_write_dma_def sends_evolve split: transport.splits if_splits)

section \<open>Channels\<close>

lemma sub_connect_tcp_evolves:
  assumes "node_wf n" and "sub_connect_tcp E s n = Inr m"
  shows "evolves n m"
proof -
  obtain k where k: "sub_tab n s = Some k"
    using assms(2) by (auto simp: sub_connect_tcp_def live_def split: option.splits)
  show ?thesis
  proof (cases "sub_bConnected k")
    case False
    obtain sk a where a: "new_TCPSocket n = (sk, a)" by fastforce
    obtain u v ip port where u: "upd_sock sk (\<lambda>so. so\<lparr>s_on_open := OpenSub s, s_on_close := CloseSub s,
          s_cbRecv := RecvSub s\<rparr>) a = Inr u"
      and v: "upd_sub s (\<lambda>k. k\<lparr>sub_bConnected := False, sub_socket := Some sk,
          sub_transport := TRANSPORT_TCP\<rparr>) u = Inr v"
      and m: "sock_connect E sk ip port v = Inr m"
      using assms(2) k False a by (auto simp: sub_connect_tcp_def)
    note na = new_TCPSocket_evolves [OF assms(1) a]
    have au: "evolves a u" by (rule evolves_upd_sock [OF _ u]) (use na in \<open>auto simp: sock_ok_def\<close>)
    have "sock_tab u sk \<noteq> None" using u by (auto simp: upd_Inr_iff)
    then have uv: "evolves u v"
      by (intro evolves_upd_sub [OF evolvesD(1) [OF au] v]) (simp_all add: sub_ok_def)
    note vm = sock_connect_evolves [OF evolvesD(1) [OF uv] m]
    show ?thesis using na au uv vm by (blast intro: evolves_trans)
  qed (use assms k in \<open>simp add: sub_connect_tcp_def\<close>)
qed

lemma sub_connect_shm_evolves:
  assumes "node_wf n" and "sub_connect_shm E s n = Inr m"
  shows "evolves n m"
proof -
  obtain k where k: "sub_tab n s = Some k"
    using assms(2) by (auto simp: sub_connect_shm_def live_def split: option.splits)
  show ?thesis
  proof (cases "sub_bConnected k")
    case False
    then obtain f where "upd_sub s f n = Inr m" "\<And>k. sub_channel (f k) = sub_channel k"
        "\<And>k. sub_host (f k) = sub_host k" "\<And>k. sub_socket (f k) = sub_socket k" "\<And>k. sub_size (f k) = sub_size k"
      using assms(2) k by (auto simp: sub_connect_shm_def)
    then show ?thesis by (intro evolves_upd_sub [OF assms(1), of s f m]) (simp_all add: sub_ok_def)
  qed (use assms k in \<open>simp add: sub_connect_shm_def\<close>)
qed

lemma channel_connect_tcp_evolves:
  "node_wf n \<Longrightarrow> channel_connect_tcp E c n = Inr m \<Longrightarrow> evolves n m"
  by (auto simp: channel_connect_tcp_def host_send_evolves split: if_splits
      intro: foldE_evolves_all [OF sub_connect_tcp_evolves])

lemma channel_connect_shm_evolves:
  "node_wf n \<Longrightarrow> channel_connect_shm E c n = Inr m \<Longrightarrow> evolves n m"
  by (auto simp: channel_connect_shm_def host_send_evolves split: if_splits
      intro: foldE_evolves_all [OF sub_connect_shm_evolves])

lemma channel_connect_evolves: "node_wf n \<Longrightarrow> channel_connect E c n = Inr m \<Longrightarrow> evolves n m"
  by (auto simp: channel_connect_def channel_connect_tcp_evolves channel_connect_shm_evolves
      split: option.splits if_splits)

lemma close_subs_evolves: "node_wf n \<Longrightarrow> close_subs c ss n = Inr m \<Longrightarrow> evolves n m"
proof (induction ss arbitrary: n)
  case (Cons s ss)
  obtain u where "sub_close s n = Inr u" "close_subs c ss u = Inr m"
    using Cons.prems(2) by (auto split: if_splits)
  with Cons.IH [of u] sub_close_evolves [OF Cons.prems(1)] show ?case
    by (blast intro: evolves_trans)
qed simp

lemma channel_disconnect_evolves: "node_wf n \<Longrightarrow> channel_disconnect c n = Inr m \<Longrightarrow> evolves n m"
  by (auto simp: channel_disconnect_def close_subs_evolves)

lemma setPublisher_evolves:
  assumes "node_wf n" and "\<And>h. p = Some h \<Longrightarrow> host_tab n h \<noteq> None" and "setPublisher E c p n = Inr m"
  shows "evolves n m"
proof -
  from assms(3) obtain k k' :: channel and a b where a: "(if c_publisher k \<noteq> None \<and> c_publisher k \<noteq> p
        then channel_disconnect c n else Inr n) = Inr a"
      and b: "upd_chan c (\<lambda>k. k\<lparr>c_publisher := p, c_offeredPort := 0\<rparr>) a = Inr b"
      and m: "(if c_subscriptions k' \<noteq> [] \<and> p \<noteq> None then channel_connect E c b else Inr b) = Inr m"
    unfolding setPublisher_def by (elim bindE_InrE) (rule that)
  have na: "evolves n a" using a assms(1) channel_disconnect_evolves by (auto split: if_splits)
  have "host_tab a h \<noteq> None" if "p = Some h" for h
    using assms(2) [OF that] growsD(1) [OF evolvesD(2) [OF na]] by blast
  then have ab: "evolves a b"
    by (intro evolves_upd_chan [OF evolvesD(1) [OF na] b]) (simp add: chan_ok_def)
  have "evolves b m" using m channel_connect_evolves evolvesD(1) [OF ab] by (auto split: if_splits)
  with na ab show ?thesis by (blast intro: evolves_trans)
qed

lemma get_or_create_channel_evolves:
  assumes "node_wf n" and "get_or_create_channel name n = Inr (c, m)"
  shows "evolves n m \<and> chan_tab m c \<noteq> None"
proof -
  have "c < next_addr n" if "chan_tab n c \<noteq> None" for c
    using node_wfD(1) [OF assms(1)] that by (auto simp: mesh_wf_def fresh_above_dom)
  then have "chans_live n" using node_wfD(3) [OF assms(1)] by (auto simp: chans_live_def)
  then have "chan_find n name = Some c \<and> m = n \<or> ChannelImpl_ctor name n = (c, m)"
    using assms(2) by (auto simp: get_or_create_channel_cases split: option.splits)
  then show ?thesis
    using evolves_ChannelImpl_ctor [OF assms(1)] assms(1) by (auto dest: chan_find_SomeD)
qed

lemma channel_publish_evolves:
  assumes "node_wf n" and "channel_publish E c n = Inr m"
  shows "evolves n m"
proof -
  have "me n = Inr (hd (hosts n))" "host_tab n (hd (hosts n)) \<noteq> None"
    using mesh_wf_me mesh_wf_live [of n "hd (hosts n)"] node_wfD(1) [OF assms(1)] by (auto simp: mesh_wf_def)
  then show ?thesis
    using assms setPublisher_evolves [OF assms(1), of "Some (hd (hosts n))" E c] broadcast_evolves
    by (auto simp: channel_publish_def split: if_splits) (blast intro: evolves_trans)
qed

lemma channel_unpublish_evolves:
  "node_wf n \<Longrightarrow> channel_unpublish E c n = Inr m \<Longrightarrow> evolves n m"
  using setPublisher_evolves [of n None E c] broadcast_evolves
  by (auto simp: channel_unpublish_def) (blast intro: evolves_trans)

lemma channel_subscribe_evolves:
  assumes "node_wf n" and "chan_tab n c \<noteq> None" and "channel_subscribe E c n = Inr (s, m)"
  shows "evolves n m"
  using assms Subscription_local_evolves [OF assms(1,2)] channel_connect_evolves
  by (auto simp: channel_subscribe_def) (blast intro: evolves_trans)

lemma channel_write_evolves: "node_wf n \<Longrightarrow> channel_write c msg n = Inr m \<Longrightarrow> evolves n m"
  by (auto simp: channel_write_def intro: foldE_evolves_all [OF sub_write_evolves])

lemma channel_write_dma_evolves: "node_wf n \<Longrightarrow> channel_write_dma c n = Inr m \<Longrightarrow> evolves n m"
  by (auto simp: channel_write_dma_def intro: foldE_evolves_all [OF sub_write_dma_evolves])

lemma channel_alloc_evolves:
  assumes "node_wf n" and "channel_alloc E c sz n = Inr m"
  shows "evolves n m"
proof -
  obtain k where k: "chan_tab n c = Some k"
    using assms(2) by (auto simp: channel_alloc_def live_def split: option.splits)
  show ?thesis
  proof (cases "c_ptr k")
    case None
    then obtain u where u: "upd_chan c (\<lambda>k. k\<lparr>c_ptr := Some (shm_create E (c_name k) sz), c_size := sz\<rparr>) n = Inr u"
        "broadcast (alloc_message (c_name k) sz) u = Inr m"
      using assms(2) k by (auto simp: channel_alloc_def)
    have "evolves n u" by (rule evolves_upd_chan [OF assms(1) u(1)]) (simp add: chan_ok_def)
    with broadcast_evolves [OF _ u(2)] show ?thesis by (blast intro: evolves_trans)
  qed (use assms k in \<open>auto simp: channel_alloc_def\<close>)
qed

lemma on_message_evolves:
  "node_wf n \<Longrightarrow> upd_chan c (\<lambda>k. k\<lparr>c_on_message := True\<rparr>) n = Inr m \<Longrightarrow> evolves n m"
  "node_wf n \<Longrightarrow> upd_sub s (\<lambda>k. k\<lparr>sub_on_message := True\<rparr>) n = Inr m \<Longrightarrow> evolves n m"
  by (erule (1) evolves_upd_chan, simp add: chan_ok_def) (erule (1) evolves_upd_sub, simp_all add: sub_ok_def)

lemma offer_tcp_evolves:
  assumes "node_wf n" and "host_tab n h \<noteq> None" and "offer_tcp E c h n = Inr m"
  shows "evolves n m"
proof -
  obtain k where k: "chan_tab n c = Some k"
    using assms(3) by (auto simp: offer_tcp_def live_def split: option.splits)
  show ?thesis
  proof (cases "c_server k")
    case (Some v)
    then show ?thesis using assms(1,3) k by (auto simp: offer_tcp_def host_send_evolves)
  next
    case None
    obtain p where p: "scan_ports E 10000 20000 = Inr p"
      using assms(3) k None by (auto simp: offer_tcp_def TCPServer_range_def)
    obtain v a where a: "new_server p n = (v, a)" by fastforce
    obtain b d msg where b: "upd_chan c (\<lambda>k. k\<lparr>c_server := Some v\<rparr>) a = Inr b"
        and d: "upd_server v (\<lambda>sv. sv\<lparr>srv_on_open := AcceptSubscriptor c h\<rparr>) b = Inr d"
        and m: "host_send h msg d = Inr m"
      using assms(3) k None p a by (auto simp: offer_tcp_def TCPServer_range_def)
    note na = new_server_evolves [OF assms(1) a]
    then have ab: "evolves a b"
      by (intro evolves_upd_chan [OF _ b]) (auto simp: chan_ok_def)
    have "host_tab b h \<noteq> None" "chan_tab b c \<noteq> None"
      using assms(2) growsD(1) [OF evolvesD(2) [OF ab]] na growsD(1) [OF evolvesD(2)] b
      by (auto simp: upd_Inr_iff)
    then have bd: "evolves b d"
      by (intro evolves_upd_server [OF evolvesD(1) [OF ab] d]) (simp add: srv_ok_def)
    show ?thesis using na ab bd host_send_evolves [OF evolvesD(1) [OF bd] m] by (blast intro: evolves_trans)
  qed
qed

lemma offer_shm_evolves:
  assumes "node_wf n" and "offer_shm c h n = Inr m"
  shows "evolves n m"
proof -
  obtain name u msg where u: "upd_chan c (\<lambda>k. k\<lparr>c_offeredShmPath := name\<rparr>) n = Inr u" "host_send h msg u = Inr m"
    using assms(2) by (auto simp: offer_shm_def)
  have "evolves n u" by (rule evolves_upd_chan [OF assms(1) u(1)]) (simp add: chan_ok_def)
  with host_send_evolves [OF _ u(2)] show ?thesis by (blast intro: evolves_trans)
qed

lemma on_offer_evolves:
  assumes "node_wf n"
  shows "on_offer_tcp E c offer n = Inr m \<Longrightarrow> evolves n m"
    "on_offer_shm E c offer n = Inr m \<Longrightarrow> evolves n m"
proof -
  have chan: "evolves n u" if "upd_chan c f n = Inr u" "\<And>k. chan_ok n c k \<Longrightarrow> chan_ok n c (f k)" for f u
    using evolves_upd_chan [OF assms that] .
  show "evolves n m" if m: "on_offer_tcp E c offer n = Inr m"
  proof -
    obtain u where u: "upd_chan c (\<lambda>k. k\<lparr>c_offeredPort := atoi offer\<rparr>) n = Inr u" "channel_connect_tcp E c u = Inr m"
      using m by (auto simp: on_offer_tcp_def)
    have "evolves n u" by (rule chan [OF u(1)]) (simp add: chan_ok_def)
    with channel_connect_tcp_evolves [OF _ u(2)] show ?thesis by (blast intro: evolves_trans)
  qed
  show "evolves n m" if m: "on_offer_shm E c offer n = Inr m"
  proof -
    obtain u where u: "upd_chan c (\<lambda>k. k\<lparr>c_offeredShmPath := str_before offer ''|'',
          c_size := size_of_int (atoi (str_after offer ''|''))\<rparr>) n = Inr u" "channel_connect_shm E c u = Inr m"
      using m by (auto simp: on_offer_shm_def)
    have "evolves n u" by (rule chan [OF u(1)]) (simp add: chan_ok_def)
    with channel_connect_shm_evolves [OF _ u(2)] show ?thesis by (blast intro: evolves_trans)
  qed
qed

lemma close_all_channels_evolves:
  "node_wf n \<Longrightarrow> close_all_channels E h n = Inr m \<Longrightarrow> evolves n m"
  unfolding close_all_channels_def
  by (erule (1) foldE_evolves) (auto split: if_splits intro: setPublisher_evolves)

lemma broadcast_published_evolves:
  "node_wf n \<Longrightarrow> broadcast_published_channels n = Inr m \<Longrightarrow> evolves n m"
  unfolding broadcast_published_channels_def
  by (erule (1) foldE_evolves) (auto split: if_splits intro: broadcast_evolves)

section \<open>Signaling and handlers\<close>

lemma get_host_live: "node_wf n \<Longrightarrow> get_host ip port n = Inr (Some h) \<Longrightarrow> host_tab n h \<noteq> None"
  using get_host_eq [OF node_wfD(1)] by (auto dest: mesh_find_SomeD)

lemma apply_publish_evolves:
  assumes "node_wf n" and "host_tab n h \<noteq> None" and "apply_publish_statement E h st n = Inr m"
  shows "evolves n m"
proof -
  obtain type body where sp: "split_statement st = Inr (type, body)"
    using assms(3) by (cases "split_statement st") (auto simp: apply_publish_statement_def)
  obtain c u where u: "get_or_create_channel (str_before body ''|'') n = Inr (c, u)"
    using assms(3) sp
    by (cases "get_or_create_channel (str_before body ''|'') n")
       (auto simp: apply_publish_statement_def Let_def)
  note nu = get_or_create_channel_evolves [OF assms(1) u]
  then have wf: "node_wf u" and h: "host_tab u h \<noteq> None"
    using growsD(1) [OF evolvesD(2)] assms(2) by blast+
  have set: "evolves u m" if "setPublisher E c p u = Inr m" "\<And>x. p = Some x \<Longrightarrow> host_tab u x \<noteq> None" for p
    by (rule setPublisher_evolves [OF wf that(2,1)])
  let ?opts = "str_after st ''|''"
  have rest: "(if type = CHR ''P'' then setPublisher E c (Some h) u
     else if type = CHR ''A'' \<or> type = CHR ''S'' then
       bindE (get_host (str_before ?opts '':'') (atoi (str_after ?opts '':'')) u) (\<lambda>p.
       bindE (live (chan_tab u) c) (\<lambda>k.
       if c_publisher k \<noteq> None then Inr u else setPublisher E c p u))
     else Inr u) = Inr m"
    using assms(3) sp u by (simp add: apply_publish_statement_def Let_def)
  have "evolves u m"
  proof (cases "type = CHR ''P''")
    case True
    with rest have "setPublisher E c (Some h) u = Inr m" by simp
    then show ?thesis by (rule set) (use h in auto)
  next
    case False
    show ?thesis
    proof (cases "type = CHR ''A'' \<or> type = CHR ''S''")
      case True
      with rest False have "bindE (get_host (str_before ?opts '':'') (atoi (str_after ?opts '':'')) u) (\<lambda>p.
          bindE (live (chan_tab u) c) (\<lambda>k.
          if c_publisher k \<noteq> None then Inr u else setPublisher E c p u)) = Inr m"
        by (simp only: if_False if_True)
      then obtain p and k :: channel
        where p: "get_host (str_before ?opts '':'') (atoi (str_after ?opts '':'')) u = Inr p"
          and k: "(if c_publisher k \<noteq> None then Inr u else setPublisher E c p u) = Inr m"
        by (elim bindE_InrE) (rule that)
      have "host_tab u x \<noteq> None" if "p = Some x" for x using p get_host_live [OF wf] that by blast
      with k set [of p] wf show ?thesis by (cases "c_publisher k \<noteq> None") auto
    qed (use rest False wf in simp)
  qed
  with nu show ?thesis by (blast intro: evolves_trans)
qed

lemma apply_unpublish_evolves:
  "node_wf n \<Longrightarrow> apply_unpublish_statement E h st n = Inr m \<Longrightarrow> evolves n m"
  by (auto simp: apply_unpublish_statement_def split: option.splits intro: setPublisher_evolves)

lemma channel_handlers_evolve:
  assumes "node_wf n" and "host_tab n h \<noteq> None"
  shows "make_offer_tcp E h name n = Inr m \<Longrightarrow> evolves n m"
    "make_offer_shm h name n = Inr m \<Longrightarrow> evolves n m"
    "answer_offer_tcp E h offer n = Inr m \<Longrightarrow> evolves n m"
    "answer_offer_shm E h offer n = Inr m \<Longrightarrow> evolves n m"
  using assms(1)
  by (auto simp: make_offer_tcp_def make_offer_shm_def answer_offer_tcp_def answer_offer_shm_def
      offer_tcp_evolves [OF assms] offer_shm_evolves on_offer_evolves split: option.splits)

lemma digest_message_evolves:
  assumes "node_wf n" and "host_tab n h \<noteq> None" and "digest_message E h st n = Inr m"
  shows "evolves n m"
  using assms(1,3) unfolding digest_message_def
  by (simp add: apply_publish_evolves [OF assms(1,2)] apply_unpublish_evolves
      channel_handlers_evolve [OF assms(1,2)] split: if_splits)

lemma host_connected_evolves:
  assumes "node_wf n"
    and "bindE (upd_host h (\<lambda>k. k\<lparr>h_bReady := True\<rparr>) n) (\<lambda>n.
        bindE (live (host_tab n) h) (\<lambda>k.
        bindE (has_host (h_ip k) (h_port k) n) (\<lambda>known.
        bindE (on_host_open h (if known then n else push_host h n)) broadcast_hosts))) = Inr m"
  shows "evolves n m"
proof -
  from assms(2) obtain u v :: node and k :: host and known
    where u: "upd_host h (\<lambda>k. k\<lparr>h_bReady := True\<rparr>) n = Inr u" and k: "live (host_tab u) h = Inr k"
      and known: "has_host (h_ip k) (h_port k) u = Inr known"
      and v: "on_host_open h (if known then u else push_host h u) = Inr v" "broadcast_hosts v = Inr m"
    by (elim bindE_InrE) (rule that)
  have nu: "evolves n u" by (rule evolves_upd_host [OF assms(1) u]) simp
  let ?w = "if known then u else push_host h u"
  have uw: "evolves u ?w"
  proof (cases known)
    case False
    have wf: "mesh_wf u" using nu by (blast dest: node_wfD(1))
    have "mesh_find u (h_ip k, h_port k) = None"
      using known False has_host_eq [OF wf] by simp
    then have "h \<notin> set (hosts u)"
      using k by (force simp: mesh_find_None_key host_key_def image_iff)
    with k evolvesD(1) [OF nu] show ?thesis by (intro push_if_evolves) auto
  qed (use nu in auto)
  have wv: "evolves ?w v"
    using v(1) broadcast_published_evolves [OF evolvesD(1) [OF uw]] by (simp add: on_host_open_def)
  note vm = broadcast_hosts_evolves [OF evolvesD(1) [OF wv] v(2)]
  show ?thesis using nu uw wv vm by (blast intro: evolves_trans)
qed

lemma on_receive_evolves:
  assumes "node_wf n" and "host_tab n h \<noteq> None" and "on_receive E h st n = Inr m"
  shows "evolves n m"
proof (cases "str_starts_with st ''ID=''")
  case True
  then obtain u where u: "upd_host h (\<lambda>k. k\<lparr>h_id := parse_id st, h_port := parse_port st\<rparr>) n = Inr u"
      "host_send h ''CONNECTED'' u = Inr m"
    using assms(3) by (auto simp: on_receive_def)
  have "evolves n u" by (rule evolves_upd_host [OF assms(1) u(1)]) simp
  with host_send_evolves [OF _ u(2)] show ?thesis by (blast intro: evolves_trans)
next
  case notID: False
  show ?thesis
  proof (cases "str_starts_with st ''YOU=''")
    case True
    then obtain a where "upd_host a (\<lambda>k. k\<lparr>h_ip := str_after st ''='', h_bReady := True\<rparr>) n = Inr m"
      using assms(3) notID by (auto simp: on_receive_def)
    then show ?thesis by (rule evolves_upd_host [OF assms(1)]) simp
  next
    case notYOU: False
    show ?thesis
    proof (cases "st = ''CONNECTED''")
      case True
      then show ?thesis
        using assms(3) notID notYOU by (intro host_connected_evolves [OF assms(1)]) (simp add: on_receive_def)
    next
      case False
      obtain k where k: "host_tab n h = Some k" using assms(2) by blast
      have "(if \<not> h_bReady k then Inr n
        else if str_starts_with st ''Host='' then
          add_host E (str_before (str_after st ''='') '':'') (atoi (str_after (str_after st ''='') '':'')) n
        else digest_message E h st n) = Inr m"
        using assms(3) notID notYOU False k by (simp add: on_receive_def Let_def cong: if_cong)
      then show ?thesis
        using assms(1,2) by (auto split: if_splits intro: add_host_evolves digest_message_evolves)
    qed
  qed
qed

lemma incoming_message_evolves:
  assumes "node_wf n" and "incoming_message sk st n = Inr m"
  shows "evolves n m"
proof (cases "str_starts_with st ''ID=''")
  case True
  obtain so where so: "sock_tab n sk = Some so"
    using assms(2) True by (auto simp: incoming_message_def live_def split: option.splits)
  let ?ip = "localize (s_ip so)" and ?port = "parse_port st"
  have get: "get_host ?ip ?port n = Inr (mesh_find n (?ip, ?port))"
    using get_host_eq [OF node_wfD(1) [OF assms(1)]] .
  show ?thesis
  proof (cases "mesh_find n (?ip, ?port)")
    case None
    then obtain h u where u: "Host_incoming ?ip ?port sk n = Inr (h, u)" "host_send h ''CONNECTED'' u = Inr m"
      using assms(2) True so get by (auto simp: incoming_message_def Let_def)
    have "evolves n u" using Host_incoming_evolves [OF assms(1) _ u(1)] so by simp
    with host_send_evolves [OF _ u(2)] show ?thesis by (blast intro: evolves_trans)
  next
    case (Some h)
    then obtain k where k: "host_tab n h = Some k" using mesh_find_SomeD by blast
    have run: "(if parse_id st > my_ID n \<or> h_bServer k then
          bindE (case h_socket k of None \<Rightarrow> Inr n
                 | Some old \<Rightarrow> bindE (remove_listeners old n) (sock_close old True)) (\<lambda>n.
          bindE (upd_host h (\<lambda>k. k\<lparr>h_bServer := True\<rparr>) n) (\<lambda>n.
          bindE (setSocket h sk n) (\<lambda>n. if h_bReady k then Inr n else host_send h ''CONNECTED'' n)))
        else if parse_id st < my_ID n then sock_close sk True n else Inr n) = Inr m"
      using assms(2) True so get Some k by (simp add: incoming_message_def Let_def)
    show ?thesis
    proof (cases "parse_id st > my_ID n \<or> h_bServer k")
      case True
      with run obtain a b d :: node
        where a: "(case h_socket k of None \<Rightarrow> Inr n
                 | Some old \<Rightarrow> bindE (remove_listeners old n) (sock_close old True)) = Inr a"
          and b: "upd_host h (\<lambda>k. k\<lparr>h_bServer := True\<rparr>) a = Inr b" and d: "setSocket h sk b = Inr d"
          and m: "(if h_bReady k then Inr d else host_send h ''CONNECTED'' d) = Inr m"
        by (simp only: if_True) (elim bindE_InrE, rule that)
      have na: "evolves n a"
        using a assms(1) remove_listeners_evolves sock_close_evolves
        by (auto split: option.splits) (metis evolvesD(1) evolves_trans)
      have ab: "evolves a b" by (rule evolves_upd_host [OF evolvesD(1) [OF na] b]) simp
      have "sock_tab b sk \<noteq> None"
        using so growsD(2) [OF evolvesD(2) [OF evolves_trans [OF na ab]], of sk] by simp
      then have bd: "evolves b d" using setSocket_evolves [OF evolvesD(1) [OF ab] _ d] by blast
      have "evolves d m" using m host_send_evolves evolvesD(1) [OF bd] by (auto split: if_splits)
      with na ab bd show ?thesis by (blast intro: evolves_trans)
    qed (use run assms(1) in \<open>auto split: if_splits intro: sock_close_evolves\<close>)
  qed
qed (use assms in \<open>simp add: incoming_message_def\<close>)

lemma run_recv_cb_evolves:
  assumes "node_wf n" and "recv_ok n cb" and "run_recv_cb E sk cb msg n = Inr m"
  shows "evolves n m"
  using assms
  by (cases cb) (auto simp: run_recv_cb_def on_receive_evolves incoming_message_evolves)

lemma sock_recv_ok: "node_wf n \<Longrightarrow> sock_tab n sk = Some so \<Longrightarrow> recv_ok n (s_cbRecv so)"
  using node_wfD(6) [of n sk so] by (simp add: sock_ok_def)

lemma thread_received_evolves:
  assumes "node_wf n" and "thread_received E sk buf n = Inr m"
  shows "evolves n m"
proof -
  have dispatch: "evolves u v" if "node_wf u" "dispatch_event E sk e u = Inr v" for e u v
  proof (cases e)
    case (RecvChunk msg)
    with that(2) obtain so where so: "sock_tab u sk = Some so" "run_recv_cb E sk (s_cbRecv so) msg u = Inr v"
      by (auto simp: dispatch_event_def)
    from run_recv_cb_evolves [OF that(1) sock_recv_ok [OF that(1) so(1)] so(2)] show ?thesis .
  qed (use that in \<open>auto simp: dispatch_event_def\<close>)
  obtain so where so: "sock_tab n sk = Some so"
    using assms(2) by (auto simp: thread_received_def live_def split: option.splits)
  show ?thesis
  proof (cases "s_bLinebuffer so")
    case True
    then have loop: "foldE (dispatch_event E sk) (recv_loop buf 0) n = Inr m"
      using assms(2) so by (simp add: thread_received_def)
    show ?thesis by (rule foldE_evolves_all [OF _ assms(1) loop]) (rule dispatch)
  next
    case False
    then have "run_recv_cb E sk (s_cbRecv so) buf n = Inr m"
      using assms(2) so by (simp add: thread_received_def)
    then show ?thesis using assms(1) sock_recv_ok [OF assms(1) so] by (intro run_recv_cb_evolves)
  qed
qed

lemma thread_opened_evolves:
  assumes "node_wf n" and "thread_opened sk n = Inr m"
  shows "evolves n m"
proof -
  obtain u cb where u: "upd_sock sk (\<lambda>so. so\<lparr>s_bStop := False, s_semConnected := Suc (s_semConnected so)\<rparr>) n = Inr u"
      and m: "run_open_cb cb u = Inr m"
    using assms(2) by (auto simp: thread_opened_def)
  have nu: "evolves n u" by (rule evolves_upd_sock [OF assms(1) u]) (simp add: sock_ok_def)
  have "evolves u m"
    using m evolvesD(1) [OF nu]
    by (cases cb) (auto simp: run_open_cb_def host_welcome_evolves sub_on_open_evolves)
  with nu show ?thesis by (rule evolves_trans)
qed

lemma host_on_close_evolves:
  assumes "node_wf n" and "host_on_close E h n = Inr m"
  shows "evolves n m"
proof -
  obtain u sk v where u: "upd_host h (\<lambda>k. k\<lparr>h_bReady := False\<rparr>) n = Inr u"
      and v: "sock_close sk False u = Inr v" "close_all_channels E h v = Inr m"
    using assms(2) by (auto simp: host_on_close_def on_host_close_def)
  have nu: "evolves n u" by (rule evolves_upd_host [OF assms(1) u]) simp
  note uv = sock_close_evolves [OF evolvesD(1) [OF nu] v(1)]
  note vm = close_all_channels_evolves [OF evolvesD(1) [OF uv] v(2)]
  show ?thesis using nu uv vm by (blast intro: evolves_trans)
qed

lemma run_close_cb_evolves:
  "node_wf n \<Longrightarrow> run_close_cb E cb n = Inr m \<Longrightarrow> evolves n m"
  by (cases cb) (auto simp: host_on_close_evolves sub_on_close_evolves)

lemma thread_closed_evolves:
  assumes "node_wf n" and "thread_closed E sk n = Inr m"
  shows "evolves n m"
proof -
  from assms(2) obtain so so' :: socket and u where u: "run_close_cb E (s_on_close so) (emit (CloseFd sk) n) = Inr u"
      and eq: "Inr (if s_bReconnect so' \<and> s_isClient so' \<and> resolves E (c_str (s_ip so')) \<and> can_socket E
          then emit (Connect sk (s_ip so') (s_port so')) u else u) = (Inr m :: node res)"
    unfolding thread_closed_def by (elim bindE_InrE) (rule that)
  then have m: "m = u \<or> (\<exists>e. m = emit e u)" by (auto split: if_splits)
  have n1: "evolves n (emit (CloseFd sk) n)" using assms(1) by simp
  note u1 = run_close_cb_evolves [OF evolvesD(1) [OF n1] u]
  have "evolves u m" using m evolvesD(1) [OF u1] by auto
  with n1 u1 show ?thesis by (blast intro: evolves_trans)
qed

lemma server_accept_evolves:
  assumes "node_wf n" and "server_accept v ip port n = Inr m"
  shows "evolves n m"
proof -
  obtain sv where sv: "server_tab n v = Some sv"
    using assms(2) by (auto simp: server_accept_def live_def split: option.splits)
  obtain sk a where a: "new_TCPSocket_fd ip port n = (sk, a)" by fastforce
  obtain b d where b: "run_accept_cb (srv_on_open sv) sk a = Inr b"
      and d: "upd_sock sk (\<lambda>so. so\<lparr>s_on_close := CloseAccepted v (s_on_close so)\<rparr>) b = Inr d"
      and m: "upd_server v (\<lambda>srv. srv\<lparr>srv_connections := srv_connections srv @ [sk]\<rparr>) d = Inr m"
    using assms(2) sv a by (auto simp: server_accept_def)
  have na: "evolves n a" and sk: "sock_tab a sk \<noteq> None"
    using evolves_alloc_sock [OF assms(1), of "TCPSocket_default\<lparr>s_ip := ip, s_port := port, s_isClient := False\<rparr>"] a
    by (auto simp: new_TCPSocket_fd_def sock_ok_def TCPSocket_default_def)
  have "accept_ok n (srv_on_open sv)" using node_wfD(7) [OF assms(1) sv] by (simp add: srv_ok_def)
  then have acc: "accept_ok a (srv_on_open sv)" using accept_ok_grows evolvesD(2) [OF na] by blast
  have ab: "evolves a b"
  proof (cases "srv_on_open sv")
    case AcceptSignaling
    then have "upd_sock sk (\<lambda>so. so\<lparr>s_bLinebuffer := True, s_cbRecv := RecvIncoming\<rparr>) a = Inr b"
      using b by (simp add: run_accept_cb_def handle_incoming_connection_def)
    then show ?thesis by (rule evolves_upd_sock [OF evolvesD(1) [OF na]]) (simp add: sock_ok_def)
  next
    case (AcceptSubscriptor c h)
    then show ?thesis
      using b acc sk Subscriptor_tcp_evolves [OF evolvesD(1) [OF na], of c h sk]
      by (auto simp: run_accept_cb_def)
  qed (use b na in \<open>auto simp: run_accept_cb_def\<close>)
  have "server_tab b v \<noteq> None"
    using growsD(3) [OF evolvesD(2) [OF evolves_trans [OF na ab]], of v] sv by simp
  then have bd: "evolves b d"
    by (intro evolves_upd_sock [OF evolvesD(1) [OF ab] d]) (simp add: sock_ok_def)
  have "sock_tab d sk \<noteq> None" using d by (auto simp: upd_Inr_iff)
  then have "evolves d m"
    by (intro evolves_upd_server [OF evolvesD(1) [OF bd] m]) (auto simp: srv_ok_def)
  with na ab bd show ?thesis by (blast intro: evolves_trans)
qed

section \<open>Every reachable state\<close>

lemma handle_evolves:
  assumes "node_wf n" and "handle E e n = Inr m"
  shows "evolves n m"
proof (cases e)
  case (Publish name)
  then obtain c u where "get_or_create_channel name n = Inr (c, u)" "channel_publish E c u = Inr m"
    using assms(2) by (auto simp: handle_def publish_def)
  with get_or_create_channel_evolves [OF assms(1)] channel_publish_evolves show ?thesis
    by (blast intro: evolves_trans)
next
  case (Subscribe name)
  then obtain c u s where "get_or_create_channel name n = Inr (c, u)" "channel_subscribe E c u = Inr (s, m)"
    using assms(2) by (auto simp: handle_def subscribe_def)
  with get_or_create_channel_evolves [OF assms(1)] channel_subscribe_evolves show ?thesis
    by (blast intro: evolves_trans)
qed (use assms in \<open>auto simp: handle_def server_accept_evolves thread_opened_evolves
    thread_received_evolves thread_closed_evolves channel_unpublish_evolves channel_write_evolves
    channel_write_dma_evolves sub_write_evolves sub_write_dma_evolves channel_alloc_evolves
    on_message_evolves add_host_evolves simp del: upd_Inr_iff\<close>)

text \<open>The state \<open>init\<close> leaves before it connects to the default port.\<close>

definition booted :: "env \<Rightarrow> int \<Rightarrow> node" where
  "booted E port = empty_node\<lparr>bInited := True, my_ID := rand_value E, next_addr := 2,
     server_tab := [0 \<mapsto> \<lparr>srv_port = port, srv_bStop = False, srv_connections = [],
                          srv_on_open = AcceptSignaling\<rparr>],
     out := [Listen 0 port], signalingServer := Some 0, SIGNALING_PORT := port,
     host_tab := [1 \<mapsto> \<lparr>h_ip = ''localhost'', h_port = port, h_id = 0, h_bReady = False,
         h_bConnecting = Some False, h_bServer = True, h_socket = None, h_commit_id = 0,
         h_known_commit_id = 0, h_bUpToDate = True, h_bFastforwarding = False\<rparr>],
     hosts := [1]\<rparr>"

lemma init_booted:
  assumes "scan_ports E SIGNALING_DEFAULT_PORT (SIGNALING_DEFAULT_PORT + 64) = Inr port"
  shows "init E empty_node =
    (if port \<noteq> SIGNALING_DEFAULT_PORT
     then add_host_inited E ''localhost'' SIGNALING_DEFAULT_PORT (booted E port) else Inr (booted E port))"
  using assms
  by (simp add: init_def empty_node_def TCPServer_range_def new_server_def Host_loopback_def
      new_host_def booted_def numeral_2_eq_2)

lemma booted_wf: "node_wf (booted E port)"
proof -
  have "mesh_wf (booted E port)"
    by (auto simp: mesh_wf_defs booted_def empty_node_def split: if_splits)
  then show ?thesis by (simp add: node_wf_def srv_ok_def booted_def empty_node_def)
qed

lemma init_evolves:
  assumes "init E empty_node = Inr n"
  shows "\<exists>port. scan_ports E SIGNALING_DEFAULT_PORT (SIGNALING_DEFAULT_PORT + 64) = Inr port
    \<and> evolves (booted E port) n"
proof -
  obtain port where port: "scan_ports E SIGNALING_DEFAULT_PORT (SIGNALING_DEFAULT_PORT + 64) = Inr port"
    using assms by (auto simp: init_def empty_node_def TCPServer_range_def)
  then have "evolves (booted E port) n"
    using init_booted [OF port] assms booted_wf add_host_inited_evolves by (auto split: if_splits)
  with port show ?thesis by blast
qed

lemma reachable_wf: "reachable E n \<Longrightarrow> node_wf n"
proof (induction rule: reachable.induct)
  case (start n)
  then show ?case using init_evolves by blast
qed (blast dest: handle_evolves)


text \<open>
  The process keeps its identity: whatever it handles, hosts are only added to the registry,
  the first of them stays the one \<open>Host::me()\<close> returns, and it exists.
\<close>

theorem me_is_stable:
  assumes "reachable E n" and "handle E e n = Inr m"
  shows "\<exists>h k. me n = Inr h \<and> me m = Inr h \<and> host_tab m h = Some k \<and> take (length (hosts n)) (hosts m) = hosts n"
proof -
  have wf: "mesh_wf n" using reachable_wf [OF assms(1)] by (rule node_wfD(1))
  have ev: "evolves n m" using handle_evolves [OF reachable_wf [OF assms(1)] assms(2)] .
  then obtain hs where hs: "hosts m = hosts n @ hs" by (auto simp: evolves_def grows_def)
  have wfm: "mesh_wf m" using ev by (blast dest: node_wfD(1))
  have "hd (hosts m) = hd (hosts n)" using hs wf by (simp add: mesh_wf_def)
  then show ?thesis
    using mesh_wf_me [OF wf] mesh_wf_me [OF wfm] mesh_wf_live [OF wfm, of "hd (hosts n)"] hs wf
    by (auto simp: mesh_wf_def)
qed

text \<open>
  In a reachable state the operations on the whole registry cannot fail: looking hosts and
  channels up, broadcasting, and announcing the hosts and the published channels.
\<close>

theorem registry_operations_total:
  assumes "reachable E n"
  shows "\<exists>r c m1 m2 m3. get_host ip port n = Inr r \<and> get_channel name n = Inr c
    \<and> broadcast s n = Inr m1 \<and> broadcast_hosts n = Inr m2 \<and> broadcast_published_channels n = Inr m3"
proof -
  have wf: "node_wf n" using assms by (rule reachable_wf)
  have "chans_live n"
  proof -
    have "c < next_addr n" if "chan_tab n c \<noteq> None" for c
      using node_wfD(1) [OF wf] that by (auto simp: mesh_wf_def fresh_above_dom)
    then show ?thesis using node_wfD(3) [OF wf] by (auto simp: chans_live_def)
  qed
  then show ?thesis
    using node_wfD(1) [OF wf] get_host_eq get_channel_eq broadcast_result broadcast_hosts_result
      broadcast_published_exact by blast
qed

text \<open>
  C30: \<open>init\<close> listens on the first free port of the 65 signaling ports; the process starts with its
  loopback host alone when that is the default port, and otherwise dials the process there.
\<close>

theorem init_result:
  assumes "init E empty_node = Inr n"
  shows "\<exists>port. SIGNALING_PORT n = port \<and> SIGNALING_DEFAULT_PORT \<le> port \<and> port \<le> SIGNALING_DEFAULT_PORT + 64
    \<and> {q. SIGNALING_DEFAULT_PORT \<le> q \<and> q < port \<and> can_bind E q} = {} \<and> can_bind E port
    \<and> known_keys n = {(''localhost'', port), (''localhost'', SIGNALING_DEFAULT_PORT)}"
proof -
  obtain port where port: "scan_ports E SIGNALING_DEFAULT_PORT (SIGNALING_DEFAULT_PORT + 64) = Inr port"
    using init_evolves [OF assms] by blast
  have wf: "mesh_wf (booted E port)" using booted_wf by (rule node_wfD(1))
  have keys: "known_keys (booted E port) = {(''localhost'', port)}"
    by (auto simp: known_keys_def mesh_find_def host_matches_def booted_def empty_node_def)
  have "known_keys n = {(''localhost'', port), (''localhost'', SIGNALING_DEFAULT_PORT)} \<and> SIGNALING_PORT n = port"
  proof (cases "port = SIGNALING_DEFAULT_PORT")
    case True
    then show ?thesis using init_booted [OF port] assms keys by (simp add: booted_def)
  next
    case False
    then have add: "add_host_key E (''localhost'', SIGNALING_DEFAULT_PORT) (booted E port) = Inr n"
      using init_booted [OF port] assms by (simp add: add_host_key_def)
    have "mesh_find (booted E port) (''localhost'', SIGNALING_DEFAULT_PORT) = None"
      using False by (simp add: mesh_find_def host_matches_def booted_def empty_node_def)
    from add_host_key_pushes [OF wf this add] have "SIGNALING_PORT n = port" by (simp add: booted_def)
    moreover have "known_keys n = known_keys (booted E port) \<union> {(''localhost'', SIGNALING_DEFAULT_PORT)}"
      using mesh_registry.add_all [OF wf, of E "[(''localhost'', SIGNALING_DEFAULT_PORT)]" n] add
      by (simp add: known_keys_def)
    ultimately show ?thesis using keys by auto
  qed
  moreover have "SIGNALING_DEFAULT_PORT \<le> port \<and> port \<le> SIGNALING_DEFAULT_PORT + 64 \<and> can_bind E port
      \<and> (\<forall>q. SIGNALING_DEFAULT_PORT \<le> q \<and> q < port \<longrightarrow> (\<exists>e. server_bind E q = Inl e))" "can_socket E"
    using port by (auto simp: scan_ports_Inr_iff server_bind_def split: if_splits)
  ultimately show ?thesis by (auto simp: server_bind_def)
qed

end
