(* ===== verification/Pubsub_Api.thy ===== *)
theory Pubsub_Api
  imports Gossip Delivery
begin

text \<open>
  src/libpubsub.cpp and the programs of src/bin: writing and allocating through the base classes,
  the memory of a channel, the command line, the level of the DBG macros, and the main functions.
  Shown: the memory of a channel holds what was stored, what the option \<open>-h\<close> adds to the mesh, which
  channel the programs really use, how the overloads of write differ, that pubsub_dump prints
  nothing, that the rate throughput prints is an eighth of the real one, and that allocating through
  a Subscription never returns.
\<close>

section \<open>Writing and allocating (libpubsub.cpp)\<close>

text \<open>
  A pointer passed to \<open>write\<close>: the object's own memory, as its conversion operators return it, or
  another buffer.
\<close>

datatype buffer = OwnPtr | Bytes string

definition Channel_write :: "addr \<Rightarrow> buffer \<Rightarrow> node \<Rightarrow> node res" where
  "Channel_write c s n =
     (case s of OwnPtr \<Rightarrow> channel_write_dma c n | Bytes msg \<Rightarrow> channel_write c msg n)"

definition Channel_write_string :: "addr \<Rightarrow> string \<Rightarrow> node \<Rightarrow> node res" where
  "Channel_write_string c s n = Channel_write c (Bytes (c_str s)) n"

definition Subscription_write :: "addr \<Rightarrow> buffer \<Rightarrow> node \<Rightarrow> node res" where
  "Subscription_write s b n =
     (case b of OwnPtr \<Rightarrow> sub_write_dma s n | Bytes msg \<Rightarrow> sub_write s msg n)"

definition Channel_alloc :: "env \<Rightarrow> addr \<Rightarrow> nat \<Rightarrow> node \<Rightarrow> node res" where
  "Channel_alloc E c sz n = channel_alloc E c sz n"

text \<open>
  \<open>((SubscriptionImpl*)this)->alloc(size)\<close>: SubscriptionImpl declares no \<open>alloc\<close>, so the call is to
  this very function.
\<close>

partial_function (option) Subscription_alloc :: "addr \<Rightarrow> nat \<Rightarrow> node \<Rightarrow> node option" where
  "Subscription_alloc s sz n = Subscription_alloc s sz n"

text \<open>Allocating memory through a Subscription never returns.\<close>

theorem Subscription_alloc_diverges: "Subscription_alloc s sz n = None"
proof -
  have "Subscription_alloc s sz n = Some m \<Longrightarrow> False" for m
    by (rule Subscription_alloc.raw_induct [where P = "\<lambda>_ _ _ _. False"])
  then show ?thesis by (cases "Subscription_alloc s sz n") auto
qed

section \<open>The memory of a channel (libpubsub.h)\<close>

text \<open>
  The operators hand out \<open>ptr\<close>; here an element is read and stored through \<open>operator[]\<close>. The memory of
  a Subscription is never allocated, so its pointer is always null.
\<close>

definition Channel_at :: "addr \<Rightarrow> int \<Rightarrow> node \<Rightarrow> char res" where
  "Channel_at c i n =
     bindE (live (chan_tab n) c) (\<lambda>k.
     bindE (deref (c_ptr k)) (\<lambda>p.
     if 0 \<le> i \<and> i < int (length p) then Inr (p ! nat i) else Inl OutOfBounds))"

definition Channel_store :: "addr \<Rightarrow> int \<Rightarrow> char \<Rightarrow> node \<Rightarrow> node res" where
  "Channel_store c i x n =
     bindE (live (chan_tab n) c) (\<lambda>k.
     bindE (deref (c_ptr k)) (\<lambda>p.
     if 0 \<le> i \<and> i < int (length p)
     then upd_chan c (\<lambda>k. k\<lparr>c_ptr := Some (p[nat i := x])\<rparr>) n else Inl OutOfBounds))"

definition Channel_size :: "addr \<Rightarrow> node \<Rightarrow> nat res" where
  "Channel_size c n = bindE (live (chan_tab n) c) (\<lambda>k. Inr (c_size k))"

definition Subscription_at :: "addr \<Rightarrow> int \<Rightarrow> node \<Rightarrow> char res" where
  "Subscription_at s i n = bindE (live (sub_tab n) s) (\<lambda>_. Inl NullDeref)"

definition Subscription_size :: "addr \<Rightarrow> node \<Rightarrow> nat res" where
  "Subscription_size s n = bindE (live (sub_tab n) s) (\<lambda>k. Inr (sub_size k))"


text \<open>Nobody acts on the announcement of the allocation: the dispatcher does not know it.\<close>

theorem allocation_announcement_ignored:
  "digest_message E h (alloc_message name sz) n = Inr n"
  by (simp add: digest_message_def alloc_message_def)

text \<open>The overloads for C strings: the base classes leave the terminating NUL out, the others send it.\<close>

definition Channel_write_cstr :: "addr \<Rightarrow> string \<Rightarrow> node \<Rightarrow> node res" where
  "Channel_write_cstr c s n = Channel_write c (Bytes (c_str s)) n"

definition ChannelImpl_write_cstr :: "addr \<Rightarrow> string \<Rightarrow> node \<Rightarrow> node res" where
  "ChannelImpl_write_cstr c s n = channel_write c (frame s) n"

definition Subscription_write_cstr :: "addr \<Rightarrow> string \<Rightarrow> node \<Rightarrow> node res" where
  "Subscription_write_cstr b s n = Subscription_write b (Bytes (c_str s)) n"

definition SubscriptionImpl_write_cstr :: "addr \<Rightarrow> string \<Rightarrow> node \<Rightarrow> node res" where
  "SubscriptionImpl_write_cstr b s n = sub_write b (frame s) n"

theorem write_overloads_differ:
  assumes "chan_tab n c = Some k" and "list_all (tcp_sub n) (c_subscriptors k)"
  shows "Channel_write_cstr c s n = Inr (n\<lparr>out := out n @ sub_sends n (c_str s) (c_subscriptors k)\<rparr>)
    \<and> ChannelImpl_write_cstr c s n = Inr (n\<lparr>out := out n @ sub_sends n (c_str s @ [NUL]) (c_subscriptors k)\<rparr>)"
  using assms(1) write_all [OF assms(2) sub_write_result(1)]
  by (simp add: Channel_write_cstr_def ChannelImpl_write_cstr_def Channel_write_def channel_write_def frame_def)

section \<open>Hosts\<close>

text \<open>The two functions outside the namespace pass on to those of mesh.cpp.\<close>

definition api_add_host_url :: "env \<Rightarrow> string \<Rightarrow> node \<Rightarrow> node res" where
  "api_add_host_url E url n = add_host_url E url n"

definition api_add_host :: "env \<Rightarrow> string \<Rightarrow> int \<Rightarrow> node \<Rightarrow> node res" where
  "api_add_host E ip port n = add_host E ip port n"

text \<open>A url with a port and the two arguments it stands for are the same host.\<close>

lemma api_add_host_agree:
  assumes "CHR '':'' \<notin> set ip" and "int32 port"
  shows "api_add_host_url E (ip @ CHR '':'' # show_int port) n = api_add_host E ip port n"
  using assms by (simp add: api_add_host_url_def api_add_host_def add_host_url_def)

section \<open>The command line\<close>

fun split_on :: "char \<Rightarrow> string \<Rightarrow> string list" where
  "split_on d [] = [[]]"
| "split_on d (c # cs) =
     (if c = d then [] # split_on d cs
      else case split_on d cs of [] \<Rightarrow> [[c]] | t # ts \<Rightarrow> (c # t) # ts)"

text \<open>The tokens \<open>strtok\<close> returns: the non-empty pieces.\<close>

definition strtok_tokens :: "char \<Rightarrow> string \<Rightarrow> string list" where
  "strtok_tokens d s = filter (\<lambda>t. t \<noteq> []) (split_on d s)"

text \<open>\<open>argv[2]\<close> is null when there is no third argument; \<open>strtok\<close> then has nothing to resume.\<close>

definition parse_args :: "env \<Rightarrow> string list \<Rightarrow> node \<Rightarrow> node res" where
  "parse_args E argv n =
     (if 2 \<le> length argv \<and> argv ! 1 = ''-h'' then
        (if length argv = 2 then Inl NullDeref
         else foldE (add_host_url E) (strtok_tokens (CHR '','') (argv ! 2)) n)
      else Inr n)"

fun join_with :: "char \<Rightarrow> string list \<Rightarrow> string" where
  "join_with d [] = []"
| "join_with d [t] = t"
| "join_with d (t # u # ts) = t @ d # join_with d (u # ts)"

lemma split_on_no_delim: "d \<notin> set t \<Longrightarrow> split_on d t = [t]"
  by (induction t) auto

lemma split_on_append: "d \<notin> set t \<Longrightarrow> split_on d (t @ d # s) = t # split_on d s"
  by (induction t) auto

lemma strtok_join:
  assumes "\<forall>t\<in>set ts. t \<noteq> [] \<and> d \<notin> set t"
  shows "strtok_tokens d (join_with d ts) = ts"
  using assms
proof (induction ts rule: join_with.induct)
  case (2 d t)
  then show ?case by (simp add: strtok_tokens_def split_on_no_delim)
next
  case (3 d t u ts)
  then show ?case by (simp add: strtok_tokens_def split_on_append)
qed (simp add: strtok_tokens_def)

text \<open>A host on the command line, and its key in the registry.\<close>

definition url_key :: "string \<Rightarrow> string \<times> int" where
  "url_key url = (str_before url '':'', atoi (str_after url '':''))"

lemma add_host_url_inited:
  "bInited n \<Longrightarrow> add_host_url E url n = add_host_key E (url_key url) n"
  by (simp add: add_host_url_def add_host_def init_def add_host_key_def url_key_def)

lemma add_host_key_inited:
  assumes "mesh_wf n" and "add_host_key E key n = Inr m"
  shows "bInited m = bInited n"
proof (cases "mesh_find n key")
  case None
  from add_host_key_pushes [OF assms(1) None assms(2)] show ?thesis by simp
next
  case (Some h)
  then have "m = n" using assms mesh_registry.add_present [OF assms(1), of key E] by simp
  then show ?thesis by simp
qed

lemma add_urls_eq:
  assumes "mesh_wf n" and "bInited n"
  shows "foldE (add_host_url E) urls n = foldE (add_host_key E) (map url_key urls) n"
  using assms
proof (induction urls arbitrary: n)
  case (Cons url urls)
  show ?case
  proof (cases "add_host_key E (url_key url) n")
    case (Inr m)
    then have "mesh_wf m" "bInited m"
      using Cons.prems mesh_registry.add_inv add_host_key_inited by blast+
    from Cons.IH [OF this] Inr Cons.prems show ?thesis by (simp add: add_host_url_inited)
  qed (use Cons.prems in \<open>simp add: add_host_url_inited\<close>)
qed simp

text \<open>
  The option \<open>-h host1,host2,...\<close> makes the process know exactly the hosts it knew and the listed
  ones, each by the address before the colon and the port behind it.
\<close>

theorem parse_args_adds_hosts:
  assumes "mesh_wf n" and "bInited n"
    and "list_all (\<lambda>u. u \<noteq> [] \<and> CHR '','' \<notin> set u) urls"
    and "parse_args E (prog # ''-h'' # join_with (CHR '','') urls # rest) n = Inr m"
  shows "mesh_wf m \<and> known_keys m = known_keys n \<union> url_key ` set urls"
proof -
  have "strtok_tokens (CHR '','') (join_with (CHR '','') urls) = urls"
    using assms(3) by (intro strtok_join) (simp add: list_all_iff)
  then have "foldE (add_host_url E) urls n = Inr m"
    using assms(4) by (simp add: parse_args_def)
  then have "foldE (add_host_key E) (map url_key urls) n = Inr m"
    using add_urls_eq [OF assms(1,2)] by simp
  from mesh_registry.add_all [OF assms(1) this] show ?thesis by (simp add: known_keys_def)
qed

section \<open>The programs (src/bin)\<close>

text \<open>
  A \<open>const char*\<close> exception that reaches \<open>main\<close> is printed there and ends the program; here it stays
  the fault it is.
\<close>

text \<open>\<open>argv[1]\<close> as a \<open>std::string\<close>: constructing it from a null pointer throws.\<close>

definition argv1 :: "string list \<Rightarrow> string res" where
  "argv1 argv = (if length argv \<le> 1 then Inl (Thrown ''std::logic_error'') else Inr (argv ! 1))"

text \<open>The pieces \<open>read(0, buf, 1024)\<close> returns are an argument of the two filters.\<close>

text \<open>What the programs print on \<open>stderr\<close> when they are called wrongly, and the status they return.\<close>

definition publish_USAGE :: "string \<times> int" where
  "publish_USAGE = (''USAGE : publish [-h host1,host2,...] <channel_name>'' @ [NL], 1)"

definition subscribe_USAGE :: "string \<times> int" where
  "subscribe_USAGE = (''USAGE : subscribe <channel_name>'' @ [NL], 1)"

definition throughput_USAGE :: "string \<times> int" where
  "throughput_USAGE = (''USAGE : throughput <in|out [bufsize]>'' @ [NL], 1)"

definition publish_main :: "env \<Rightarrow> string list \<Rightarrow> string list \<Rightarrow> node \<Rightarrow> (int \<times> node) res" where
  "publish_main E argv input n =
     (if argv = [] then Inr (snd publish_USAGE, n)
      else
        bindE (parse_args E argv n) (\<lambda>n.
        bindE (argv1 argv) (\<lambda>name.
        bindE (publish E name n) (\<lambda>(c, n).
        bindE (upd_chan c (\<lambda>k. k\<lparr>c_on_message := True\<rparr>) n) (\<lambda>n.
        bindE (foldE (\<lambda>b. Channel_write c (Bytes b)) input n) (\<lambda>n. Inr (0, n)))))))"

definition subscribe_main :: "env \<Rightarrow> string list \<Rightarrow> string list \<Rightarrow> node \<Rightarrow> (int \<times> node) res" where
  "subscribe_main E argv input n =
     (if argv = [] then Inr (snd subscribe_USAGE, n)
      else
        bindE (parse_args E argv n) (\<lambda>n.
        bindE (argv1 argv) (\<lambda>name.
        bindE (subscribe E name n) (\<lambda>(s, n).
        bindE (upd_sub s (\<lambda>k. k\<lparr>sub_on_message := True\<rparr>) n) (\<lambda>n.
        bindE (foldE (\<lambda>b. Subscription_write s (Bytes b)) input n) (\<lambda>n. Inr (0, n)))))))"

text \<open>
  The DBG macros: DBG prints above level 0, DBG_2 above 1, and so on. The level is 0 until a program
  sets it; publish, subscribe and pubsub_dump never do.
\<close>

definition DBG_LEVEL :: int where
  "DBG_LEVEL = 0"

definition DBG :: "nat \<Rightarrow> int \<Rightarrow> string list \<Rightarrow> string list" where
  "DBG k level ls = (if int k - 1 < level then ls else [])"

definition pubsub_dump_main :: "env \<Rightarrow> string list \<Rightarrow> node \<Rightarrow> (int \<times> string list) res" where
  "pubsub_dump_main E argv n =
     bindE (parse_args E argv n) (\<lambda>n.
     bindE (dump_hosts n) (\<lambda>hs.
     bindE (dump_channels n) (\<lambda>cs. Inr (0, DBG 1 DBG_LEVEL (hs @ cs)))))"

text \<open>The program that is there to print hosts and channels never prints anything.\<close>

theorem pubsub_dump_prints_nothing:
  assumes "pubsub_dump_main E argv n = Inr (code, output)"
  shows "output = []"
  using assms by (auto simp: pubsub_dump_main_def DBG_def DBG_LEVEL_def)

text \<open>
  test/mesh.cpp: a subscriber of channel "A" that only waits, or a publisher that writes a numbered
  line every second, for \<open>rounds\<close> turns of its endless loop.
\<close>

definition test_line :: "nat \<Rightarrow> string" where
  "test_line i = ''TEST '' @ show_nat i"

definition mesh_test_main :: "env \<Rightarrow> string list \<Rightarrow> nat \<Rightarrow> node \<Rightarrow> node res" where
  "mesh_test_main E argv rounds n =
     (if 1 < length argv then
        bindE (subscribe E ''A'' n) (\<lambda>(s, n). upd_sub s (\<lambda>k. k\<lparr>sub_on_message := True\<rparr>) n)
      else
        bindE (publish E ''A'' n) (\<lambda>(c, n).
        bindE (upd_chan c (\<lambda>k. k\<lparr>c_on_message := True\<rparr>) n)
          (foldE (\<lambda>i. Channel_write_string c (test_line i)) [0..<rounds])))"

text \<open>The buffer \<open>throughput out\<close> sends over and over; \<open>char\<close> keeps the low byte of \<open>i % 255\<close>.\<close>

definition throughput_buffer :: "int \<Rightarrow> string res" where
  "throughput_buffer size_arg =
     (if size_arg < 0 then Inl (Thrown ''std::bad_array_new_length'')
      else if size_arg = 0 then Inl OutOfBounds
      else Inr ((map (\<lambda>i. char_of (i mod 255)) [0..<nat size_arg])[nat size_arg - 1 := NL]))"

definition throughput_bufsize :: "string list \<Rightarrow> int" where
  "throughput_bufsize argv = (if 3 \<le> length argv then atoi (argv ! 2) else 512000)"

text \<open>\<open>rounds\<close> turns of the endless loop.\<close>

definition subscribe_out :: "env \<Rightarrow> string \<Rightarrow> int \<Rightarrow> nat \<Rightarrow> node \<Rightarrow> node res" where
  "subscribe_out E name size_arg rounds n =
     bindE (subscribe E name n) (\<lambda>(s, n).
     bindE (throughput_buffer size_arg) (\<lambda>buf.
     foldE (\<lambda>_. Subscription_write s (Bytes buf)) [0..<rounds] n))"

definition publish_in :: "env \<Rightarrow> string \<Rightarrow> node \<Rightarrow> node res" where
  "publish_in E name n =
     bindE (publish E name n) (\<lambda>(c, n). upd_chan c (\<lambda>k. k\<lparr>c_on_message := True\<rparr>) n)"

definition throughput_main :: "env \<Rightarrow> string list \<Rightarrow> nat \<Rightarrow> node \<Rightarrow> (int \<times> node) res" where
  "throughput_main E argv rounds n =
     (if length argv \<le> 1 then Inr (snd throughput_USAGE, n)
      else
        bindE (parse_args E argv n) (\<lambda>n.
        bindE (if argv ! 1 = ''out''
               then subscribe_out E ''__throughput'' (throughput_bufsize argv) rounds n
               else publish_in E ''__throughput'' n) (\<lambda>n. Inr (0, n))))"

text \<open>
  Given hosts, the programs ignore the channel name behind them: they publish and subscribe to
  the channel called "-h", whatever follows on the command line.
\<close>

theorem programs_ignore_channel_name:
  "publish_main E (prog # ''-h'' # hostlist # args) input n = publish_main E (prog # ''-h'' # hostlist # args') input n
   \<and> subscribe_main E (prog # ''-h'' # hostlist # args) input n = subscribe_main E (prog # ''-h'' # hostlist # args') input n
   \<and> argv1 (prog # ''-h'' # hostlist # args) = Inr ''-h''"
  by (simp add: publish_main_def subscribe_main_def parse_args_def argv1_def)

text \<open>
  The buffer of the throughput program has the requested size, ends in a newline, and counts up
  to 254 everywhere else.
\<close>

theorem throughput_buffer_content:
  assumes "0 < size_arg"
  shows "\<exists>buf. throughput_buffer size_arg = Inr buf \<and> int (length buf) = size_arg
    \<and> last buf = NL \<and> butlast buf = map (\<lambda>i. char_of (i mod 255)) [0..<nat size_arg - 1]"
proof -
  obtain k where k: "nat size_arg = Suc k" using assms by (cases "nat size_arg") auto
  have "(map (\<lambda>i. char_of (i mod 255)) [0..<Suc k])[k := NL] = map (\<lambda>i. char_of (i mod 255)) [0..<k] @ [NL]"
    by (simp add: list_update_append)
  then show ?thesis
    using assms k by (simp add: throughput_buffer_def)
qed

theorem throughput_buffer_content_witness:
  "\<exists>buf. throughput_buffer 3 = Inr buf \<and> int (length buf) = 3 \<and> last buf = NL"
  using throughput_buffer_content [of 3] by auto

section \<open>The measured rate (throughput.cpp)\<close>

text \<open>
  The count of a second is a \<open>long\<close>; dividing it by 8.0 converts it to a double, 53 bits, and storing the
  quotient in a \<open>float\<close> keeps 24 of them; the divisions are by powers of two and exact. So the value
  is \<open>N / 2 ^ s\<close> for the rounded count \<open>N\<close>.
\<close>

fun bit_length :: "nat \<Rightarrow> nat" where
  "bit_length n = (if n = 0 then 0 else Suc (bit_length (n div 2)))"

declare bit_length.simps [simp del]

definition half_even :: "nat \<Rightarrow> nat \<Rightarrow> nat" where
  "half_even a d =
     (let q = a div d; r = a mod d in if 2 * r > d \<or> 2 * r = d \<and> odd q then Suc q else q)"

definition round_bits :: "nat \<Rightarrow> nat \<Rightarrow> nat" where
  "round_bits p n = (let k = bit_length n - p in half_even n (2 ^ k) * 2 ^ k)"

text \<open>\<open>%0.2f\<close> of \<open>a / d\<close>.\<close>

definition show_hundredths :: "nat \<Rightarrow> nat \<Rightarrow> string" where
  "show_hundredths a d =
     (let h = half_even (100 * a) d in
      show_nat (h div 100) @ ''.'' @ [digit (h mod 100 div 10), digit (h mod 10)])"

definition rate_line :: "nat \<Rightarrow> string" where
  "rate_line bytes =
     (let N = round_bits 24 (round_bits 53 bytes) in
      if N < 1000 * 2 ^ 13 then show_hundredths N (2 ^ 13) @ ''ko/s''
      else if N < 1000 * 2 ^ 23 then show_hundredths N (2 ^ 23) @ ''Mo/s''
      else show_hundredths N (2 ^ 33) @ ''Go/s'')"

lemma bit_length_less: "n < 2 ^ k \<Longrightarrow> bit_length n \<le> k"
proof (induction k arbitrary: n)
  case (Suc k)
  then have "bit_length (n div 2) \<le> k" by simp
  then show ?case by (subst bit_length.simps) simp
qed (simp add: bit_length.simps)

lemma round_bits_small: "n < 2 ^ p \<Longrightarrow> round_bits p n = n"
  using bit_length_less [of n p] by (simp add: round_bits_def half_even_def)

lemma digit_0: "digit 0 = CHR ''0''"
  by code_simp

text \<open>
  Eight kilo-octets in a second are printed as one: the octets are divided by 8, as if they were
  bits, but the unit is the octet.
\<close>

theorem rate_is_an_eighth:
  assumes "k < 1000"
  shows "rate_line (8 * k * 1024) = show_nat k @ ''.00ko/s''"
proof -
  have N: "round_bits 24 (round_bits 53 (8 * k * 1024)) = 8192 * k"
    using assms by (simp add: round_bits_small)
  have "half_even (100 * (8192 * k)) (2 ^ 13) = 100 * k"
    by (simp add: half_even_def)
  then show ?thesis
    using assms unfolding rate_line_def N by (simp add: show_hundredths_def Let_def digit_0)
qed

end
