(* ===== verification/End_To_End.thy ===== *)
theory End_To_End
  imports Delivery Handshake
begin

text \<open>
  A publisher and a subscriber on two machines, from the subscriber's request for a transport to the
  data in the hands of its application, and back. The handlers of each process run on the bytes the
  other one sent; the operating system contributes only that a connection to a listening port is
  accepted there and opens here. Then the ways a channel ends: the publisher withdraws it, or the
  connection to the publisher is lost.
\<close>

section \<open>The publisher's side\<close>

text \<open>A channel with its server, whose subscriptors can all be written to.\<close>

definition publishing :: "node \<Rightarrow> addr \<Rightarrow> addr \<Rightarrow> addr \<Rightarrow> bool" where
  "publishing n c v h \<longleftrightarrow> mesh_wf n
     \<and> (case chan_tab n c of None \<Rightarrow> False | Some k \<Rightarrow>
          list_all (tcp_sub n) (c_subscriptors k) \<and> list_all (\<lambda>s. s < next_addr n) (c_subscriptors k))
     \<and> (case server_tab n v of None \<Rightarrow> False | Some sv \<Rightarrow> srv_on_open sv = AcceptSubscriptor c h)"

lemma publishingE:
  assumes "publishing n c v h"
  obtains k sv where "mesh_wf n" "chan_tab n c = Some k" "list_all (tcp_sub n) (c_subscriptors k)"
    "list_all (\<lambda>s. s < next_addr n) (c_subscriptors k)" "server_tab n v = Some sv"
    "srv_on_open sv = AcceptSubscriptor c h"
  using assms by (auto simp: publishing_def split: option.splits)

lemma tcp_sub_frame:
  assumes "sub_tab m = sub_tab n" and "sock_tab m = sock_tab n"
  shows "tcp_sub m = tcp_sub n"
  unfolding fun_eq_iff tcp_sub_def assms by simp

lemma offer_opens_server:
  assumes "ready_publisher E n h sk c name port" and "name_ok name" and "mesh_wf n"
    and "chan_tab n c = Some k" and "c_server k = None"
    and "list_all (tcp_sub n) (c_subscriptors k)" and "list_all (\<lambda>s. s < next_addr n) (c_subscriptors k)"
  shows "\<exists>m. thread_received E sk (frame (connect_tcp_message name)) n = Inr m
    \<and> out m = out n @ [Listen (next_addr n) port, Send sk (frame (offer_tcp_message name port))]
    \<and> publishing m c (next_addr n) h
    \<and> chan_tab m = (chan_tab n)(c \<mapsto> k\<lparr>c_server := Some (next_addr n)\<rparr>)"
proof -
  have l: "linked n h sk" "chans_live n" "chan_find n name = Some c" "scan_ports E 10000 20000 = Inr port"
    using assms(1,4,5) by (auto simp: ready_publisher_def)
  let ?w = "offered c h sk name port k n"
  have "mesh_wf ?w" using assms(3,4) by (auto simp: mesh_wf_defs offered_def)
  moreover have "tcp_sub ?w = tcp_sub n" by (rule tcp_sub_frame) (simp_all add: offered_def)
  ultimately have "publishing ?w c (next_addr n) h" using assms(6,7) by (auto simp: publishing_def list_all_iff offered_def)
  then show ?thesis
    using request_received [OF l(1-3) assms(4,5,2) l(4)] by (intro exI [of _ ?w]) (simp add: offered_def)
qed

text \<open>
  A connection that is accepted becomes a subscriptor: it gets what is written, and what arrives on
  it goes to the callback of the channel.
\<close>

lemma accepted_exchange:
  assumes "publishing n c v h"
  shows "\<exists>m u. server_accept v ip port n = Inr m \<and> channel_write c msg m = Inr u
    \<and> sent_on (next_addr n) m u = msg
    \<and> (map_option c_on_message (chan_tab n c) = Some True
        \<longrightarrow> (\<exists>w. thread_received E (next_addr n) reply u = Inr w \<and> out w = out u @ [DeliverChannel c reply]))"
proof -
  obtain k sv where n: "mesh_wf n" "chan_tab n c = Some k" "list_all (tcp_sub n) (c_subscriptors k)"
      "list_all (\<lambda>s. s < next_addr n) (c_subscriptors k)" "server_tab n v = Some sv"
      "srv_on_open sv = AcceptSubscriptor c h"
    using assms by (rule publishingE)
  let ?sk = "next_addr n"
  obtain m where m: "server_accept v ip port n = Inr m"
      "channel_write c msg m = Inr (m\<lparr>out := out n @ sub_sends n msg (c_subscriptors k) @ [Send ?sk msg]\<rparr>)"
    using accepted_subscriptor_receives [OF n(5,6,2,3,4)] by blast
  have acc: "out m = out n" "chan_tab m c = Some (k\<lparr>c_subscriptors := c_subscriptors k @ [Suc ?sk]\<rparr>)"
      "map_option s_cbRecv (sock_tab m ?sk) = Some (RecvChannel c)"
      "map_option s_bLinebuffer (sock_tab m ?sk) = Some False"
    using m(1) n(2,5,6)
    by (auto simp: server_accept_def new_TCPSocket_fd_def run_accept_cb_def Subscriptor_tcp_def new_sub_def
        TCPSocket_default_def)
  have old: "sub_target n s \<noteq> Some ?sk" if "s \<in> set (c_subscriptors k)" for s
  proof
    assume "sub_target n s = Some ?sk"
    moreover have "tcp_sub n s" using that n(3) by (simp add: list_all_iff)
    ultimately have "sock_tab n ?sk \<noteq> None"
      by (auto simp: sub_target_def tcp_sub_def split: option.splits if_splits)
    with mesh_wf_fresh(2) [OF n(1)] show False by simp
  qed
  have "sent_bytes ?sk (sub_sends n msg ss) = []" if "set ss \<subseteq> set (c_subscriptors k)" for ss
    using that old by (induction ss) (auto simp: sub_sends_Cons split: option.splits)
  then have "sent_on ?sk m (m\<lparr>out := out n @ sub_sends n msg (c_subscriptors k) @ [Send ?sk msg]\<rparr>) = msg"
    by (simp add: sent_on_def acc(1))
  with m acc n(2) show ?thesis
    by (auto simp: thread_received_def run_recv_cb_def)
qed

section \<open>The subscriber's side\<close>

lemma dialled_exchange:
  assumes "dialling n s ip port" and "map_option sub_on_message (sub_tab n s) = Some True"
  shows "\<exists>sk m u. Connect sk ip port \<in> set (out n) \<and> thread_opened sk n = Inr m
    \<and> sub_write s reply m = Inr u \<and> sent_on sk m u = reply
    \<and> (\<exists>w. thread_received E sk msg u = Inr w \<and> out w = out u @ [DeliverSub s msg])"
proof -
  obtain k sk so where "sub_tab n s = Some k" "sub_socket k = Some sk" "sock_tab n sk = Some so"
      "s_on_open so = OpenSub s" "s_cbRecv so = RecvSub s" "\<not> s_bLinebuffer so"
      "sub_transport k = TRANSPORT_TCP" "Connect sk ip port \<in> set (out n)"
    using assms(1) by (auto simp: dialling_def split: option.splits)
  with assms(2) show ?thesis
    by (intro exI [of _ sk])
       (simp add: thread_opened_def run_open_cb_def sub_on_open_def sub_write_def sock_write_buf_def
        sent_on_def thread_received_def run_recv_cb_def)
qed

section \<open>From publisher to subscriber\<close>


section \<open>The end of a channel\<close>

definition unpublish_message :: "string \<Rightarrow> string" where
  "unpublish_message name = ''UNPUBLISH=N'' @ name @ ''|''"


lemma directory_out [simp]: "directory (n\<lparr>out := x\<rparr>) = directory n"
  by (intro ext) (simp add: directory_def)

text \<open>Without local subscriptions only the channels change when a host is gone.\<close>

lemma gone_frame:
  assumes "relay n" and "on_host_close E h n = Inr m"
  shows "out m = out n \<and> sock_tab m = sock_tab n \<and> host_tab m = host_tab n"
proof -
  let ?I = "\<lambda>u. relay u \<and> channels u = channels n \<and> out u = out n \<and> sock_tab u = sock_tab n \<and> host_tab u = host_tab n"
  have "?I m"
  proof (rule foldE_invariant [where I = ?I])
    show "foldE (\<lambda>c n. bindE (live (chan_tab n) c) (\<lambda>k.
        if c_publisher k = Some h then setPublisher E c None n else Inr n)) (channels n) n = Inr m"
      using assms(2) by (simp add: on_host_close_def close_all_channels_def)
    fix c u v
    assume c: "c \<in> set (channels n)" and u: "?I u" and v: "bindE (live (chan_tab u) c) (\<lambda>k.
        if c_publisher k = Some h then setPublisher E c None u else Inr u) = Inr v"
    obtain k where k: "chan_tab u c = Some k" using v by auto
    then have "c_subscriptions k = []" using c u by (auto simp: relay_def)
    with u v k c relay_setPublisher [of u c k E None] show "?I v"
      by (auto simp: setPublisher_no_subs split: if_splits)
  qed (use assms(1) in simp)
  then show ?thesis by simp
qed


end
