(* ===== verification/Late_Joiner.thy ===== *)
theory Late_Joiner
  imports End_To_End
begin

text \<open>
  A process that joins late. When a host becomes ready it is told every channel that is published
  here, and a peer that reads this knows this process as the publisher of exactly these channels,
  besides those it knew.
\<close>

section \<open>Reading announcements\<close>

text \<open>The mesh of a process that reads announcements stays as it is.\<close>

lemma announce_keeps_mesh:
  assumes "relay n" and "run_statement E (Announce h name opts) n = Inr m" and "CHR ''|'' \<notin> set name"
  shows "sock_tab m = sock_tab n" "host_tab m = host_tab n"
proof -
  obtain c u k where u: "get_or_create_channel name n = Inr (c, u)" "relay u" "c \<in> set (channels u)" "chan_tab u c = Some k"
    using relay_get_or_create [OF assms(1)] by blast
  have "chans_live n" using assms(1) by (simp add: relay_def)
  then have same: "sock_tab u = sock_tab n" "host_tab u = host_tab n"
    using u(1) by (auto simp: get_or_create_channel_cases ChannelImpl_ctor_def split: option.splits)
  have "c_subscriptions k = []" using u(2-4) by (auto simp: relay_def)
  then have "run_statement E (Announce h name opts) n
      = Inr (u\<lparr>chan_tab := (chan_tab u)(c \<mapsto> k\<lparr>c_publisher := Some h, c_offeredPort := 0\<rparr>)\<rparr>)"
    using assms(3) u(1) setPublisher_no_subs [OF u(4), of E "Some h"]
      digest_PUBLISH [of E h "CHR ''P'' # name @ CHR ''|'' # opts" n]
    by (simp add: apply_publish_statement_def split_statement_def)
  then show "sock_tab m = sock_tab n" "host_tab m = host_tab n" using assms(2) same by auto
qed

lemma publish_message_ok:
  assumes "name_ok name" and "NUL \<notin> set (h_ip k)" and "NL \<notin> set (h_ip k)"
  shows "wire_ok (publish_message name k)" "signaling_message (publish_message name k)"
  using assms
  by (auto simp: publish_message_def host_tostring_def wire_ok_def name_ok_def signaling_message_def NUL_def NL_def)

lemma announcements_dispatched:
  assumes "relay p" and "linked p g s" and "\<forall>name\<in>set names. name_ok name"
    and "NUL \<notin> set (h_ip k)" and "NL \<notin> set (h_ip k)"
  shows "\<exists>q. foldE (dispatch_event E s) (map (\<lambda>name. RecvChunk (publish_message name k)) names) p = Inr q
    \<and> relay q \<and> linked q g s \<and> directory q = (\<lambda>x. if x \<in> set names then Some g else directory p x)"
  using assms(1-3)
proof (induction names arbitrary: p)
  case (Cons name names)
  have name: "name_ok name" "CHR ''|'' \<notin> set name" using Cons.prems(3) by (simp_all add: name_ok_def)
  let ?st = "Announce g name (host_tostring k)"
  obtain u where u: "run_statement E ?st p = Inr u" "relay u" "directory u = (directory p)(name := Some g)"
    using run_statement_refines [OF Cons.prems(1), of ?st E] name(2) by auto
  have "linked u g s" using Cons.prems(2) linked_same announce_keeps_mesh [OF Cons.prems(1) u(1) name(2)] by metis
  with Cons.IH [OF u(2)] Cons.prems(3) obtain q where q:
      "foldE (dispatch_event E s) (map (\<lambda>name. RecvChunk (publish_message name k)) names) u = Inr q"
      "relay q" "linked q g s" "directory q = (\<lambda>x. if x \<in> set names then Some g else directory u x)"
    by auto
  have "dispatch_event E s (RecvChunk (publish_message name k)) p = Inr u"
    using linked_dispatch [OF Cons.prems(2) publish_message_ok(2) [OF name(1) assms(4,5)], of E] u(1)
    by (simp add: publish_message_def)
  then show ?case using q u(3) by (intro exI [of _ q]) (auto simp: fun_eq_iff)
qed auto


end
