(* ===== verification/Demo.thy ===== *)
theory Demo
  imports Invariant Pubsub_Api Late_Joiner
begin

text \<open>
  Concrete processes: a publisher and a subscriber of channel "A" on two machines with a ready link
  between them, a process that dials and one that accepted the connection, and two that dial each
  other. The properties with hypotheses are applied to them.
\<close>

section \<open>The processes\<close>

definition demo_env :: env where
  "demo_env = \<lparr>resolves = (\<lambda>_. True), can_socket = True, can_bind = (\<lambda>_. True), rand_value = 7,
     shm_create = (\<lambda>_ _. []), shm_open = (\<lambda>_ _. []), shm_attach = (\<lambda>_. [])\<rparr>"

lemma demo_env_simps [simp]:
  "resolves demo_env x" "can_socket demo_env" "can_bind demo_env p" "rand_value demo_env = 7"
  by (simp_all add: demo_env_def)

definition demo_host :: "string \<Rightarrow> bool \<Rightarrow> bool \<Rightarrow> addr option \<Rightarrow> host" where
  "demo_host ip ready server s = \<lparr>h_ip = ip, h_port = 12212, h_id = 0, h_bReady = ready,
     h_bConnecting = Some False, h_bServer = server, h_socket = s, h_commit_id = 0,
     h_known_commit_id = 0, h_bUpToDate = True, h_bFastforwarding = False\<rparr>"

definition demo_sock :: "string \<Rightarrow> bool \<Rightarrow> recv_cb \<Rightarrow> socket" where
  "demo_sock ip stop cb = TCPSocket_default\<lparr>s_ip := ip, s_port := 12212, s_bStop := stop,
     s_bLinebuffer := True, s_on_open := OpenHost 1, s_on_close := CloseHost 1, s_cbRecv := cb\<rparr>"

text \<open>Host 0 is this process, host 1 its ready peer behind socket 2, channel 3 is named "A".\<close>

definition demo_node :: "string \<Rightarrow> string \<Rightarrow> channel \<Rightarrow> (addr \<rightharpoonup> subscription) \<Rightarrow> node" where
  "demo_node ip peer k subs = empty_node\<lparr>bInited := True, my_ID := 7, next_addr := 10,
     host_tab := [0 \<mapsto> demo_host ip True True None, 1 \<mapsto> demo_host peer True False (Some 2)],
     hosts := [0, 1], sock_tab := [2 \<mapsto> demo_sock peer False (RecvHost 1)],
     channels := [3], chan_tab := [3 \<mapsto> k], sub_tab := subs\<rparr>"

definition demo_pending :: subscription where
  "demo_pending = \<lparr>sub_channel = 3, sub_host = 0, sub_bAsync = False, sub_bConnected = False,
     sub_transport = TRANSPORT_TCP, sub_socket = None, sub_shm = None, sub_on_message = False,
     sub_size = 0\<rparr>"

definition demo_publisher :: node where
  "demo_publisher = demo_node ''10.0.0.1'' ''10.0.0.2'' ((new_channel ''A'')\<lparr>c_publisher := Some 0\<rparr>) Map.empty"

definition demo_idle :: node where
  "demo_idle = demo_node ''10.0.0.1'' ''10.0.0.2'' (new_channel ''A'') Map.empty"

definition demo_subscriber :: node where
  "demo_subscriber = demo_node ''10.0.0.2'' ''10.0.0.1''
     ((new_channel ''A'')\<lparr>c_publisher := Some 1, c_subscriptions := [4]\<rparr>) [4 \<mapsto> demo_pending]"

lemmas demo_defs = demo_node_def demo_publisher_def demo_idle_def demo_subscriber_def demo_host_def
  demo_sock_def demo_pending_def empty_node_def new_channel_def TCPSocket_default_def

lemma demo_node_wf: "sub_tab n = Map.empty \<or> dom (sub_tab n) \<subseteq> {..<10} \<Longrightarrow>
    n = demo_node ip peer k subs \<Longrightarrow> mesh_wf n"
  by (auto simp: mesh_wf_defs demo_defs dom_def subset_iff split: if_splits)

lemma demo_wf [simp]: "mesh_wf demo_publisher" "mesh_wf demo_idle" "mesh_wf demo_subscriber"
  by (rule demo_node_wf; simp add: demo_publisher_def demo_idle_def demo_subscriber_def; simp add: demo_node_def)+

lemma demo_chans [simp]: "chans_live demo_publisher" "chans_live demo_idle" "chans_live demo_subscriber"
  by (simp_all add: chans_live_def demo_defs)

lemma demo_linked [simp]:
  "linked demo_publisher 1 2" "linked demo_idle 1 2" "linked demo_subscriber 1 2"
  by (simp_all add: linked_def demo_defs)

lemma demo_chan_find [simp]:
  "chan_find demo_publisher ''A'' = Some 3" "chan_find demo_idle ''A'' = Some 3"
  "chan_find demo_subscriber ''A'' = Some 3"
  by (simp_all add: chan_find_def chan_named_def demo_defs)

lemma name_ok_A [simp]: "name_ok ''A''"
  by (simp add: name_ok_def NUL_def NL_def)

section \<open>Sending and the registries\<close>

theorem broadcast_reaches_ready_hosts_witness:
  "\<exists>m. broadcast ''hi'' demo_publisher = Inr m \<and> out m = [Send 2 (frame ''hi'')]"
  using broadcast_reaches_ready_hosts [OF demo_wf(1), of "''hi''"]
  by (auto simp: broadcast_sends_def host_sends_def host_link_def host_ready_def demo_defs)


theorem get_or_create_channel_registry_witness:
  "\<exists>c m. get_or_create_channel ''B'' demo_publisher = Inr (c, m)
    \<and> get_or_create_channel ''B'' m = Inr (c, m) \<and> chan_named m ''B'' c"
proof -
  obtain c m where m: "get_or_create_channel ''B'' demo_publisher = Inr (c, m)"
    by (simp add: get_or_create_channel_def get_channel_def demo_defs ChannelImpl_ctor_def)
  with get_or_create_channel_registry [OF demo_chans(1) m] show ?thesis by blast
qed

section \<open>Channels\<close>

theorem publish_announces_witness:
  "\<exists>m. channel_publish demo_env 3 demo_idle = Inr m
    \<and> out m = [Send 2 (frame (publish_message ''A'' (demo_host ''10.0.0.1'' True True None)))]"
  using publish_announces [OF demo_wf(2), of 3 "new_channel ''A''" "demo_host ''10.0.0.1'' True True None" demo_env]
  by (auto simp: broadcast_sends_def host_sends_def host_link_def host_ready_def demo_defs)

lemma demo_relay: "relay demo_idle"
  by (auto simp: relay_def chan_find_def chan_named_def chans_live_def demo_defs)

theorem announcement_updates_peer_witness:
  "\<exists>m. thread_received demo_env 2 (frame (publish_message ''A'' (demo_host ''10.0.0.2'' True True None)))
      demo_idle = Inr m \<and> directory m ''A'' = Some 1"
  using announcement_updates_peer [OF demo_relay demo_linked(2), of "new_channel ''A''"
      "demo_host ''10.0.0.2'' True True None" demo_env]
  by (auto simp: new_channel_def demo_host_def NUL_def NL_def)




theorem shm_requests_ignored_witness:
  "digest_message demo_env 1 (connect_shm_message ''A'') demo_publisher = Inr demo_publisher"
  using shm_requests_ignored [of "''A''" demo_env 1 demo_publisher] by simp

section \<open>The negotiation\<close>

lemma demo_subscriber_tabs:
  "chan_tab demo_subscriber 3 = Some ((new_channel ''A'')\<lparr>c_publisher := Some 1, c_subscriptions := [4]\<rparr>)"
  "host_tab demo_subscriber 1 = Some (demo_host ''10.0.0.1'' True False (Some 2))"
  "pending_sub demo_subscriber 3 4" "is_local 1 demo_subscriber = Inr False" "me demo_subscriber = Inr 0"
  by (simp_all add: is_local_def me_def pending_sub_def demo_defs)

lemma demo_waiting: "waiting_subscriber demo_env demo_subscriber 1 2 3 ''A''"
  using demo_linked(3) demo_subscriber_tabs
  by (simp add: waiting_subscriber_def new_channel_def del: One_nat_def)

lemma demo_scan: "scan_ports demo_env 10000 20000 = Inr 10000"
  by (subst scan_ports.simps) (simp add: server_bind_def)

lemma demo_ready: "ready_publisher demo_env demo_publisher 1 2 3 ''A'' 10000"
  using demo_linked(1) demo_chans(1) demo_chan_find(1)
  by (simp add: ready_publisher_def int32_def del: One_nat_def) (simp add: demo_defs demo_scan)

theorem tcp_negotiation_witness:
  "\<exists>B1 B2. channel_connect demo_env 3 demo_subscriber = Inr B1
    \<and> thread_received demo_env 2 (frame (offer_tcp_message ''A'' 10000)) B1 = Inr B2
    \<and> dialling B2 4 (c_str ''10.0.0.1'') 10000"
proof -
  from tcp_negotiation [OF demo_waiting demo_ready name_ok_A demo_subscriber_tabs(1,2)] show ?thesis
    by (auto simp: demo_host_def)
qed

definition demo_dialling :: node where
  "demo_dialling = demo_subscriber\<lparr>
     sub_tab := [4 \<mapsto> demo_pending\<lparr>sub_socket := Some 5\<rparr>],
     sock_tab := [2 \<mapsto> demo_sock ''10.0.0.1'' False (RecvHost 1), 5 \<mapsto> dialling_sock 4 ''10.0.0.1'' 10000],
     out := [Connect 5 ''10.0.0.1'' 10000]\<rparr>"

theorem dialling_subscription_opens_witness:
  "\<exists>sk m. thread_opened sk demo_dialling = Inr m \<and> sub_write 4 ''x'' m = Inr (m\<lparr>out := out m @ [Send sk ''x'']\<rparr>)"
proof -
  have "dialling demo_dialling 4 ''10.0.0.1'' 10000"
    by (simp add: dialling_def demo_dialling_def dialling_sock_def demo_defs)
  from dialling_subscription_opens [OF this, of "''x''"] show ?thesis by blast
qed

section \<open>Hosts\<close>

text \<open>A process that dialled host 1, and one that accepted a connection on socket 2.\<close>

definition demo_dialler :: node where
  "demo_dialler = (demo_node ''10.0.0.1'' ''10.0.0.2'' (new_channel ''A'') Map.empty)\<lparr>
     host_tab := [0 \<mapsto> demo_host ''localhost'' False True None, 1 \<mapsto> demo_host ''10.0.0.2'' False False (Some 2)],
     sock_tab := [2 \<mapsto> demo_sock ''10.0.0.2'' True (RecvHost 1)], SIGNALING_PORT := 12213\<rparr>"

definition demo_acceptor :: node where
  "demo_acceptor = (demo_node ''10.0.0.2'' ''10.0.0.1'' (new_channel ''A'') Map.empty)\<lparr>
     host_tab := [0 \<mapsto> demo_host ''localhost'' False True None], hosts := [0],
     sock_tab := [2 \<mapsto> demo_sock ''10.0.0.1'' False RecvIncoming], SIGNALING_PORT := 12212\<rparr>"

lemma demo_mesh [simp]: "mesh_wf demo_dialler" "mesh_wf demo_acceptor"
  by (auto simp: mesh_wf_defs demo_dialler_def demo_acceptor_def demo_defs split: if_splits)

lemma demo_dialled: "dialled demo_dialler 1 2"
  by (simp add: dialled_def del: One_nat_def)
     (simp add: demo_dialler_def demo_defs chans_live_def int32_def NUL_def NL_def)

lemma demo_accepted: "accepted demo_acceptor 2"
  by (simp add: accepted_def)
     (simp add: demo_acceptor_def demo_defs chans_live_def int32_def NUL_def NL_def)

theorem handshake_witness:
  "\<exists>A1 B1 A2. thread_opened 2 demo_dialler = Inr A1
    \<and> thread_received demo_env 2 (sent_on 2 demo_dialler A1) demo_acceptor = Inr B1
    \<and> thread_received demo_env 2 (sent_on 2 demo_acceptor B1) A1 = Inr A2
    \<and> linked A2 1 2 \<and> my_ip A2 = Some ''10.0.0.1''"
proof -
  have "mesh_find demo_acceptor (localize ''10.0.0.1'', 12213) = None"
    by (simp add: mesh_find_def host_matches_def localize_def demo_acceptor_def demo_defs)
  then show ?thesis
    using handshake [OF demo_dialled demo_accepted, of "demo_sock ''10.0.0.2'' True (RecvHost 1)"
        "demo_sock ''10.0.0.1'' False RecvIncoming" demo_env demo_env]
    by (auto simp: demo_dialler_def demo_acceptor_def demo_defs localize_def)
qed

text \<open>Two processes that dialled each other on socket 2 and accepted each other on socket 6.\<close>

definition demo_crossing :: "int \<Rightarrow> string \<Rightarrow> node" where
  "demo_crossing i peer = demo_dialler\<lparr>my_ID := i,
     host_tab := [0 \<mapsto> demo_host ''localhost'' False True None, 1 \<mapsto> demo_host peer False False (Some 2)],
     sock_tab := [2 \<mapsto> demo_sock peer False (RecvHost 1), 6 \<mapsto> demo_sock peer False RecvIncoming]\<rparr>"

lemma demo_crossing: "peer \<noteq> ''127.0.0.1'' \<Longrightarrow> peer \<noteq> ''localhost'' \<Longrightarrow> int32 i \<Longrightarrow> crossing (demo_crossing i peer) 1 2 6 12212"
  by (auto simp: crossing_def mesh_wf_defs demo_crossing_def demo_dialler_def demo_defs localize_def
      mesh_find_def host_matches_def split: if_splits)

theorem simultaneous_connect_witness:
  "\<exists>A B. incoming_message 6 (id_message 9 12212) (demo_crossing 5 ''10.0.0.2'') = Inr A
    \<and> incoming_message 6 (id_message 5 12212) (demo_crossing 9 ''10.0.0.1'') = Inr B
    \<and> link_of A 1 = Some 6 \<and> link_of B 1 = Some 2"
  using simultaneous_connect [OF demo_crossing [of "''10.0.0.2''" 5] demo_crossing [of "''10.0.0.1''" 9]]
  by (auto simp: int32_def demo_crossing_def)

theorem gossip_merges_hosts_witness:
  "\<exists>msg B. thread_received demo_env 2 (frame msg) demo_idle = Inr B
    \<and> known_keys B = known_keys demo_idle \<union> {(''10.0.0.2'', 12212), (''10.0.0.1'', 12212)}"
proof -
  have hosts: "ready_hosts demo_subscriber = [demo_host ''10.0.0.2'' True True None, demo_host ''10.0.0.1'' True False (Some 2)]"
    by (simp add: ready_hosts_def host_ready_def demo_defs)
  have "bInited demo_idle" by (simp add: demo_defs)
  from gossip_merges_hosts [OF demo_wf(3) demo_linked(2) demo_wf(2) this, of demo_env]
  show ?thesis unfolding hosts
    by (fastforce simp: printable_def demo_host_def NUL_def NL_def int32_def)
qed

definition demo_twins :: node where
  "demo_twins = demo_idle\<lparr>hosts := [0, 1, 6],
     host_tab := (host_tab demo_idle)(6 \<mapsto> (demo_host ''10.0.0.2'' True False None)\<lparr>h_port := 80\<rparr>)\<rparr>"

theorem id_message_duplicates_key_witness:
  "\<exists>m. on_receive demo_env 1 (id_message 3 80) demo_twins = Inr m \<and> \<not> keys_unique m"
proof -
  have "linked demo_twins 1 2" by (simp add: linked_def demo_twins_def demo_defs)
  from id_message_duplicates_key [OF this, of 6 "''10.0.0.2''" 80 3 demo_env] show ?thesis
    by (auto simp: demo_twins_def demo_defs host_key_def int32_def)
qed

section \<open>Delivery\<close>

text \<open>A publisher with one connected subscriptor on socket 5 and one that is not connected, and its server.\<close>

definition demo_fan_out :: node where
  "demo_fan_out = demo_publisher\<lparr>
     chan_tab := [3 \<mapsto> (new_channel ''A'')\<lparr>c_publisher := Some 0, c_subscriptors := [4, 6]\<rparr>],
     sub_tab := [4 \<mapsto> accepted_sub 3 5 1, 6 \<mapsto> demo_pending],
     sock_tab := [2 \<mapsto> demo_sock ''10.0.0.2'' False (RecvHost 1), 5 \<mapsto> TCPSocket_default],
     server_tab := [7 \<mapsto> \<lparr>srv_port = 10000, srv_bStop = False, srv_connections = [],
                          srv_on_open = AcceptSubscriptor 3 1\<rparr>]\<rparr>"

lemmas demo_fan_defs = demo_fan_out_def accepted_sub_def demo_defs

lemma demo_fan_out: "list_all (tcp_sub demo_fan_out) [4, 6]"
    "chan_tab demo_fan_out 3 = Some ((new_channel ''A'')\<lparr>c_publisher := Some 0, c_subscriptors := [4, 6]\<rparr>)"
    "sub_sends demo_fan_out msg [4, 6] = [Send 5 msg]"
  by (simp_all add: tcp_sub_def sub_sends_Cons sub_target_def demo_fan_defs)

theorem channel_write_delivers_witness:
  "\<exists>m. channel_write 3 ''x'' demo_fan_out = Inr m \<and> out m = [Send 5 ''x'']"
  using channel_write_delivers [OF demo_fan_out(2)] demo_fan_out
  by (simp add: demo_fan_defs)

theorem dma_over_tcp_sends_nothing_witness:
  "\<exists>m. channel_write_dma 3 demo_fan_out = Inr m \<and> out m = [Send 5 []]"
  using dma_over_tcp_sends_nothing [OF demo_fan_out(2)] demo_fan_out
  by (simp add: demo_fan_defs)

theorem accepted_subscriptor_receives_witness:
  "\<exists>m u. server_accept 7 ''10.0.0.3'' 4000 demo_fan_out = Inr m \<and> channel_write 3 ''x'' m = Inr u
    \<and> out u = out m @ [Send 5 ''x'', Send 10 ''x'']"
proof -
  have v: "server_tab demo_fan_out 7 = Some \<lparr>srv_port = 10000, srv_bStop = False, srv_connections = [],
      srv_on_open = AcceptSubscriptor 3 1\<rparr>" "next_addr demo_fan_out = 10"
    by (simp_all add: demo_fan_defs)
  from accepted_subscriptor_receives [OF v(1) _ demo_fan_out(2), of 1 "''10.0.0.3''" 4000 "''x''"]
  obtain m where m: "server_accept 7 ''10.0.0.3'' 4000 demo_fan_out = Inr m"
      "channel_write 3 ''x'' m = Inr (m\<lparr>out := out demo_fan_out @ [Send 5 ''x'', Send 10 ''x'']\<rparr>)"
    using demo_fan_out v(2) by auto
  then have "out m = out demo_fan_out"
    by (simp add: server_accept_def v new_TCPSocket_fd_def run_accept_cb_def Subscriptor_tcp_def
        new_sub_def demo_fan_out(2)) auto
  with m show ?thesis by simp
qed

lemma demo_offers:
  "\<exists>n1 n2. offer_tcp demo_env 3 1 demo_publisher = Inr n1 \<and> offer_tcp demo_env 3 1 n1 = Inr n2"
  by (simp add: offer_tcp_def TCPServer_range_def demo_scan new_server_def host_send_def sock_write_def
      sock_write_buf_def demo_defs)

theorem subscriptors_attributed_to_first_host_witness:
  "\<exists>n1 n2 v n3 s. offer_tcp demo_env 3 1 demo_publisher = Inr n1 \<and> offer_tcp demo_env 3 1 n1 = Inr n2
    \<and> server_accept v ''10.0.0.3'' 4000 n2 = Inr n3 \<and> map_option sub_host (sub_tab n3 s) = Some 1"
proof -
  obtain n1 n2 where n: "offer_tcp demo_env 3 1 demo_publisher = Inr n1" "offer_tcp demo_env 3 1 n1 = Inr n2"
    using demo_offers by blast
  have k: "chan_tab demo_publisher 3 = Some ((new_channel ''A'')\<lparr>c_publisher := Some 0\<rparr>)"
    by (simp add: demo_defs)
  from subscriptors_attributed_to_first_host [OF n(1) k _ n(2), of "''10.0.0.3''" 4000] n show ?thesis
    by (auto simp: new_channel_def)
qed

theorem repeated_offer_dials_twice_witness:
  "\<exists>n1 n2. sub_connect_tcp demo_env 4 demo_subscriber = Inr n1 \<and> sub_connect_tcp demo_env 4 n1 = Inr n2
    \<and> out n2 = [Connect 10 ''10.0.0.1'' 0, Connect 11 ''10.0.0.1'' 0]"
  using repeated_offer_dials_twice [of demo_subscriber 4 demo_pending
      "(new_channel ''A'')\<lparr>c_publisher := Some 1, c_subscriptions := [4]\<rparr>" 1
      "demo_host ''10.0.0.1'' True False (Some 2)" demo_env] demo_subscriber_tabs
  by (auto simp: demo_defs c_str_def NUL_def)

section \<open>Starting\<close>

theorem parse_args_adds_hosts_witness:
  "\<exists>m. parse_args demo_env [''publish'', ''-h'', ''b:1,c:2'', ''A''] demo_publisher = Inr m
    \<and> {(''b'', 1), (''c'', 2)} \<subseteq> known_keys m"
proof -
  have urls: "url_key ''b:1'' = (''b'', 1)" "url_key ''c:2'' = (''c'', 2)"
    by code_simp+
  have "parse_args demo_env [''publish'', ''-h'', ''b:1,c:2'', ''A''] demo_publisher \<noteq> Inl e" for e
  proof -
    have "strtok_tokens (CHR '','') ''b:1,c:2'' = [''b:1'', ''c:2'']" by code_simp
    then show ?thesis
      using add_urls_eq [OF demo_wf(1), of demo_env "[''b:1'', ''c:2'']"] urls
      by (simp add: parse_args_def add_host_key_def add_host_inited_def has_host_def get_host_def
          Host_connect_def new_host_def new_TCPSocket_def setSocket_def sock_connect_def demo_defs)
  qed
  then obtain m where m: "parse_args demo_env [''publish'', ''-h'', ''b:1,c:2'', ''A''] demo_publisher = Inr m"
    by (cases "parse_args demo_env [''publish'', ''-h'', ''b:1,c:2'', ''A''] demo_publisher") auto
  have "bInited demo_publisher" by (simp add: demo_defs)
  from parse_args_adds_hosts [OF demo_wf(1) this, of "[''b:1'', ''c:2'']" demo_env "''publish''" "[''A'']" m] m urls
  show ?thesis by auto
qed

lemma demo_init: "init demo_env empty_node = Inr (booted demo_env 12212)"
proof -
  have "scan_ports demo_env SIGNALING_DEFAULT_PORT (SIGNALING_DEFAULT_PORT + 64) = Inr 12212"
    by (subst scan_ports.simps) (simp add: server_bind_def SIGNALING_DEFAULT_PORT_def)
  from init_booted [OF this] show ?thesis by (simp add: SIGNALING_DEFAULT_PORT_def)
qed

lemma demo_reachable: "reachable demo_env (booted demo_env 12212)"
  using demo_init by (rule reachable.start)

lemma demo_adds: "\<exists>m. handle demo_env (AddHost ''b'' 1) (booted demo_env 12212) = Inr m \<and> length (hosts m) = 2"
  by (simp add: handle_def add_host_def init_def booted_def add_host_inited_def has_host_def get_host_def
      Host_connect_def new_host_def new_TCPSocket_def setSocket_def sock_connect_def)


theorem me_is_stable_witness:
  "\<exists>m. handle demo_env (AddHost ''b'' 1) (booted demo_env 12212) = Inr m \<and> me m = Inr 1"
proof -
  obtain m where m: "handle demo_env (AddHost ''b'' 1) (booted demo_env 12212) = Inr m" using demo_adds by blast
  moreover have "me (booted demo_env 12212) = Inr 1" by (simp add: me_def booted_def)
  ultimately show ?thesis using me_is_stable [OF demo_reachable m] by auto
qed

theorem registry_operations_total_witness:
  "\<exists>r. get_host ''b'' 1 (booted demo_env 12212) = Inr r"
  using registry_operations_total [OF demo_reachable] by blast

theorem init_result_witness:
  "\<exists>n. init demo_env empty_node = Inr n \<and> can_bind demo_env (SIGNALING_PORT n)"
  using init_result [OF demo_init] demo_init by auto

end
