(* ===== verification/Memory_Safety.thy ===== *)
theory Memory_Safety
  imports Invariant
begin

text \<open>
  Type soundness of a process that publishes and accepts subscriptors but has no subscriptions of
  its own: in every state it reaches, every event is handled without touching a deleted object,
  without running a spoiled iterator, past the end of a buffer, or for ever. The faults that are left
  are named: exceptions, the dangling capture of the accept loop when an accepted connection that no
  host took over ends, and an offer for a channel without publisher. The proof is progress and
  preservation, operation by operation, over the rules of a small outcome calculus.
\<close>

section \<open>Outcomes\<close>

text \<open>An operation ends in a fault of \<open>F\<close> or in a result that satisfies \<open>Q\<close>.\<close>

definition outcome :: "fault set \<Rightarrow> ('a \<Rightarrow> bool) \<Rightarrow> 'a res \<Rightarrow> bool" where
  "outcome F Q r = (case r of Inl f \<Rightarrow> f \<in> F | Inr x \<Rightarrow> Q x)"

lemma outcome_simps [simp]: "outcome F Q (Inl f) \<longleftrightarrow> f \<in> F" "outcome F Q (Inr x) \<longleftrightarrow> Q x"
  by (simp_all add: outcome_def)

lemma outcome_bind:
  "outcome F Q r \<Longrightarrow> (\<And>x. r = Inr x \<Longrightarrow> Q x \<Longrightarrow> outcome F R (f x)) \<Longrightarrow> outcome F R (bindE r f)"
  by (cases r) simp_all

lemma outcome_mono: "outcome F Q r \<Longrightarrow> F \<subseteq> G \<Longrightarrow> (\<And>x. Q x \<Longrightarrow> R x) \<Longrightarrow> outcome G R r"
  by (cases r) auto

lemma outcome_live: "tab k = Some x \<Longrightarrow> outcome F R (f x) \<Longrightarrow> outcome F R (bindE (live tab k) f)"
  by simp

lemma outcome_deref: "p = Some x \<Longrightarrow> outcome F R (f x) \<Longrightarrow> outcome F R (bindE (deref p) f)"
  by simp

section \<open>A publishing process\<close>

text \<open>
  What may be stored in \<open>on_close\<close> between two events: nothing, the handler of a host that has a
  socket, or the wrapper of the accept loop around nothing or around a subscriptor's handler.
\<close>

fun close_pub :: "node \<Rightarrow> close_cb \<Rightarrow> bool" where
  "close_pub n CloseNone = True"
| "close_pub n (CloseHost h) = (case host_tab n h of None \<Rightarrow> False | Some k \<Rightarrow> h_socket k \<noteq> None)"
| "close_pub n (CloseAccepted v CloseNone) = True"
| "close_pub n (CloseAccepted v (CloseSub s)) = (sub_tab n s \<noteq> None)"
| "close_pub n _ = False"

definition sock_pub :: "node \<Rightarrow> socket \<Rightarrow> bool" where
  "sock_pub n so \<longleftrightarrow> (\<forall>s. s_on_open so = OpenSub s \<longrightarrow> sub_tab n s \<noteq> None)
     \<and> close_pub n (s_on_close so) \<and> (\<forall>s. s_cbRecv so \<noteq> RecvSub s)"

definition pub :: "node \<Rightarrow> bool" where
  "pub n \<longleftrightarrow> node_wf n
     \<and> (\<forall>c k. chan_tab n c = Some k \<longrightarrow> c_subscriptions k = [])
     \<and> (\<forall>s k. sub_tab n s = Some k \<longrightarrow> sub_transport k = TRANSPORT_TCP \<and> sub_socket k \<noteq> None)
     \<and> (\<forall>s so. sock_tab n s = Some so \<longrightarrow> sock_pub n so)"

text \<open>What only grows: the tables, the subscriptors, the hosts that have a socket.\<close>

definition ext :: "node \<Rightarrow> node \<Rightarrow> bool" where
  "ext n m \<longleftrightarrow> grows n m \<and> (\<forall>s. sub_tab n s \<noteq> None \<longrightarrow> sub_tab m s \<noteq> None)
     \<and> (\<forall>h k. host_tab n h = Some k \<longrightarrow> h_socket k \<noteq> None
          \<longrightarrow> (\<exists>k'. host_tab m h = Some k' \<and> h_socket k' \<noteq> None))"

lemma ext_refl [simp]: "ext n n"
  by (simp add: ext_def)

lemma ext_trans: "ext n m \<Longrightarrow> ext m u \<Longrightarrow> ext n u"
  unfolding ext_def by (meson grows_trans)

lemma ext_chan: "ext n m \<Longrightarrow> chan_tab n c \<noteq> None \<Longrightarrow> chan_tab m c \<noteq> None"
  unfolding ext_def by (blast dest: growsD(4))

lemma ext_host: "ext n m \<Longrightarrow> host_tab n h \<noteq> None \<Longrightarrow> host_tab m h \<noteq> None"
  unfolding ext_def by (blast dest: growsD(1))

lemma ext_sock: "ext n m \<Longrightarrow> sock_tab n s \<noteq> None \<Longrightarrow> sock_tab m s \<noteq> None"
  unfolding ext_def by (blast dest: growsD(2))

lemma ext_server: "ext n m \<Longrightarrow> server_tab n v \<noteq> None \<Longrightarrow> server_tab m v \<noteq> None"
  unfolding ext_def by (blast dest: growsD(3))

lemma pubD:
  assumes "pub n"
  shows "node_wf n" "mesh_wf n" "bInited n" "chan_tab n c = Some k \<Longrightarrow> c_subscriptions k = []"
    "sub_tab n s = Some b \<Longrightarrow> sub_transport b = TRANSPORT_TCP \<and> sub_socket b \<noteq> None"
    "sock_tab n s = Some so \<Longrightarrow> sock_pub n so" "chan_tab n c = Some k \<Longrightarrow> chan_ok n c k"
    "sub_tab n s = Some b \<Longrightarrow> sub_ok n b" "sock_tab n s = Some so \<Longrightarrow> sock_ok n so"
    "server_tab n v = Some sv \<Longrightarrow> srv_ok n sv" "c \<in> set (channels n) \<Longrightarrow> chan_tab n c \<noteq> None"
  using assms by (auto simp: pub_def node_wfD)

lemma close_pub_ext: "ext n m \<Longrightarrow> close_pub n cb \<Longrightarrow> close_pub m cb"
  by (induction n cb rule: close_pub.induct) (fastforce simp: ext_def split: option.splits)+

lemma sock_pub_ext: "ext n m \<Longrightarrow> sock_pub n so \<Longrightarrow> sock_pub m so"
  unfolding sock_pub_def by (auto intro: close_pub_ext simp: ext_def)

text \<open>The result of a step: the process is still publishing and has only grown.\<close>

definition steps_to :: "node \<Rightarrow> node \<Rightarrow> bool" where
  "steps_to n m \<longleftrightarrow> pub m \<and> ext n m"

lemma steps_refl [simp]: "steps_to n n = pub n"
  by (simp add: steps_to_def)

lemma steps_trans: "steps_to n m \<Longrightarrow> steps_to m u \<Longrightarrow> steps_to n u"
  by (auto simp: steps_to_def intro: ext_trans)

lemma steps_pub: "steps_to n m \<Longrightarrow> pub m"
  by (simp add: steps_to_def)

abbreviation safe :: "fault set \<Rightarrow> node \<Rightarrow> node res \<Rightarrow> bool" where
  "safe F n r \<equiv> outcome F (steps_to n) r"

lemma safe_bind:
  assumes "safe F n r" and "\<And>m. r = Inr m \<Longrightarrow> pub m \<Longrightarrow> ext n m \<Longrightarrow> safe F m (f m)"
  shows "safe F n (bindE r f)"
proof (rule outcome_bind [OF assms(1)])
  fix m
  assume m: "r = Inr m" "steps_to n m"
  then have "safe F m (f m)" using assms(2) by (simp add: steps_to_def)
  from outcome_mono [OF this subset_refl steps_trans [OF m(2)]] show "safe F n (f m)" .
qed

lemma safe_trans: "steps_to n m \<Longrightarrow> safe F m r \<Longrightarrow> safe F n r"
  by (erule outcome_mono) (auto intro: steps_trans)

lemma safe_fold:
  assumes "pub n" and "\<And>x m. x \<in> set xs \<Longrightarrow> pub m \<Longrightarrow> ext n m \<Longrightarrow> safe F m (f x m)"
  shows "safe F n (foldE f xs n)"
  using assms
proof (induction xs arbitrary: n)
  case (Cons x xs)
  have "safe F n (f x n)" using Cons.prems by simp
  then show ?case unfolding foldE.simps
  proof (rule safe_bind)
    fix m
    assume m: "pub m" "ext n m"
    then show "safe F m (foldE f xs m)"
      by (intro Cons.IH Cons.prems(2)) (auto intro: ext_trans)
  qed
qed simp

section \<open>Primitive updates\<close>

lemma steps_toI:
  assumes "pub n" and "evolves n m" and "ext n m"
    and "\<And>c k. chan_tab m c = Some k \<Longrightarrow> chan_tab n c = Some k \<or> c_subscriptions k = []"
    and "\<And>s k. sub_tab m s = Some k \<Longrightarrow> sub_tab n s = Some k \<or> sub_transport k = TRANSPORT_TCP \<and> sub_socket k \<noteq> None"
    and "\<And>s so. sock_tab m s = Some so \<Longrightarrow> sock_tab n s = Some so \<or> sock_pub m so"
  shows "steps_to n m"
proof -
  have "c_subscriptions k = []" if "chan_tab m c = Some k" for c k
    using assms(4) [OF that] pubD(4) [OF assms(1)] by blast
  moreover have "sub_transport k = TRANSPORT_TCP \<and> sub_socket k \<noteq> None" if "sub_tab m s = Some k" for s k
    using assms(5) [OF that] pubD(5) [OF assms(1)] by blast
  moreover have "sock_pub m so" if "sock_tab m s = Some so" for s so
    using assms(6) [OF that] pubD(6) [OF assms(1)] sock_pub_ext [OF assms(3)] by blast
  ultimately show ?thesis using assms(2,3) by (auto simp: steps_to_def pub_def)
qed

lemma steps_out: "pub n \<Longrightarrow> steps_to n (n\<lparr>out := x\<rparr>)"
  using evolvesD(2) [OF evolves_out [OF pubD(1)], of n x]
  by (intro steps_toI [of n]) (simp_all add: pubD(1) ext_def)

lemma steps_put_host:
  assumes "pub n" and "host_tab n h = Some k" and "h_socket k \<noteq> None \<Longrightarrow> h_socket k' \<noteq> None"
    and "\<And>s. h_socket k' = Some s \<Longrightarrow> sock_tab n s \<noteq> None"
  shows "steps_to n (n\<lparr>host_tab := (host_tab n)(h \<mapsto> k')\<rparr>)"
proof -
  have e: "evolves n (n\<lparr>host_tab := (host_tab n)(h \<mapsto> k')\<rparr>)"
    by (rule evolves_put_host [OF pubD(1) [OF assms(1)] assms(2,4)])
  show ?thesis
    by (rule steps_toI [OF assms(1) e]) (use evolvesD(2) [OF e] assms(2,3) in \<open>auto simp: ext_def\<close>)
qed

lemma steps_put_sock:
  assumes "pub n" and "sock_tab n s = Some so" and "sock_ok n so'" and "sock_pub n so'"
  shows "steps_to n (n\<lparr>sock_tab := (sock_tab n)(s \<mapsto> so')\<rparr>)"
proof -
  have e: "evolves n (n\<lparr>sock_tab := (sock_tab n)(s \<mapsto> so')\<rparr>)" (is "evolves n ?m")
    by (rule evolves_put_sock [OF pubD(1) [OF assms(1)] assms(2,3)])
  have x: "ext n ?m" using evolvesD(2) [OF e] by (simp add: ext_def)
  show ?thesis
    by (rule steps_toI [OF assms(1) e x]) (use sock_pub_ext [OF x assms(4)] in \<open>auto split: if_splits\<close>)
qed

lemma steps_put_server:
  assumes "pub n" and "server_tab n v = Some sv" and "srv_ok n sv'"
  shows "steps_to n (n\<lparr>server_tab := (server_tab n)(v \<mapsto> sv')\<rparr>)"
proof -
  have e: "evolves n (n\<lparr>server_tab := (server_tab n)(v \<mapsto> sv')\<rparr>)"
    by (rule evolves_put_server [OF pubD(1) [OF assms(1)] assms(2,3)])
  show ?thesis by (rule steps_toI [OF assms(1) e]) (use evolvesD(2) [OF e] in \<open>simp_all add: ext_def\<close>)
qed

lemma steps_put_chan:
  assumes "pub n" and "chan_tab n c = Some k" and "chan_ok n c k'" and "c_subscriptions k' = []"
  shows "steps_to n (n\<lparr>chan_tab := (chan_tab n)(c \<mapsto> k')\<rparr>)"
proof -
  have e: "evolves n (n\<lparr>chan_tab := (chan_tab n)(c \<mapsto> k')\<rparr>)"
    by (rule evolves_put_chan [OF pubD(1) [OF assms(1)] assms(2,3)])
  show ?thesis
    by (rule steps_toI [OF assms(1) e])
       (use evolvesD(2) [OF e] assms(4) in \<open>auto simp: ext_def split: if_splits\<close>)
qed

lemma steps_put_sub:
  assumes "pub n" and "sub_tab n s = Some k" and "sub_ok n k'" and "sub_channel k' = sub_channel k"
    and "sub_transport k' = TRANSPORT_TCP" and "sub_socket k' \<noteq> None"
  shows "steps_to n (n\<lparr>sub_tab := (sub_tab n)(s \<mapsto> k')\<rparr>)"
proof -
  have e: "evolves n (n\<lparr>sub_tab := (sub_tab n)(s \<mapsto> k')\<rparr>)"
    by (rule evolves_put_sub [OF pubD(1) [OF assms(1)] assms(2-4)])
  show ?thesis
    by (rule steps_toI [OF assms(1) e])
       (use evolvesD(2) [OF e] assms(5,6) in \<open>auto simp: ext_def split: if_splits\<close>)
qed

lemma safe_upd_host:
  assumes "pub n" and "host_tab n h = Some k" and "h_socket k \<noteq> None \<Longrightarrow> h_socket (f k) \<noteq> None"
    and "\<And>s. h_socket (f k) = Some s \<Longrightarrow> sock_tab n s \<noteq> None"
  shows "safe F n (upd_host h f n)"
  using steps_put_host [OF assms] assms(2) by simp

lemma safe_upd_host_same:
  assumes "pub n" and "host_tab n h = Some k" and "\<And>k. h_socket (f k) = h_socket k"
  shows "safe F n (upd_host h f n)"
  using mesh_wf_link [OF pubD(2) [OF assms(1)] assms(2)] assms(3)
  by (intro safe_upd_host [OF assms(1,2)]) auto

lemma safe_upd_sock:
  assumes "pub n" and "sock_tab n s = Some so" and "sock_ok n so \<Longrightarrow> sock_ok n (f so)"
    and "sock_pub n so \<Longrightarrow> sock_pub n (f so)"
  shows "safe F n (upd_sock s f n)"
  using steps_put_sock [OF assms(1,2), of "f so"] assms(3) [OF pubD(9) [OF assms(1,2)]]
    assms(4) [OF pubD(6) [OF assms(1,2)]] assms(2) by simp

lemma safe_upd_chan:
  assumes "pub n" and "chan_tab n c = Some k" and "chan_ok n c k \<Longrightarrow> chan_ok n c (f k)"
    and "c_subscriptions k = [] \<Longrightarrow> c_subscriptions (f k) = []"
  shows "safe F n (upd_chan c f n)"
  using steps_put_chan [OF assms(1,2), of "f k"] assms(3) [OF pubD(7) [OF assms(1,2)]]
    assms(4) [OF pubD(4) [OF assms(1,2)]] assms(2) by simp

lemma safe_upd_server:
  assumes "pub n" and "server_tab n v = Some sv" and "srv_ok n sv \<Longrightarrow> srv_ok n (f sv)"
  shows "safe F n (upd_server v f n)"
  using steps_put_server [OF assms(1,2), of "f sv"] assms(3) [OF pubD(10) [OF assms(1,2)]] assms(2)
  by simp

section \<open>Sockets and hosts\<close>

lemma safe_host_send: "pub n \<Longrightarrow> host_tab n h \<noteq> None \<Longrightarrow> safe F n (host_send h s n)"
  using host_send_result [OF pubD(2)] by (auto simp: steps_out)

lemma safe_broadcast: "pub n \<Longrightarrow> safe F n (broadcast s n)"
  by (simp add: broadcast_result [OF pubD(2)] steps_out)

lemma safe_broadcast_hosts: "pub n \<Longrightarrow> safe F n (broadcast_hosts n)"
  using broadcast_hosts_result [OF pubD(2)] by (simp add: steps_out)

lemma safe_sock_close: "pub n \<Longrightarrow> sock_tab n s \<noteq> None \<Longrightarrow> safe F n (sock_close s b n)"
  unfolding sock_close_def
  by (auto intro!: safe_bind safe_upd_sock simp: sock_ok_def sock_pub_def steps_out)

lemma safe_remove_listeners: "pub n \<Longrightarrow> sock_tab n s \<noteq> None \<Longrightarrow> safe F n (remove_listeners s n)"
  unfolding remove_listeners_def
  by (auto intro!: safe_upd_sock simp: sock_ok_def sock_pub_def)

lemma safe_host_welcome:
  assumes "pub n" and "host_tab n h \<noteq> None"
  shows "safe F n (host_welcome h n)"
proof -
  obtain k where k: "host_tab n h = Some k" using assms(2) by auto
  show ?thesis
  proof (cases "h_socket k")
    case (Some sk)
    then obtain so where so: "sock_tab n sk = Some so" using mesh_wf_link [OF pubD(2) [OF assms(1)] k] by blast
    have "steps_to n (n\<lparr>host_tab := (host_tab n)(h \<mapsto> k\<lparr>h_bConnecting := Some True\<rparr>)\<rparr>)"
      using Some so by (intro steps_put_host [OF assms(1) k]) auto
    from steps_trans [OF this steps_out [OF steps_pub [OF this]]] show ?thesis
      by (simp add: host_welcome_result [OF k Some so] assms(1))
  qed (simp add: host_welcome_def k assms(1))
qed

lemma upd_gets:
  "upd_host h f n = Inr m \<Longrightarrow> host_tab m a = (if h = a then map_option f (host_tab n a) else host_tab n a)"
  "upd_sock s g n = Inr m \<Longrightarrow> sock_tab m a = (if s = a then map_option g (sock_tab n a) else sock_tab n a)"
  "upd_chan c k n = Inr m \<Longrightarrow> chan_tab m a = (if c = a then map_option k (chan_tab n a) else chan_tab n a)"
  by (auto simp: host_heap.modify_get sock_heap.modify_get chan_heap.modify_get)

lemma safe_setSocket:
  assumes "pub n" and "host_tab n h \<noteq> None" and "sock_tab n s \<noteq> None"
  shows "safe F n (setSocket h s n)"
  unfolding setSocket_def
proof (rule safe_bind)
  obtain k where k: "host_tab n h = Some k" using assms(2) by auto
  show "safe F n (upd_host h (\<lambda>k. k\<lparr>h_socket := Some s\<rparr>) n)"
    using assms(3) by (intro safe_upd_host [OF assms(1) k]) auto
  fix m
  assume m: "upd_host h (\<lambda>k. k\<lparr>h_socket := Some s\<rparr>) n = Inr m" "pub m" "ext n m"
  then have h: "host_tab m h = Some (k\<lparr>h_socket := Some s\<rparr>)" and so: "sock_tab m s \<noteq> None"
    using k assms(3) by (auto simp: upd_Inr_iff)
  show "safe F m (bindE (upd_sock s (\<lambda>so. so\<lparr>s_bLinebuffer := True, s_on_open := OpenHost h,
      s_on_close := CloseHost h, s_cbRecv := RecvHost h\<rparr>) m) (\<lambda>n.
      bindE (live (host_tab n) h) (\<lambda>k. if h_bServer k then host_welcome h n else Inr n)))"
  proof (rule safe_bind)
    show "safe F m (upd_sock s (\<lambda>so. so\<lparr>s_bLinebuffer := True, s_on_open := OpenHost h,
        s_on_close := CloseHost h, s_cbRecv := RecvHost h\<rparr>) m)"
      using so h by (auto intro!: safe_upd_sock m(2) simp: sock_ok_def sock_pub_def)
  next
    fix u
    assume u: "upd_sock s (\<lambda>so. so\<lparr>s_bLinebuffer := True, s_on_open := OpenHost h,
        s_on_close := CloseHost h, s_cbRecv := RecvHost h\<rparr>) m = Inr u" "pub u" "ext m u"
    then have "host_tab u h \<noteq> None" using h by (auto simp: upd_Inr_iff)
    then show "safe F u (bindE (live (host_tab u) h) (\<lambda>k. if h_bServer k then host_welcome h u else Inr u))"
      using safe_host_welcome [OF u(2)] u(2) by auto
  qed
qed

section \<open>New objects\<close>

lemma steps_alloc_host:
  assumes "pub n" and "h_socket k = None"
  shows "steps_to n (n\<lparr>next_addr := Suc (next_addr n), host_tab := (host_tab n)(next_addr n \<mapsto> k)\<rparr>)"
proof -
  have e: "evolves n (n\<lparr>next_addr := Suc (next_addr n), host_tab := (host_tab n)(next_addr n \<mapsto> k)\<rparr>)"
    using assms(2) by (intro evolves_alloc_host [OF pubD(1) [OF assms(1)]]) simp
  show ?thesis
    by (rule steps_toI [OF assms(1) e])
       (use evolvesD(2) [OF e] mesh_wf_fresh(1) [OF pubD(2) [OF assms(1)]] in \<open>auto simp: ext_def\<close>)
qed

lemma steps_alloc_sock:
  assumes "pub n" and "sock_ok n so" and "sock_pub n so"
  shows "steps_to n (n\<lparr>next_addr := Suc (next_addr n), sock_tab := (sock_tab n)(next_addr n \<mapsto> so)\<rparr>)"
proof -
  have e: "evolves n (n\<lparr>next_addr := Suc (next_addr n), sock_tab := (sock_tab n)(next_addr n \<mapsto> so)\<rparr>)"
      (is "evolves n ?m")
    by (rule evolves_alloc_sock [OF pubD(1) [OF assms(1)] assms(2)])
  have x: "ext n ?m" using evolvesD(2) [OF e] by (simp add: ext_def)
  show ?thesis
    by (rule steps_toI [OF assms(1) e x]) (use sock_pub_ext [OF x assms(3)] in \<open>auto split: if_splits\<close>)
qed

lemma steps_alloc_server:
  assumes "pub n" and "srv_ok n sv"
  shows "steps_to n (n\<lparr>next_addr := Suc (next_addr n), server_tab := (server_tab n)(next_addr n \<mapsto> sv)\<rparr>)"
proof -
  have e: "evolves n (n\<lparr>next_addr := Suc (next_addr n), server_tab := (server_tab n)(next_addr n \<mapsto> sv)\<rparr>)"
    by (rule evolves_alloc_server [OF pubD(1) [OF assms(1)] assms(2)])
  show ?thesis by (rule steps_toI [OF assms(1) e]) (use evolvesD(2) [OF e] in \<open>simp_all add: ext_def\<close>)
qed

lemma steps_push_host:
  assumes "pub n" and "host_tab n h \<noteq> None" and "h \<notin> set (hosts n)"
  shows "steps_to n (push_host h n)"
proof -
  have e: "evolves n (push_host h n)"
    using evolves_push_host [OF pubD(1) [OF assms(1)] assms(2,3)] by simp
  show ?thesis by (rule steps_toI [OF assms(1) e]) (use evolvesD(2) [OF e] in \<open>simp_all add: ext_def\<close>)
qed

lemma steps_new_TCPSocket:
  assumes "pub n" and "new_TCPSocket n = (s, m)"
  shows "steps_to n m \<and> sock_tab m s \<noteq> None \<and> host_tab m = host_tab n"
proof -
  have "sock_ok n TCPSocket_default" "sock_pub n TCPSocket_default"
    by (simp_all add: sock_ok_def sock_pub_def TCPSocket_default_def)
  from steps_alloc_sock [OF assms(1) this] assms(2) show ?thesis
    by (auto simp: new_TCPSocket_def)
qed

lemma steps_new_host:
  assumes "pub n" and "new_host k n = (h, m)" and "h_socket k = None"
  shows "steps_to n m \<and> host_tab m h \<noteq> None \<and> h \<notin> set (hosts m) \<and> sock_tab m = sock_tab n"
  using steps_alloc_host [OF assms(1,3)] assms(2) mesh_wf_fresh(7) [OF pubD(2) [OF assms(1)]]
  by (auto simp: new_host_def)

text \<open>What an exception thrown by the sources is.\<close>

definition throws :: "fault set" where
  "throws = range Thrown"

lemma Thrown_throws [simp]: "Thrown s \<in> throws"
  by (simp add: throws_def)

lemma safe_sock_connect:
  assumes "pub n" and "sock_tab n s \<noteq> None"
  shows "safe throws n (sock_connect E s ip port n)"
  unfolding sock_connect_def
proof (rule safe_bind)
  show "safe throws n (upd_sock s (\<lambda>k. k\<lparr>s_ip := ip, s_port := port\<rparr>) n)"
    using assms by (auto intro!: safe_upd_sock simp: sock_ok_def sock_pub_def)
  fix m
  assume m: "upd_sock s (\<lambda>k. k\<lparr>s_ip := ip, s_port := port\<rparr>) n = Inr m" "pub m" "ext n m"
  then have "sock_tab m s \<noteq> None" using assms(2) by (auto simp: upd_Inr_iff)
  then have "safe throws m (bindE (upd_sock s (\<lambda>k. k\<lparr>s_isClient := True\<rparr>) m) (\<lambda>n. Inr (emit (Connect s ip port) n)))"
    using m(2) by (auto intro!: safe_bind safe_upd_sock steps_out simp del: upd_live simp: sock_ok_def sock_pub_def)
  then show "safe throws m (if \<not> resolves E ip then Inl (Thrown ''Couldn't resolve host'')
      else if \<not> can_socket E then Inl (Thrown ''ERROR opening socket'')
      else bindE (upd_sock s (\<lambda>k. k\<lparr>s_isClient := True\<rparr>) m) (\<lambda>n. Inr (emit (Connect s ip port) n)))"
    by simp
qed

text \<open>A pair of a new object and the state: the state has stepped and the object is there.\<close>

definition made :: "node \<Rightarrow> (node \<Rightarrow> addr \<Rightarrow> bool) \<Rightarrow> addr \<times> node \<Rightarrow> bool" where
  "made n there r \<longleftrightarrow> steps_to n (snd r) \<and> there (snd r) (fst r)"

lemma safe_made_bind:
  assumes "outcome F (made n there) r"
    and "\<And>a m. pub m \<Longrightarrow> ext n m \<Longrightarrow> there m a \<Longrightarrow> safe F m (f (a, m))"
  shows "safe F n (bindE r f)"
proof (rule outcome_bind [OF assms(1)])
  fix x
  assume x: "made n there x"
  obtain a m where am: "x = (a, m)" by fastforce
  then have s: "steps_to n m" "there m a" using x by (simp_all add: made_def)
  then have "safe F m (f (a, m))" using assms(2) by (simp add: steps_to_def)
  from safe_trans [OF s(1) this] show "safe F n (f x)" by (simp add: am)
qed

lemma safe_Host_connect:
  assumes "pub n"
  shows "outcome throws (made n (\<lambda>m h. host_tab m h \<noteq> None)) (Host_connect E ip port n)"
proof -
  let ?k = "\<lparr>h_ip = ip, h_port = port, h_id = 0, h_bReady = False,
         h_bConnecting = Some False, h_bServer = False, h_socket = None, h_commit_id = -1,
         h_known_commit_id = -1, h_bUpToDate = False, h_bFastforwarding = False\<rparr>"
  obtain h a where a: "new_host ?k n = (h, a)" by fastforce
  have na: "steps_to n a \<and> host_tab a h \<noteq> None \<and> h \<notin> set (hosts a) \<and> sock_tab a = sock_tab n"
    by (rule steps_new_host [OF assms a]) simp
  have pa: "pub a" using na steps_pub [of n a] by blast
  obtain known where known: "has_host ip port a = Inr known" using has_host_eq [OF pubD(2) [OF pa]] by blast
  let ?b = "if known then a else push_host h a"
  have ab: "steps_to a ?b" using steps_push_host [OF pa] na pa by auto
  obtain s c where c: "new_TCPSocket ?b = (s, c)" by fastforce
  note bc = steps_new_TCPSocket [OF steps_pub [OF ab] c]
  have nc: "steps_to n c" using steps_trans [OF steps_trans [of n a, OF _ ab], of c] na bc by blast
  have "host_tab c h \<noteq> None" "sock_tab c s \<noteq> None" using na bc by auto
  then have set: "safe throws c (setSocket h s c)" using safe_setSocket steps_pub [OF nc] by blast
  have "outcome throws (made n (\<lambda>m h. host_tab m h \<noteq> None))
      (bindE (setSocket h s c) (\<lambda>n. bindE (sock_connect E s (c_str ip) port n) (\<lambda>n. Inr (h, n))))"
  proof (rule outcome_bind [OF set])
    fix d
    assume d: "setSocket h s c = Inr d" "steps_to c d"
    then have "sock_tab d s \<noteq> None" "host_tab d h \<noteq> None"
      using \<open>sock_tab c s \<noteq> None\<close> \<open>host_tab c h \<noteq> None\<close> ext_sock ext_host steps_to_def by blast+
    from safe_sock_connect [OF steps_pub [OF d(2)] this(1)]
    have con: "safe throws d (sock_connect E s (c_str ip) port d)" .
    show "outcome throws (made n (\<lambda>m h. host_tab m h \<noteq> None))
        (bindE (sock_connect E s (c_str ip) port d) (\<lambda>n. Inr (h, n)))"
    proof (rule outcome_bind [OF con])
      fix e
      assume e: "steps_to d e"
      then have "host_tab e h \<noteq> None" using \<open>host_tab d h \<noteq> None\<close> ext_host steps_to_def by blast
      then show "outcome throws (made n (\<lambda>m h. host_tab m h \<noteq> None)) (Inr (h, e))"
        using steps_trans [OF nc steps_trans [OF d(2) e]] by (simp add: made_def)
    qed
  qed
  then show ?thesis
    unfolding Host_connect_def a prod.case known bindE_Inr c .
qed

lemma safe_Host_incoming:
  assumes "pub n" and "sock_tab n s \<noteq> None"
  shows "outcome F (made n (\<lambda>m h. host_tab m h \<noteq> None)) (Host_incoming ip port s n)"
proof -
  let ?k = "\<lparr>h_ip = ip, h_port = port, h_id = 0, h_bReady = False,
         h_bConnecting = None, h_bServer = True, h_socket = None, h_commit_id = -1,
         h_known_commit_id = -1, h_bUpToDate = False, h_bFastforwarding = False\<rparr>"
  obtain h a where a: "new_host ?k n = (h, a)" by fastforce
  have na: "steps_to n a \<and> host_tab a h \<noteq> None \<and> h \<notin> set (hosts a) \<and> sock_tab a = sock_tab n"
    by (rule steps_new_host [OF assms(1) a]) simp
  have pa: "pub a" using na steps_pub [of n a] by blast
  obtain known where known: "has_host ip port a = Inr known" using has_host_eq [OF pubD(2) [OF pa]] by blast
  let ?b = "if known then a else push_host h a"
  have ab: "steps_to a ?b" using steps_push_host [OF pa] na pa by auto
  have nb: "steps_to n ?b" using na ab steps_trans by blast
  have "host_tab ?b h \<noteq> None" "sock_tab ?b s \<noteq> None" using na assms(2) by auto
  then have set: "safe F ?b (setSocket h s ?b)" using safe_setSocket steps_pub [OF nb] by blast
  have "outcome F (made n (\<lambda>m h. host_tab m h \<noteq> None)) (bindE (setSocket h s ?b) (\<lambda>n. Inr (h, n)))"
  proof (rule outcome_bind [OF set])
    fix d
    assume d: "steps_to ?b d"
    then have "host_tab d h \<noteq> None" using \<open>host_tab ?b h \<noteq> None\<close> ext_host steps_to_def by blast
    then show "outcome F (made n (\<lambda>m h. host_tab m h \<noteq> None)) (Inr (h, d))"
      using steps_trans [OF nb d] by (simp add: made_def)
  qed
  then show ?thesis
    unfolding Host_incoming_def a prod.case known bindE_Inr .
qed

lemma safe_add_host:
  assumes "pub n"
  shows "safe throws n (add_host E ip port n)"
proof -
  have "safe throws n (bindE (Host_connect E ip port n) (\<lambda>(h, n). Inr n))"
    by (rule safe_made_bind [OF safe_Host_connect [OF assms]]) simp
  then show ?thesis
    by (simp add: add_host_def init_def pubD(3) [OF assms] add_host_inited_def has_host_eq [OF pubD(2) [OF assms]] assms)
qed

section \<open>Channels\<close>

lemma pub_chans_live: "pub n \<Longrightarrow> chans_live n"
  using pubD(11) [of n] pubD(2) [of n]
  by (auto simp: chans_live_def mesh_wf_def fresh_above_dom dom_def)

lemma pub_me: "pub n \<Longrightarrow> me n = Inr (hd (hosts n)) \<and> host_tab n (hd (hosts n)) \<noteq> None"
  using mesh_wf_me [OF pubD(2)] mesh_wf_live [OF pubD(2), of n "hd (hosts n)"] pubD(2) [of n]
  by (auto simp: mesh_wf_def)

lemma safe_get_or_create:
  assumes "pub n"
  shows "outcome F (made n (\<lambda>m c. chan_tab m c \<noteq> None)) (get_or_create_channel name n)"
proof (cases "chan_find n name")
  case (Some c)
  then have "get_or_create_channel name n = Inr (c, n)"
    using get_or_create_channel_cases [OF pub_chans_live [OF assms]] by simp
  moreover have "chan_tab n c \<noteq> None"
    using chan_find_SomeD [OF Some] pubD(11) [OF assms] by blast
  ultimately show ?thesis using assms by (simp add: made_def)
next
  case None
  obtain c m where cm: "ChannelImpl_ctor name n = (c, m)" by fastforce
  then have "get_or_create_channel name n = Inr (c, m)"
    using get_or_create_channel_cases [OF pub_chans_live [OF assms]] None by simp
  moreover have e: "evolves n m" "chan_tab m c \<noteq> None"
    using evolves_ChannelImpl_ctor [OF pubD(1) [OF assms] cm] by blast+
  moreover have "steps_to n m"
    by (rule steps_toI [OF assms e(1)])
       (use evolvesD(2) [OF e(1)] cm in \<open>auto simp: ext_def ChannelImpl_ctor_def new_channel_def split: if_splits\<close>)
  ultimately show ?thesis by (simp add: made_def)
qed

lemma safe_setPublisher:
  assumes "pub n" and "chan_tab n c \<noteq> None" and "\<And>h. p = Some h \<Longrightarrow> host_tab n h \<noteq> None"
  shows "safe F n (setPublisher E c p n)"
proof -
  obtain k where k: "chan_tab n c = Some k" using assms(2) by auto
  have "chan_ok n c (k\<lparr>c_publisher := p, c_offeredPort := 0\<rparr>)"
    using pubD(7) [OF assms(1) k] assms(3) by (auto simp: chan_ok_def)
  from steps_put_chan [OF assms(1) k this] show ?thesis
    using pubD(4) [OF assms(1) k] by (simp add: setPublisher_no_subs [OF k])
qed

lemma tostring_total:
  assumes "pub n" and "chan_tab n c \<noteq> None"
  shows "\<exists>s. channel_tostring c n = Inr s"
proof -
  obtain k where k: "chan_tab n c = Some k" using assms(2) by auto
  show ?thesis
    using pub_me [OF assms(1)] pubD(7) [OF assms(1) k] k
    by (auto simp: channel_tostring_def getType_def chan_ok_def split: option.splits)
qed

lemma safe_tostring_broadcast:
  assumes "pub n" and "chan_tab n c \<noteq> None"
  shows "safe F n (bindE (channel_tostring c n) (\<lambda>s. broadcast (f s) n))"
  using tostring_total [OF assms] safe_broadcast [OF assms(1)] by auto

lemma safe_channel_publish:
  assumes "pub n" and "chan_tab n c \<noteq> None"
  shows "safe F n (channel_publish E c n)"
proof -
  have "safe F n (bindE (setPublisher E c (Some (hd (hosts n))) n) (\<lambda>n.
      bindE (channel_tostring c n) (\<lambda>s. broadcast (''PUBLISH='' @ s) n)))"
    using assms pub_me [OF assms(1)]
    by (intro safe_bind safe_setPublisher safe_tostring_broadcast) (auto dest: ext_chan)
  then show ?thesis using assms pub_me [OF assms(1)] by (auto simp: channel_publish_def)
qed

lemma safe_channel_unpublish:
  assumes "pub n" and "chan_tab n c \<noteq> None"
  shows "safe F n (channel_unpublish E c n)"
  unfolding channel_unpublish_def using assms
  by (intro safe_bind safe_setPublisher safe_tostring_broadcast) (auto dest: ext_chan)

lemma safe_broadcast_published: "pub n \<Longrightarrow> safe F n (broadcast_published_channels n)"
  using broadcast_published_exact [OF pubD(2) pub_chans_live, of n] steps_out [of n]
  by (cases "broadcast_published_channels n") auto

lemma safe_close_all_channels:
  assumes "pub n"
  shows "safe F n (close_all_channels E h n)"
  unfolding close_all_channels_def
proof (rule safe_fold [OF assms])
  fix c m
  assume c: "c \<in> set (channels n)" "pub m" "ext n m"
  then have "chan_tab m c \<noteq> None" using pubD(11) [OF assms] ext_chan by blast
  then show "safe F m (bindE (live (chan_tab m) c) (\<lambda>k.
      if c_publisher k = Some h then setPublisher E c None m else Inr m))"
    using safe_setPublisher [OF c(2), of c None] c(2) by auto
qed

text \<open>Without local subscriptions an offer or a connection request only looks at the publisher.\<close>

lemma safe_channel_connect_tcp:
  assumes "pub n" and "chan_tab n c \<noteq> None"
  shows "safe {NullDeref} n (channel_connect_tcp E c n)"
proof -
  obtain k where k: "chan_tab n c = Some k" using assms(2) by auto
  show ?thesis
    using pubD(4) [OF assms(1) k] pubD(7) [OF assms(1) k] safe_host_send [OF assms(1)] assms(1) k
    by (cases "c_publisher k") (auto simp: channel_connect_tcp_def chan_ok_def)
qed

lemma safe_channel_connect_shm:
  assumes "pub n" and "chan_tab n c \<noteq> None"
  shows "safe {NullDeref} n (channel_connect_shm E c n)"
proof -
  obtain k where k: "chan_tab n c = Some k" using assms(2) by auto
  show ?thesis
    using pubD(4) [OF assms(1) k] pubD(7) [OF assms(1) k] safe_host_send [OF assms(1)] assms(1) k
    by (cases "c_publisher k") (auto simp: channel_connect_shm_def chan_ok_def)
qed

lemma subscriptor_writable:
  assumes "pub n" and "chan_tab n c = Some k" and "s \<in> set (c_subscriptors k)" and "pub m" and "ext n m"
  obtains b sk where "sub_tab m s = Some b" "sub_socket b = Some sk" "sub_transport b = TRANSPORT_TCP"
    "sock_tab m sk \<noteq> None" "sub_size b = 0"
proof -
  have "sub_tab n s \<noteq> None" using pubD(7) [OF assms(1,2)] assms(3) by (auto simp: chan_ok_def)
  then obtain b where b: "sub_tab m s = Some b" using assms(5) by (auto simp: ext_def)
  then show ?thesis using that pubD(5,8) [OF assms(4) b] by (auto simp: sub_ok_def)
qed

lemma safe_channel_write:
  assumes "pub n" and "chan_tab n c \<noteq> None"
  shows "safe F n (channel_write c msg n)"
proof -
  obtain k where k: "chan_tab n c = Some k" using assms(2) by auto
  have "safe F n (foldE (\<lambda>s. sub_write s msg) (c_subscriptors k) n)"
  proof (rule safe_fold [OF assms(1)])
    fix s m
    assume s: "s \<in> set (c_subscriptors k)" "pub m" "ext n m"
    obtain b sk where "sub_tab m s = Some b" "sub_socket b = Some sk" "sub_transport b = TRANSPORT_TCP"
        "sock_tab m sk \<noteq> None" "sub_size b = 0"
      using subscriptor_writable [OF assms(1) k s] .
    with s(2) show "safe F m (sub_write s msg m)"
      by (auto simp: sub_write_def sock_write_buf_def steps_out)
  qed
  then show ?thesis by (simp add: channel_write_def k)
qed

lemma safe_channel_write_dma:
  assumes "pub n" and "chan_tab n c \<noteq> None"
  shows "safe F n (channel_write_dma c n)"
proof -
  obtain k where k: "chan_tab n c = Some k" using assms(2) by auto
  have "safe F n (foldE sub_write_dma (c_subscriptors k) n)"
  proof (rule safe_fold [OF assms(1)])
    fix s m
    assume s: "s \<in> set (c_subscriptors k)" "pub m" "ext n m"
    obtain b sk where "sub_tab m s = Some b" "sub_socket b = Some sk" "sub_transport b = TRANSPORT_TCP"
        "sock_tab m sk \<noteq> None" "sub_size b = 0"
      using subscriptor_writable [OF assms(1) k s] .
    with s(2) show "safe F m (sub_write_dma s m)"
      by (auto simp: sub_write_dma_def sock_write_buf_def steps_out)
  qed
  then show ?thesis by (simp add: channel_write_dma_def k)
qed

lemma safe_channel_alloc:
  assumes "pub n" and "chan_tab n c \<noteq> None"
  shows "safe F n (channel_alloc E c sz n)"
proof -
  obtain k where k: "chan_tab n c = Some k" using assms(2) by auto
  show ?thesis
  proof (cases "c_ptr k")
    case None
    have "safe F n (bindE (upd_chan c (\<lambda>k. k\<lparr>c_ptr := Some (shm_create E (c_name k) sz), c_size := sz\<rparr>) n)
        (broadcast (alloc_message (c_name k) sz)))"
      by (rule safe_bind [OF safe_upd_chan [OF assms(1) k]]) (simp_all add: safe_broadcast chan_ok_def)
    then show ?thesis using None by (simp add: channel_alloc_def k)
  qed (use steps_out [OF assms(1)] k in \<open>simp add: channel_alloc_def\<close>)
qed

section \<open>Signaling\<close>

lemma outcome_weaken: "safe F n r \<Longrightarrow> F \<subseteq> G \<Longrightarrow> safe G n r"
  by (erule outcome_mono) auto

lemma safe_offer_tcp:
  assumes "pub n" and "chan_tab n c \<noteq> None" and "host_tab n h \<noteq> None"
  shows "safe throws n (offer_tcp E c h n)"
proof -
  obtain k where k: "chan_tab n c = Some k" using assms(2) by auto
  have send: "safe throws m (bindE (live (server_tab m) v) (\<lambda>sv. host_send h (msg sv) m))"
    if "pub m" "ext n m" "server_tab m v \<noteq> None" for m v msg
    using that safe_host_send [OF that(1)] ext_host [OF that(2) assms(3)] by auto
  show ?thesis
  proof (cases "c_server k")
    case (Some v)
    then have "server_tab n v \<noteq> None" using pubD(7) [OF assms(1) k] by (auto simp: chan_ok_def)
    then show ?thesis using send [OF assms(1) ext_refl] by (simp add: offer_tcp_def k Some)
  next
    case None
    show ?thesis
    proof (cases "scan_ports E 10000 20000")
      case (Inl f)
      then show ?thesis using scan_ports_Inl [OF Inl] by (simp add: offer_tcp_def k None TCPServer_range_def)
    next
      case (Inr port)
      obtain v a where a: "new_server port n = (v, a)" by fastforce
      let ?sv = "\<lparr>srv_port = port, srv_bStop = False, srv_connections = [], srv_on_open = AcceptNone\<rparr>"
      have "steps_to n (n\<lparr>next_addr := Suc (next_addr n), server_tab := (server_tab n)(next_addr n \<mapsto> ?sv)\<rparr>)"
        by (rule steps_alloc_server [OF assms(1)]) (simp add: srv_ok_def)
      from steps_trans [OF this steps_out [OF steps_pub [OF this]]]
      have na: "steps_to n a" "server_tab a v \<noteq> None" "chan_tab a = chan_tab n"
        using a by (auto simp: new_server_def)
      have "safe throws a (bindE (upd_chan c (\<lambda>k. k\<lparr>c_server := Some v\<rparr>) a) (\<lambda>n.
          bindE (upd_server v (\<lambda>sv. sv\<lparr>srv_on_open := AcceptSubscriptor c h\<rparr>) n) (\<lambda>n.
          bindE (live (server_tab n) v) (\<lambda>sv. host_send h (offer_tcp_message (c_name k) (srv_port sv)) n))))"
      proof (rule safe_bind)
        show "safe throws a (upd_chan c (\<lambda>k. k\<lparr>c_server := Some v\<rparr>) a)"
          using na k by (intro safe_upd_chan steps_pub [OF na(1)]) (auto simp: chan_ok_def)
        fix b
        assume b: "upd_chan c (\<lambda>k. k\<lparr>c_server := Some v\<rparr>) a = Inr b" "pub b" "ext a b"
        have v: "server_tab b v \<noteq> None" using ext_server [OF b(3)] na(2) by blast
        have nb: "ext n b" using na(1) b(3) ext_trans by (auto simp: steps_to_def)
        show "safe throws b (bindE (upd_server v (\<lambda>sv. sv\<lparr>srv_on_open := AcceptSubscriptor c h\<rparr>) b) (\<lambda>n.
          bindE (live (server_tab n) v) (\<lambda>sv. host_send h (offer_tcp_message (c_name k) (srv_port sv)) n)))"
        proof (rule safe_bind)
          show "safe throws b (upd_server v (\<lambda>sv. sv\<lparr>srv_on_open := AcceptSubscriptor c h\<rparr>) b)"
            using v ext_chan [OF nb assms(2)] ext_host [OF nb assms(3)]
            by (auto intro!: safe_upd_server b(2) simp: srv_ok_def)
        next
          fix u
          assume u: "pub u" "ext b u"
          show "safe throws u (bindE (live (server_tab u) v) (\<lambda>sv. host_send h (offer_tcp_message (c_name k) (srv_port sv)) u))"
            by (rule send [OF u(1) ext_trans [OF nb u(2)] ext_server [OF u(2) v]])
        qed
      qed
      from safe_trans [OF na(1) this] show ?thesis
        by (simp add: offer_tcp_def k None TCPServer_range_def Inr a bindE_assoc)
    qed
  qed
qed

lemma safe_offer_shm:
  assumes "pub n" and "chan_tab n c \<noteq> None" and "host_tab n h \<noteq> None"
  shows "safe F n (offer_shm c h n)"
proof -
  obtain k where k: "chan_tab n c = Some k" using assms(2) by auto
  then have live: "live (chan_tab n) c = Inr k" by simp
  show ?thesis
    unfolding offer_shm_def live bindE_Inr
    by (rule safe_bind [OF safe_upd_chan [OF assms(1) k]])
       (auto simp: chan_ok_def intro!: safe_host_send dest: ext_host [OF _ assms(3)])
qed

lemma safe_on_offer:
  assumes "pub n" and "chan_tab n c \<noteq> None"
  shows "safe {NullDeref} n (on_offer_tcp E c offer n)" "safe {NullDeref} n (on_offer_shm E c offer n)"
proof -
  obtain k where k: "chan_tab n c = Some k" using assms(2) by auto
  show "safe {NullDeref} n (on_offer_tcp E c offer n)"
    unfolding on_offer_tcp_def
    by (rule safe_bind [OF safe_upd_chan [OF assms(1) k]])
       (auto simp: chan_ok_def intro!: safe_channel_connect_tcp dest: ext_chan [OF _ assms(2)])
  show "safe {NullDeref} n (on_offer_shm E c offer n)"
    unfolding on_offer_shm_def
    by (rule safe_bind [OF safe_upd_chan [OF assms(1) k]])
       (auto simp: chan_ok_def intro!: safe_channel_connect_shm dest: ext_chan [OF _ assms(2)])
qed

lemma pub_get_channel:
  assumes "pub n"
  shows "get_channel name n = Inr (chan_find n name)" "chan_find n name = Some c \<Longrightarrow> chan_tab n c \<noteq> None"
  using get_channel_eq [OF pub_chans_live [OF assms]] chan_find_SomeD [of n name c] pubD(11) [OF assms]
  by auto

lemma safe_apply_publish:
  assumes "pub n" and "host_tab n h \<noteq> None"
  shows "safe throws n (apply_publish_statement E h st n)"
proof (cases st)
  case (Cons type body)
  let ?opts = "str_after st ''|''"
  have "safe throws n (bindE (get_or_create_channel (str_before body ''|'') n) (\<lambda>(c, n).
     if type = CHR ''P'' then setPublisher E c (Some h) n
     else if type = CHR ''A'' \<or> type = CHR ''S'' then
       bindE (get_host (str_before ?opts '':'') (atoi (str_after ?opts '':'')) n) (\<lambda>p.
       bindE (live (chan_tab n) c) (\<lambda>k.
       if c_publisher k \<noteq> None then Inr n else setPublisher E c p n))
     else Inr n))"
  proof (rule safe_made_bind [OF safe_get_or_create [OF assms(1)]])
    fix c m
    assume m: "pub m" "ext n m" "chan_tab m c \<noteq> None"
    obtain k where k: "chan_tab m c = Some k" using m(3) by auto
    have p: "safe throws m (setPublisher E c (Some h) m)"
      using safe_setPublisher [OF m(1,3), of "Some h"] ext_host [OF m(2) assms(2)] by auto
    obtain q where q: "get_host (str_before ?opts '':'') (atoi (str_after ?opts '':'')) m = Inr q"
      using get_host_eq [OF pubD(2) [OF m(1)]] by blast
    then have "safe throws m (setPublisher E c q m)"
      using get_host_live [OF pubD(1) [OF m(1)]] by (intro safe_setPublisher m(1,3)) blast
    with p q k m(1) show "safe throws m (case (c, m) of (c, n) \<Rightarrow>
       if type = CHR ''P'' then setPublisher E c (Some h) n
       else if type = CHR ''A'' \<or> type = CHR ''S'' then
         bindE (get_host (str_before ?opts '':'') (atoi (str_after ?opts '':'')) n) (\<lambda>p.
         bindE (live (chan_tab n) c) (\<lambda>k.
         if c_publisher k \<noteq> None then Inr n else setPublisher E c p n))
       else Inr n)"
      by simp
  qed
  moreover have "split_statement st = Inr (type, body)" by (simp add: split_statement_def Cons)
  ultimately show ?thesis by (simp add: apply_publish_statement_def Let_def)
qed (simp add: apply_publish_statement_def split_statement_def)

lemma safe_apply_unpublish:
  assumes "pub n"
  shows "safe throws n (apply_unpublish_statement E h st n)"
  using pub_get_channel [OF assms] safe_setPublisher [OF assms, of _ None] assms
  by (cases st) (auto simp: apply_unpublish_statement_def split_statement_def split: option.splits)

definition offer_statement :: "string \<Rightarrow> bool" where
  "offer_statement s \<longleftrightarrow> str_starts_with s ''OFFER_TCP='' \<or> str_starts_with s ''OFFER_SHM=''"

definition message_faults :: "string \<Rightarrow> fault set" where
  "message_faults s = throws \<union> (if offer_statement s then {NullDeref} else {})"

lemma safe_digest_message:
  assumes "pub n" and "host_tab n h \<noteq> None"
  shows "safe (message_faults s) n (digest_message E h s n)"
proof -
  note find = pub_get_channel [OF assms(1)]
  have t: "throws \<subseteq> message_faults s" by (simp add: message_faults_def)
  have o: "{NullDeref} \<subseteq> message_faults s" if "offer_statement s" using that by (simp add: message_faults_def)
  have 1: "safe (message_faults s) n (apply_publish_statement E h b n)" for b
    using outcome_weaken [OF safe_apply_publish [OF assms] t] .
  have 2: "safe (message_faults s) n (apply_unpublish_statement E h b n)" for b
    using outcome_weaken [OF safe_apply_unpublish [OF assms(1)] t] .
  have 3: "safe (message_faults s) n (make_offer_tcp E h b n)" for b
    using find outcome_weaken [OF safe_offer_tcp [OF assms(1) _ assms(2)] t] assms(1)
    by (auto simp: make_offer_tcp_def split: option.splits)
  have 4: "safe (message_faults s) n (make_offer_shm h b n)" for b
    using find safe_offer_shm [OF assms(1) _ assms(2)] assms(1)
    by (auto simp: make_offer_shm_def split: option.splits)
  have 5: "safe (message_faults s) n (answer_offer_tcp E h b n)" if "offer_statement s" for b
    using find outcome_weaken [OF safe_on_offer(1) [OF assms(1)] o [OF that]] assms(1)
    by (auto simp: answer_offer_tcp_def split: option.splits)
  have 6: "safe (message_faults s) n (answer_offer_shm E h b n)" if "offer_statement s" for b
    using find outcome_weaken [OF safe_on_offer(2) [OF assms(1)] o [OF that]] assms(1)
    by (auto simp: answer_offer_shm_def split: option.splits)
  show ?thesis
    using 1 2 3 4 5 6 assms(1) by (auto simp: digest_message_def offer_statement_def)
qed

section \<open>Handlers\<close>

lemma safe_on_receive:
  assumes "pub n" and "host_tab n h \<noteq> None"
  shows "safe (message_faults s) n (on_receive E h s n)"
proof -
  obtain k where k: "host_tab n h = Some k" using assms(2) by auto
  have ID: "safe F n (bindE (upd_host h (\<lambda>k. k\<lparr>h_id := parse_id s, h_port := parse_port s\<rparr>) n)
      (host_send h ''CONNECTED''))" for F
    by (rule safe_bind [OF safe_upd_host_same [OF assms(1) k]])
       (auto intro!: safe_host_send dest: ext_host [OF _ assms(2)])
  obtain mk where mk: "me n = Inr (hd (hosts n))" "host_tab n (hd (hosts n)) = Some mk"
    using pub_me [OF assms(1)] by auto
  have YOU: "safe F n (bindE (me n) (\<lambda>m. upd_host m (\<lambda>k. k\<lparr>h_ip := str_after s ''='', h_bReady := True\<rparr>) n))" for F
    using safe_upd_host_same [OF assms(1) mk(2)] mk(1) by simp
  have CON: "safe F n (bindE (upd_host h (\<lambda>k. k\<lparr>h_bReady := True\<rparr>) n) (\<lambda>n.
        bindE (live (host_tab n) h) (\<lambda>k.
        bindE (has_host (h_ip k) (h_port k) n) (\<lambda>known.
        bindE (on_host_open h (if known then n else push_host h n)) broadcast_hosts))))" for F
  proof (rule safe_bind [OF safe_upd_host_same [OF assms(1) k]])
    fix m
    assume m: "upd_host h (\<lambda>k. k\<lparr>h_bReady := True\<rparr>) n = Inr m" "pub m" "ext n m"
    obtain k' where k': "host_tab m h = Some k'" using ext_host [OF m(3) assms(2)] by auto
    obtain known where known: "has_host (h_ip k') (h_port k') m = Inr known"
        "known = (mesh_find m (h_ip k', h_port k') \<noteq> None)"
      using has_host_eq [OF pubD(2) [OF m(2)]] by blast
    let ?m = "if known then m else push_host h m"
    have "h \<notin> set (hosts m)" if "\<not> known"
      using that known(2) k' by (force simp: mesh_find_None_key host_key_def image_iff)
    then have mm: "steps_to m ?m" using steps_push_host [OF m(2), of h] k' m(2) by auto
    have "safe F ?m (bindE (on_host_open h ?m) broadcast_hosts)"
      by (rule safe_bind) (simp_all only: on_host_open_def safe_broadcast_published safe_broadcast_hosts steps_pub [OF mm])
    from safe_trans [OF mm this] show "safe F m (bindE (live (host_tab m) h) (\<lambda>k.
        bindE (has_host (h_ip k) (h_port k) m) (\<lambda>known.
        bindE (on_host_open h (if known then m else push_host h m)) broadcast_hosts)))"
      by (simp only: k' known(1) live_simps bindE_Inr)
  qed simp
  have ADD: "safe (message_faults s) n (add_host E ip port n)" for ip port
    by (rule outcome_weaken [OF safe_add_host [OF assms(1)]]) (simp add: message_faults_def)
  show ?thesis
    using ID YOU CON ADD safe_digest_message [OF assms] assms(1)
    by (simp add: on_receive_def k Let_def)
qed

lemma safe_incoming_message:
  assumes "pub n" and "sock_tab n sk \<noteq> None"
  shows "safe F n (incoming_message sk s n)"
proof (cases "str_starts_with s ''ID=''")
  case True
  obtain so where so: "sock_tab n sk = Some so" using assms(2) by auto
  let ?ip = "localize (s_ip so)" and ?port = "parse_port s" and ?id = "parse_id s"
  have lookup: "get_host ?ip ?port n = Inr (mesh_find n (?ip, ?port))"
    using get_host_eq [OF pubD(2) [OF assms(1)]] .
  show ?thesis
  proof (cases "mesh_find n (?ip, ?port)")
    case None
    have "safe F n (bindE (Host_incoming ?ip ?port sk n) (\<lambda>(h, n). host_send h ''CONNECTED'' n))"
      by (rule safe_made_bind [OF safe_Host_incoming [OF assms]]) (simp add: safe_host_send)
    then show ?thesis using True so lookup None by (simp add: incoming_message_def Let_def)
  next
    case (Some h)
    then obtain k where k: "host_tab n h = Some k" using mesh_find_SomeD by blast
    let ?close = "case h_socket k of None \<Rightarrow> Inr n
        | Some old \<Rightarrow> bindE (remove_listeners old n) (sock_close old True)"
    let ?adopt = "\<lambda>n. bindE (upd_host h (\<lambda>k. k\<lparr>h_bServer := True\<rparr>) n) (\<lambda>n.
              bindE (setSocket h sk n) (\<lambda>n. if h_bReady k then Inr n else host_send h ''CONNECTED'' n))"
    have close: "safe F n ?close"
    proof (cases "h_socket k")
      case (Some old)
      then have old: "sock_tab n old \<noteq> None" using mesh_wf_link [OF pubD(2) [OF assms(1)] k] by auto
      have "safe F n (bindE (remove_listeners old n) (sock_close old True))"
        by (rule safe_bind [OF safe_remove_listeners [OF assms(1) old]])
           (rule safe_sock_close, assumption, rule ext_sock [OF _ old])
      then show ?thesis by (simp add: Some)
    qed (simp add: assms(1))
    have adopt: "safe F m (?adopt m)" if m: "pub m" "ext n m" for m
    proof -
      obtain k' where k': "host_tab m h = Some k'" using ext_host [OF m(2)] k by auto
      have hs: "host_tab m h \<noteq> None" "sock_tab m sk \<noteq> None"
        using k' ext_sock [OF m(2) assms(2)] by auto
      show ?thesis
      proof (rule safe_bind [OF safe_upd_host_same [OF m(1) k']])
        fix a
        assume a: "pub a" "ext m a"
        have ha: "host_tab a h \<noteq> None" "sock_tab a sk \<noteq> None"
          using hs ext_host [OF a(2)] ext_sock [OF a(2)] by blast+
        show "safe F a (bindE (setSocket h sk a) (\<lambda>n. if h_bReady k then Inr n else host_send h ''CONNECTED'' n))"
          by (rule safe_bind [OF safe_setSocket [OF a(1) ha]])
             (use ext_host [OF _ ha(1)] safe_host_send in auto)
      qed simp
    qed
    have "safe F n (bindE ?close ?adopt)" by (rule safe_bind [OF close]) (rule adopt)
    then show ?thesis
      using True so lookup Some k safe_sock_close [OF assms] assms(1) by (simp add: incoming_message_def Let_def)
  qed
qed (simp add: incoming_message_def assms(1))

lemma safe_run_recv_cb:
  assumes "pub n" and "sock_tab n sk = Some so"
  shows "safe (message_faults msg) n (run_recv_cb E sk (s_cbRecv so) msg n)"
proof -
  have ok: "recv_ok n (s_cbRecv so)" "\<And>s. s_cbRecv so \<noteq> RecvSub s"
    using pubD(6,9) [OF assms] by (auto simp: sock_ok_def sock_pub_def)
  show ?thesis
    using ok safe_on_receive [OF assms(1)] safe_incoming_message [OF assms(1)] steps_out [OF assms(1)] assms
    by (cases "s_cbRecv so") (auto simp: run_recv_cb_def)
qed

text \<open>The messages a buffer is taken apart into on a socket.\<close>

definition messages_on :: "socket \<Rightarrow> string \<Rightarrow> string set" where
  "messages_on so buf = (if s_bLinebuffer so then set (recv_chunks buf) else {buf})"

definition buffer_faults :: "socket \<Rightarrow> string \<Rightarrow> fault set" where
  "buffer_faults so buf = throws \<union> (if \<exists>m\<in>messages_on so buf. offer_statement m then {NullDeref} else {})"

lemma chunks_of_mem: "RecvChunk m \<in> set es \<Longrightarrow> m \<in> set (chunks_of es)"
  by (induction es rule: chunks_of.induct) auto

lemma safe_thread_received:
  assumes "pub n" and "sock_tab n sk = Some so"
  shows "safe (buffer_faults so buf) n (thread_received E sk buf n)"
proof (cases "s_bLinebuffer so")
  case True
  have "safe (buffer_faults so buf) n (foldE (dispatch_event E sk) (recv_loop buf 0) n)"
  proof (rule safe_fold [OF assms(1)])
    fix e m
    assume e: "e \<in> set (recv_loop buf 0)" "pub m" "ext n m"
    obtain so' where so': "sock_tab m sk = Some so'" using ext_sock [OF e(3), of sk] assms(2) by auto
    show "safe (buffer_faults so buf) m (dispatch_event E sk e m)"
    proof (cases e)
      case (RecvChunk msg)
      then have "msg \<in> messages_on so buf"
        using e(1) True chunks_of_mem by (simp add: messages_on_def recv_chunks_def)
      then have "message_faults msg \<subseteq> buffer_faults so buf"
        by (auto simp: message_faults_def buffer_faults_def)
      from outcome_weaken [OF safe_run_recv_cb [OF e(2) so'] this] show ?thesis
        by (simp add: dispatch_event_def RecvChunk so')
    qed (use steps_out [OF e(2)] in \<open>simp add: dispatch_event_def\<close>)
  qed
  then show ?thesis by (simp add: thread_received_def assms(2) True)
next
  case False
  then have "message_faults buf \<subseteq> buffer_faults so buf"
    by (auto simp: message_faults_def buffer_faults_def messages_on_def)
  from outcome_weaken [OF safe_run_recv_cb [OF assms] this] False show ?thesis
    by (simp add: thread_received_def assms(2))
qed

lemma safe_upd_sub_connected:
  assumes "pub n" and "sub_tab n s \<noteq> None"
  shows "safe F n (sub_on_open s n)"
proof -
  obtain k where k: "sub_tab n s = Some k" using assms(2) by auto
  have "steps_to n (n\<lparr>sub_tab := (sub_tab n)(s \<mapsto> k\<lparr>sub_bConnected := True\<rparr>)\<rparr>)"
    using pubD(5,8) [OF assms(1) k] by (intro steps_put_sub [OF assms(1) k]) (auto simp: sub_ok_def)
  then show ?thesis by (simp add: sub_on_open_def k)
qed

lemma safe_thread_opened:
  assumes "pub n" and "sock_tab n sk = Some so"
  shows "safe F n (thread_opened sk n)"
  unfolding thread_opened_def
proof (rule safe_bind [OF safe_upd_sock [OF assms]])
  fix m
  assume m: "upd_sock sk (\<lambda>so. so\<lparr>s_bStop := False, s_semConnected := Suc (s_semConnected so)\<rparr>) n = Inr m" "pub m"
  then obtain so' where so': "sock_tab m sk = Some so'" using assms(2) by (auto simp: upd_Inr_iff)
  then have "open_ok m (s_on_open so')" "\<And>s. s_on_open so' = OpenSub s \<Longrightarrow> sub_tab m s \<noteq> None"
    using pubD(6,9) [OF m(2) so'] by (auto simp: sock_ok_def sock_pub_def)
  with so' m(2) show "safe F m (bindE (live (sock_tab m) sk) (\<lambda>so. run_open_cb (s_on_open so) m))"
    by (cases "s_on_open so'") (auto simp: run_open_cb_def safe_host_welcome safe_upd_sub_connected)
qed (simp_all add: sock_ok_def sock_pub_def)

lemma safe_host_on_close:
  assumes "pub n" and "host_tab n h = Some k" and "h_socket k \<noteq> None"
  shows "safe F n (host_on_close E h n)"
  unfolding host_on_close_def
proof (rule safe_bind [OF safe_upd_host_same [OF assms(1,2)]])
  fix m
  assume m: "upd_host h (\<lambda>k. k\<lparr>h_bReady := False\<rparr>) n = Inr m" "pub m" "ext n m"
  obtain sk where sk: "h_socket k = Some sk" using assms(3) by auto
  have h: "host_tab m h = Some (k\<lparr>h_bReady := False\<rparr>)" using m(1) assms(2) by (auto simp: upd_Inr_iff)
  have so: "sock_tab m sk \<noteq> None"
    using mesh_wf_link [OF pubD(2) [OF m(2)] h, of sk] sk by auto
  have "safe F m (bindE (sock_close sk False m) (on_host_close E h))"
    by (rule safe_bind [OF safe_sock_close [OF m(2) so]]) (simp add: on_host_close_def safe_close_all_channels)
  then show "safe F m (bindE (live (host_tab m) h) (\<lambda>k. bindE (deref (h_socket k)) (\<lambda>sk.
      bindE (sock_close sk False m) (on_host_close E h))))"
    by (simp add: h sk)
qed simp

section \<open>Accepting and closing connections\<close>

lemma sub_on_close_total:
  assumes "pub n" and "sub_tab n s \<noteq> None"
  shows "\<exists>m. sub_on_close s n = Inr m"
proof -
  obtain k where k: "sub_tab n s = Some k" using assms(2) by auto
  obtain sk where sk: "sub_socket k = Some sk" "sock_tab n sk \<noteq> None" "chan_tab n (sub_channel k) \<noteq> None"
    using pubD(5,8) [OF assms(1) k] by (auto simp: sub_ok_def)
  then show ?thesis
    using k by (auto simp: sub_on_close_def remove_listeners_def Subscription_dtor_def)
qed

lemma server_accept_result:
  assumes "pub n" and "server_tab n v = Some sv"
  shows "\<exists>m so. server_accept v ip port n = Inr m \<and> host_tab m = host_tab n
    \<and> sock_tab m = (sock_tab n)(next_addr n \<mapsto> so) \<and> sock_pub m so
    \<and> (\<forall>c k. chan_tab m c = Some k \<longrightarrow> c_subscriptions k = [])
    \<and> (\<forall>s k. sub_tab m s = Some k \<longrightarrow> sub_tab n s = Some k
         \<or> sub_transport k = TRANSPORT_TCP \<and> sub_socket k \<noteq> None)
    \<and> (\<forall>s. sub_tab n s \<noteq> None \<longrightarrow> sub_tab m s \<noteq> None)"
proof (cases "srv_on_open sv")
  case (AcceptSubscriptor c h)
  then obtain k where k: "chan_tab n c = Some k"
    using pubD(10) [OF assms] by (auto simp: srv_ok_def)
  then show ?thesis
    using assms pubD(4) [OF assms(1)] AcceptSubscriptor
    by (auto simp: server_accept_def new_TCPSocket_fd_def run_accept_cb_def Subscriptor_tcp_def new_sub_def
        TCPSocket_default_def sock_pub_def)
qed (use assms pubD(4) [OF assms(1)] in \<open>auto simp: server_accept_def new_TCPSocket_fd_def run_accept_cb_def
        handle_incoming_connection_def TCPSocket_default_def sock_pub_def\<close>)

lemma safe_server_accept:
  assumes "pub n" and "server_tab n v \<noteq> None"
  shows "safe F n (server_accept v ip port n)"
proof -
  obtain sv where sv: "server_tab n v = Some sv" using assms(2) by auto
  obtain m so where m: "server_accept v ip port n = Inr m" "host_tab m = host_tab n"
      "sock_tab m = (sock_tab n)(next_addr n \<mapsto> so)" "sock_pub m so"
      "\<forall>c k. chan_tab m c = Some k \<longrightarrow> c_subscriptions k = []"
      "\<forall>s k. sub_tab m s = Some k \<longrightarrow> sub_tab n s = Some k \<or> sub_transport k = TRANSPORT_TCP \<and> sub_socket k \<noteq> None"
      "\<forall>s. sub_tab n s \<noteq> None \<longrightarrow> sub_tab m s \<noteq> None"
    using server_accept_result [OF assms(1) sv] by blast
  have e: "evolves n m" by (rule server_accept_evolves [OF pubD(1) [OF assms(1)] m(1)])
  have "ext n m" using evolvesD(2) [OF e] m(2,7) by (simp add: ext_def)
  then have "steps_to n m"
    by (rule steps_toI [OF assms(1) e]) (use m(3-6) in \<open>auto split: if_splits\<close>)
  then show ?thesis by (simp add: m(1))
qed

definition accepted_only :: "socket \<Rightarrow> bool" where
  "accepted_only so \<longleftrightarrow> (case s_on_close so of CloseAccepted v cb \<Rightarrow> True | _ \<Rightarrow> False)"

lemma accepted_close_dangles:
  assumes "pub n" and "sock_tab n sk = Some so" and "accepted_only so"
  shows "thread_closed E sk n = Inl DanglingCapture"
proof -
  have pn: "pub (emit (CloseFd sk) n)" using steps_pub [OF steps_out [OF assms(1)]] by simp
  obtain v cb where cb: "s_on_close so = CloseAccepted v cb"
    using assms(3) by (auto simp: accepted_only_def split: close_cb.splits)
  have "close_pub n (s_on_close so)" using pubD(6) [OF assms(1,2)] by (simp add: sock_pub_def)
  then have "\<exists>m. run_close_cb E cb (emit (CloseFd sk) n) = Inr m"
    using cb sub_on_close_total [OF pn] by (cases cb) auto
  then show ?thesis by (auto simp: thread_closed_def assms(2) cb)
qed

lemma safe_thread_closed:
  assumes "pub n" and "sock_tab n sk = Some so"
  shows "safe (if accepted_only so then {DanglingCapture} else {}) n (thread_closed E sk n)"
proof -
  let ?n = "emit (CloseFd sk) n"
  have st: "steps_to n ?n" using steps_out [OF assms(1)] by simp
  note pn = steps_pub [OF st]
  have cp: "close_pub n (s_on_close so)" using pubD(6) [OF assms] by (simp add: sock_pub_def)
  have rest: "safe F m (bindE (live (sock_tab m) sk) (\<lambda>so.
      Inr (if s_bReconnect so \<and> s_isClient so \<and> resolves E (c_str (s_ip so)) \<and> can_socket E
          then emit (Connect sk (s_ip so) (s_port so)) m else m)))" if "pub m" "ext ?n m" for m F
    using ext_sock [OF that(2), of sk] assms(2) steps_out [OF that(1)] that(1) by auto
  have thread: "thread_closed E sk n = bindE (run_close_cb E (s_on_close so) ?n) (\<lambda>n.
      bindE (live (sock_tab n) sk) (\<lambda>so.
      Inr (if s_bReconnect so \<and> s_isClient so \<and> resolves E (c_str (s_ip so)) \<and> can_socket E
          then emit (Connect sk (s_ip so) (s_port so)) n else n)))"
    by (simp add: thread_closed_def assms(2))
  show ?thesis
  proof (cases "accepted_only so")
    case True
    then show ?thesis using accepted_close_dangles [OF assms] by simp
  next
    case False
    have run: "safe {} ?n (run_close_cb E (s_on_close so) ?n)"
      using False cp safe_host_on_close [OF pn] pn
      by (cases "s_on_close so") (auto simp: accepted_only_def split: option.splits)
    have "safe {} ?n (thread_closed E sk n)"
      unfolding thread by (rule safe_bind [OF run]) (rule rest)
    from safe_trans [OF st this] show ?thesis by (simp add: False)
  qed
qed

section \<open>Every event of a publishing process\<close>

text \<open>
  Events on objects there are; a program that never calls \<open>subscribe\<close>, and so has no Subscription to
  call.
\<close>

fun enabled :: "node \<Rightarrow> event \<Rightarrow> bool" where
  "enabled n (Accept v ip port) = (server_tab n v \<noteq> None)"
| "enabled n (Opened sk) = (sock_tab n sk \<noteq> None)"
| "enabled n (Received sk buf) = (sock_tab n sk \<noteq> None)"
| "enabled n (Closed sk) = (sock_tab n sk \<noteq> None)"
| "enabled n (Publish name) = True"
| "enabled n (Unpublish c) = (chan_tab n c \<noteq> None)"
| "enabled n (Subscribe name) = False"
| "enabled n (Write c msg) = (chan_tab n c \<noteq> None)"
| "enabled n (WriteOwn c) = (chan_tab n c \<noteq> None)"
| "enabled n (SubWrite s msg) = False"
| "enabled n (SubWriteOwn s) = False"
| "enabled n (Alloc c sz) = (chan_tab n c \<noteq> None)"
| "enabled n (SetOnMessage c) = (chan_tab n c \<noteq> None)"
| "enabled n (SubSetOnMessage s) = False"
| "enabled n (AddHost ip port) = True"

fun sock_faults :: "(socket \<Rightarrow> fault set) \<Rightarrow> socket option \<Rightarrow> fault set" where
  "sock_faults f None = {}"
| "sock_faults f (Some so) = f so"

text \<open>The faults an event may end in.\<close>

fun event_faults :: "node \<Rightarrow> event \<Rightarrow> fault set" where
  "event_faults n (Received sk buf) = sock_faults (\<lambda>so. buffer_faults so buf) (sock_tab n sk)"
| "event_faults n (Closed sk) =
     sock_faults (\<lambda>so. if accepted_only so then {DanglingCapture} else {}) (sock_tab n sk)"
| "event_faults n (AddHost ip port) = throws"
| "event_faults n _ = {}"

inductive pub_reachable :: "env \<Rightarrow> node \<Rightarrow> bool" for E where
  start: "init E empty_node = Inr n \<Longrightarrow> pub_reachable E n"
| step: "pub_reachable E n \<Longrightarrow> enabled n e \<Longrightarrow> handle E e n = Inr m \<Longrightarrow> pub_reachable E m"

lemma safe_publish:
  assumes "pub n"
  shows "safe F n (bindE (publish E name n) (\<lambda>(c, n). Inr n))"
proof -
  have "safe F n (bindE (get_or_create_channel name n) (\<lambda>(c, n). channel_publish E c n))"
    by (rule safe_made_bind [OF safe_get_or_create [OF assms]]) (simp add: safe_channel_publish)
  then show ?thesis by (cases "get_or_create_channel name n") (auto simp: publish_def bindE_assoc)
qed

lemma safe_handle:
  assumes "pub n" and "enabled n e"
  shows "safe (event_faults n e) n (handle E e n)"
proof (cases e)
  case (Publish name)
  then show ?thesis using safe_publish [OF assms(1)] by (simp add: handle_def)
next
  case (Received sk buf)
  then show ?thesis using safe_thread_received [OF assms(1)] assms(2) by (auto simp: handle_def)
next
  case (Closed sk)
  then obtain so where so: "sock_tab n sk = Some so" using assms(2) by auto
  show ?thesis using safe_thread_closed [OF assms(1) so] by (simp add: Closed so handle_def)
next
  case (SetOnMessage c)
  then obtain k where k: "chan_tab n c = Some k" using assms(2) by auto
  have "safe {} n (upd_chan c (\<lambda>k. k\<lparr>c_on_message := True\<rparr>) n)"
    by (rule safe_upd_chan [OF assms(1) k]) (simp_all add: chan_ok_def)
  then show ?thesis unfolding SetOnMessage by (simp add: handle_def)
qed (use assms in \<open>auto simp: handle_def safe_server_accept safe_thread_opened safe_channel_unpublish
      safe_channel_write safe_channel_write_dma safe_channel_alloc safe_add_host\<close>)

lemma booted_pub: "pub (booted E port)"
  using booted_wf by (simp add: pub_def booted_def empty_node_def)

lemma pub_reachable_pub: "pub_reachable E n \<Longrightarrow> pub n"
proof (induction rule: pub_reachable.induct)
  case (start n)
  obtain port where port: "scan_ports E SIGNALING_DEFAULT_PORT (SIGNALING_DEFAULT_PORT + 64) = Inr port"
    using init_evolves [OF start] by blast
  have "safe throws (booted E port) (add_host E ''localhost'' SIGNALING_DEFAULT_PORT (booted E port))"
    by (rule safe_add_host [OF booted_pub])
  then have "safe throws (booted E port) (add_host_inited E ''localhost'' SIGNALING_DEFAULT_PORT (booted E port))"
    by (simp add: add_host_def init_def booted_def)
  then show ?case
    using start init_booted [OF port] booted_pub by (auto simp: steps_to_def split: if_splits)
next
  case (step n e m)
  then show ?case using safe_handle [OF step.IH step.hyps(2), of E] by (simp add: steps_to_def)
qed

text \<open>
  C2: memory safety of a publisher. Whatever a process that never subscribes has handled so far, the
  next event on objects there are is handled to its end and keeps the process well formed, or ends
  in one of the faults named for it: an exception, only while a message is handled or a host added;
  a null publisher, only in a message that holds an offer; a dangling capture, only when an accepted
  connection ends that no host took over. It never uses a deleted object, a spoiled iterator or
  memory behind a buffer, and never recurses for ever.
\<close>

theorem publisher_memory_safety:
  assumes "pub_reachable E n" and "enabled n e"
  shows "case handle E e n of
      Inr m \<Rightarrow> pub m \<and> ext n m
    | Inl f \<Rightarrow> f \<in> event_faults n e \<and> f \<notin> {UseAfterFree, InvalidIterator, OutOfBounds, StackOverflow}"
proof -
  have F: "event_faults n e \<inter> {UseAfterFree, InvalidIterator, OutOfBounds, StackOverflow} = {}"
  proof (cases e)
    case (Received sk buf)
    then show ?thesis by (cases "sock_tab n sk") (auto simp: buffer_faults_def throws_def)
  next
    case (Closed sk)
    then show ?thesis by (cases "sock_tab n sk") auto
  qed (auto simp: throws_def)
  have "safe (event_faults n e) n (handle E e n)"
    by (rule safe_handle [OF pub_reachable_pub [OF assms(1)] assms(2)])
  with F show ?thesis by (cases "handle E e n") (auto simp: steps_to_def)
qed

text \<open>
  The dangling capture is not only possible: whenever a connection that was accepted and that no host
  took over ends, its thread runs the wrapper of the accept loop, whose captured variable is gone.
\<close>

theorem accepted_connection_end_dangles:
  assumes "pub_reachable E n" and "sock_tab n sk = Some so" and "accepted_only so"
  shows "handle E (Closed sk) n = Inl DanglingCapture"
  using accepted_close_dangles [OF pub_reachable_pub [OF assms(1)] assms(2,3)] by (simp add: handle_def)

end
