(* ===== verification/Process_Exit.thy ===== *)
theory Process_Exit
  imports Invariant
begin

text \<open>
  The end of a process (src/mesh.cpp): \<open>init\<close> registers an exit hook and a handler for SIGINT; the
  handler calls \<open>exit\<close>, which runs the hook, which closes the signaling server.
\<close>

definition at_exit :: "node \<Rightarrow> node res" where
  "at_exit n = uninit n"

text \<open>\<open>exit(0)\<close>: the hook runs if \<open>init\<close> has registered it.\<close>

definition sigint_handler :: "node \<Rightarrow> node res" where
  "sigint_handler n = (if bInited n then at_exit n else Inr n)"

definition stopped :: "node \<Rightarrow> addr \<Rightarrow> bool" where
  "stopped n s = (case sock_tab n s of None \<Rightarrow> False | Some so \<Rightarrow> s_bStop so)"

lemma close_all:
  assumes "list_all (\<lambda>s. sock_tab n s \<noteq> None) ss"
  shows "\<exists>m. foldE (\<lambda>s. sock_close s False) ss n = Inr m \<and> out m = out n @ map CloseFd ss
    \<and> server_tab m = server_tab n \<and> host_tab m = host_tab n
    \<and> (\<forall>s. if s \<in> set ss then stopped m s else sock_tab m s = sock_tab n s)"
  using assms
proof (induction ss arbitrary: n)
  case (Cons s ss)
  obtain so where so: "sock_tab n s = Some so" using Cons.prems by auto
  let ?u = "n\<lparr>sock_tab := (sock_tab n)(s \<mapsto> so\<lparr>s_bStop := True\<rparr>), out := out n @ [CloseFd s]\<rparr>"
  have u: "sock_close s False n = Inr ?u" using so by (simp add: sock_close_def)
  have "list_all (\<lambda>x. sock_tab ?u x \<noteq> None) ss" using Cons.prems by (auto simp: list_all_iff)
  from Cons.IH [OF this] obtain m where m: "foldE (\<lambda>s. sock_close s False) ss ?u = Inr m"
      "out m = out n @ CloseFd s # map CloseFd ss" "server_tab m = server_tab n" "host_tab m = host_tab n"
      "\<forall>x. if x \<in> set ss then stopped m x else sock_tab m x = sock_tab ?u x"
    by auto
  have "stopped m s"
    using m(5) [rule_format, of s] by (auto simp: stopped_def split: if_splits)
  moreover have "sock_tab m x = sock_tab n x" if "x \<noteq> s" "x \<notin> set ss" for x
    using m(5) [rule_format, of x] that by simp
  ultimately show ?case
    using u m by (intro exI [of _ m]) (auto split: if_splits)
qed simp

text \<open>
  A process that gets SIGINT closes the connections its signaling server has accepted and then
  the server itself, in this order, and nothing else: the sockets it has dialled stay open until the
  process is gone.
\<close>

theorem exit_closes_signaling:
  assumes "reachable E n" and "signalingServer n = Some v" and "server_tab n v = Some sv"
  shows "\<exists>m. sigint_handler n = Inr m
    \<and> out m = out n @ map CloseFd (srv_connections sv) @ [CloseFd v]
    \<and> map_option srv_bStop (server_tab m v) = Some True
    \<and> (\<forall>s. if s \<in> set (srv_connections sv) then stopped m s else sock_tab m s = sock_tab n s)"
proof -
  have wf: "node_wf n" using reachable_wf [OF assms(1)] .
  let ?u = "n\<lparr>server_tab := (server_tab n)(v \<mapsto> sv\<lparr>srv_bStop := True\<rparr>)\<rparr>"
  have "list_all (\<lambda>s. sock_tab ?u s \<noteq> None) (srv_connections sv)"
    using node_wfD(7) [OF wf assms(3)] by (auto simp: srv_ok_def list_all_iff)
  from close_all [OF this] obtain m where m: "foldE (\<lambda>s. sock_close s False) (srv_connections sv) ?u = Inr m"
      "out m = out n @ map CloseFd (srv_connections sv)" "server_tab m = server_tab ?u"
      "\<forall>s. if s \<in> set (srv_connections sv) then stopped m s else sock_tab m s = sock_tab n s"
    by auto
  have "sigint_handler n = Inr (emit (CloseFd v) m)"
    using node_wfD(2) [OF wf] assms(2,3) m(1)
    by (simp add: sigint_handler_def at_exit_def uninit_def server_close_def)
  moreover have "stopped (emit (CloseFd v) m) = stopped m" by (simp add: stopped_def fun_eq_iff)
  ultimately show ?thesis using m by (intro exI [of _ "emit (CloseFd v) m"]) auto
qed

end
