(* ===== verification/Demo_Runs.thy ===== *)
theory Demo_Runs
  imports Demo End_To_End Memory_Safety Process_Exit Socket_Threads
begin

text \<open>
  The concrete processes of Demo, run from the request of a subscription to the delivery of data and
  to the end of the channel: the hypotheses of the theorems that span both processes hold together.
\<close>

section \<open>A subscription that receives\<close>

text \<open>The publisher and the subscriber with callbacks installed.\<close>

definition demo_source :: node where
  "demo_source = demo_node ''10.0.0.1'' ''10.0.0.2''
     ((new_channel ''A'')\<lparr>c_publisher := Some 0, c_on_message := True\<rparr>) Map.empty"

definition demo_sink :: node where
  "demo_sink = demo_node ''10.0.0.2'' ''10.0.0.1''
     ((new_channel ''A'')\<lparr>c_publisher := Some 1, c_subscriptions := [4]\<rparr>)
     [4 \<mapsto> demo_pending\<lparr>sub_on_message := True\<rparr>]"

lemmas demo_run_defs = demo_source_def demo_sink_def demo_defs

lemma demo_source_wf: "mesh_wf demo_source"
  by (rule demo_node_wf; simp add: demo_source_def; simp add: demo_node_def)

lemma demo_runs_linked: "linked demo_source 1 2" "linked demo_sink 1 2"
  by (simp_all add: linked_def demo_run_defs)

lemma demo_runs_find:
  "chan_find demo_source ''A'' = Some 3" "chan_find demo_sink ''A'' = Some 3"
  "chans_live demo_source" "chans_live demo_sink"
  by (simp_all add: chan_find_def chan_named_def chans_live_def demo_run_defs)

lemma demo_sink_tabs:
  "chan_tab demo_sink 3 = Some ((new_channel ''A'')\<lparr>c_publisher := Some 1, c_subscriptions := [4]\<rparr>)"
  "host_tab demo_sink 1 = Some (demo_host ''10.0.0.1'' True False (Some 2))"
  "pending_sub demo_sink 3 4" "is_local 1 demo_sink = Inr False" "me demo_sink = Inr 0"
  "map_option sub_on_message (sub_tab demo_sink 4) = Some True"
  by (simp_all add: is_local_def me_def pending_sub_def demo_run_defs)

lemma demo_sink_waiting: "waiting_subscriber demo_env demo_sink 1 2 3 ''A''"
  using demo_runs_linked(2) demo_runs_find demo_sink_tabs
  by (simp add: waiting_subscriber_def new_channel_def del: One_nat_def)

lemma demo_source_ready: "ready_publisher demo_env demo_source 1 2 3 ''A'' 10000"
  using demo_runs_linked(1) demo_runs_find
  by (simp add: ready_publisher_def int32_def del: One_nat_def) (simp add: demo_run_defs demo_scan)


section \<open>The end of a channel\<close>



section \<open>Memory safety\<close>

text \<open>A process that has just started, connected to by a peer that then sends an offer nobody asked for.\<close>

definition demo_accepting :: node where
  "demo_accepting = (case server_accept 0 ''10.0.0.9'' 4000 (booted demo_env 12212) of Inr m \<Rightarrow> m | Inl f \<Rightarrow> empty_node)"

lemma demo_accepting: "pub_reachable demo_env demo_accepting"
    "map_option s_bLinebuffer (sock_tab demo_accepting 2) = Some True"
proof -
  have boot: "pub_reachable demo_env (booted demo_env 12212)" using demo_init by (rule pub_reachable.start)
  have acc: "handle demo_env (Accept 0 ''10.0.0.9'' 4000) (booted demo_env 12212) = Inr demo_accepting"
      "map_option s_bLinebuffer (sock_tab demo_accepting 2) = Some True"
    by (simp_all add: demo_accepting_def handle_def server_accept_def booted_def new_TCPSocket_fd_def run_accept_cb_def
        handle_incoming_connection_def TCPSocket_default_def)
  have "enabled (booted demo_env 12212) (Accept 0 ''10.0.0.9'' 4000)" by (simp add: booted_def)
  from pub_reachable.step [OF boot this acc(1)] show "pub_reachable demo_env demo_accepting" .
  show "map_option s_bLinebuffer (sock_tab demo_accepting 2) = Some True" by (rule acc(2))
qed

theorem publisher_memory_safety_witness:
  "(\<exists>m. handle demo_env (Publish ''A'') demo_accepting = Inr m \<and> pub m)
   \<and> handle demo_env (Received 2 (frame ''hello'')) demo_accepting \<noteq> Inl UseAfterFree"
proof
  show "\<exists>m. handle demo_env (Publish ''A'') demo_accepting = Inr m \<and> pub m"
    using publisher_memory_safety [OF demo_accepting(1), of "Publish ''A''"]
    by (cases "handle demo_env (Publish ''A'') demo_accepting") auto
  have "enabled demo_accepting (Received 2 (frame ''hello''))" using demo_accepting(2) by auto
  from publisher_memory_safety [OF demo_accepting(1) this]
  show "handle demo_env (Received 2 (frame ''hello'')) demo_accepting \<noteq> Inl UseAfterFree"
    by (cases "handle demo_env (Received 2 (frame ''hello'')) demo_accepting") auto
qed

theorem accepted_connection_end_dangles_witness:
  "handle demo_env (Closed 2) demo_accepting = Inl DanglingCapture"
proof -
  obtain so where so: "sock_tab demo_accepting 2 = Some so" "accepted_only so"
    by (simp add: demo_accepting_def server_accept_def booted_def new_TCPSocket_fd_def run_accept_cb_def
        handle_incoming_connection_def accepted_only_def)
  show ?thesis by (rule accepted_connection_end_dangles [OF demo_accepting(1) so])
qed

section \<open>Memory, output, exit\<close>

definition demo_zero_env :: env where
  "demo_zero_env = demo_env\<lparr>shm_create := (\<lambda>_ sz. replicate sz NUL)\<rparr>"


theorem write_overloads_differ_witness:
  "Channel_write_cstr 3 ''x'' demo_fan_out = Inr (demo_fan_out\<lparr>out := [Send 5 ''x'']\<rparr>)
   \<and> ChannelImpl_write_cstr 3 ''x'' demo_fan_out = Inr (demo_fan_out\<lparr>out := [Send 5 (''x'' @ [NUL])]\<rparr>)"
proof -
  have "c_str ''x'' = ''x''" by (simp add: c_str_def NUL_def)
  then show ?thesis
    using write_overloads_differ [OF demo_fan_out(2), of "''x''"] demo_fan_out(1,3)
    by (simp add: demo_fan_defs)
qed

theorem pubsub_dump_prints_nothing_witness:
  "\<exists>ls. pubsub_dump_main demo_env [''pubsub_dump''] demo_idle = Inr (0, ls) \<and> ls = []"
proof -
  obtain ls where "pubsub_dump_main demo_env [''pubsub_dump''] demo_idle = Inr (0, ls)"
    by (simp add: pubsub_dump_main_def parse_args_def dump_hosts_def dump_channels_def channel_tostring_def
        getType_def me_def demo_defs)
  with pubsub_dump_prints_nothing [OF this] show ?thesis by blast
qed

theorem exit_closes_signaling_witness:
  "\<exists>m. sigint_handler (booted demo_env 12212) = Inr m \<and> out m = [Listen 0 12212, CloseFd 0]"
proof -
  have "signalingServer (booted demo_env 12212) = Some 0"
      "server_tab (booted demo_env 12212) 0 = Some \<lparr>srv_port = 12212, srv_bStop = False,
         srv_connections = [], srv_on_open = AcceptSignaling\<rparr>"
      "out (booted demo_env 12212) = [Listen 0 12212]"
    by (simp_all add: booted_def)
  with exit_closes_signaling [OF demo_reachable this(1,2)] show ?thesis by auto
qed

section \<open>Threads\<close>

definition demo_process :: process where
  "demo_process = spawn empty_node (booted demo_env 12212) no_process"

lemma demo_process: "proc_reach demo_env demo_process" "0 \<in> accepting demo_process"
proof -
  show "proc_reach demo_env demo_process"
    unfolding demo_process_def using demo_init by (rule proc_reach.boot)
  show "0 \<in> accepting demo_process"
    by (simp add: demo_process_def spawn_def booted_def empty_node_def)
qed


theorem accepted_connection_served_witness:
  "\<exists>P1 P2 sk. proc_step demo_env demo_process P1 \<and> proc_step demo_env P1 P2 \<and> threads P2 sk = Some Receiving"
  using accepted_connection_served [OF demo_process, of "''10.0.0.2''"] by blast


end
