(* ===== verification/Network.thy ===== *)
theory Network
  imports Socket_Threads
begin

text \<open>
  Several processes and the connections between them. Each process is one of Socket_Threads, with its
  own environment; what the network contributes are the answers of the blocking calls: a dialling
  socket reaches a server that listens on its port at the address it dials, and what is sent on one
  end of a connection arrives at the other end, in order, cut into pieces anywhere. Shown: every
  process of a network only reaches states it reaches alone, so that all invariants hold in every
  one of them; and a dialled connection can always be brought to two ready hosts.
\<close>

section \<open>Networks\<close>

text \<open>
  Processes are numbered. An end of a connection is a socket of a process; \<open>peer\<close> is the other end,
  \<open>wire\<close> the bytes on their way to an end. \<open>sees W i\<close> are the processes that process \<open>i\<close> reaches under
  a name, \<open>shown W j i\<close> is the numeric address under which \<open>accept\<close> of process \<open>j\<close> reports process \<open>i\<close>.
\<close>

record world =
  envs :: "nat \<Rightarrow> env"
  sees :: "nat \<Rightarrow> string \<Rightarrow> nat set"
  shown :: "nat \<Rightarrow> nat \<Rightarrow> string"

record network =
  procs :: "nat \<Rightarrow> process"
  peer :: "nat \<times> addr \<Rightarrow> (nat \<times> addr) option"
  wire :: "nat \<times> addr \<Rightarrow> string"

abbreviation node_of :: "network \<Rightarrow> nat \<Rightarrow> node" where
  "node_of N i \<equiv> state (procs N i)"

text \<open>
  Process \<open>i\<close> becomes \<open>P\<close>; what it has sent meanwhile is on the way to the other ends. (An end whose
  partner has gone over to another connection gets nothing.)
\<close>

definition advance :: "nat \<Rightarrow> process \<Rightarrow> network \<Rightarrow> network" where
  "advance i P N = N\<lparr>procs := (procs N)(i := P),
     wire := (\<lambda>q. wire N q @ (case peer N q of
                 None \<Rightarrow> []
               | Some (j, s) \<Rightarrow> if j = i \<and> peer N (j, s) = Some q
                                then sent_on s (node_of N i) (state P) else []))\<rparr>"

text \<open>A turn of a socket's thread; a connection whose thread is no longer in \<open>recv\<close> is over.\<close>

definition socket_turn :: "nat \<Rightarrow> addr \<Rightarrow> place option \<Rightarrow> node \<Rightarrow> network \<Rightarrow> network" where
  "socket_turn i sk q m N =
     (let P = procs N i;
          N = advance i (spawn (state P) m (P\<lparr>threads := (threads P)(sk := q)\<rparr>)) N in
      if q = Some Receiving then N else N\<lparr>peer := (peer N)((i, sk) := None)\<rparr>)"

text \<open>Port numbers are 16 bits wide on the wire (\<open>htons\<close>).\<close>

definition reaches :: "world \<Rightarrow> network \<Rightarrow> nat \<Rightarrow> addr \<Rightarrow> nat \<Rightarrow> addr \<Rightarrow> bool" where
  "reaches W N i sk j v \<longleftrightarrow> v \<in> accepting (procs N j)
     \<and> (case sock_tab (node_of N i) sk of None \<Rightarrow> False | Some so \<Rightarrow>
          j \<in> sees W i (s_ip so)
          \<and> (case server_tab (node_of N j) v of None \<Rightarrow> False | Some srv \<Rightarrow>
               srv_port srv mod 65536 = s_port so mod 65536))"

definition joined :: "nat \<Rightarrow> addr \<Rightarrow> nat \<Rightarrow> addr \<Rightarrow> network \<Rightarrow> network" where
  "joined i sk j t N = N\<lparr>peer := (peer N)((i, sk) \<mapsto> (j, t), (j, t) \<mapsto> (i, sk)),
     wire := (wire N)((i, sk) := [], (j, t) := [])\<rparr>"

text \<open>
  A connection is made in two steps, as \<open>accept\<close> and \<open>connect\<close> return in different threads. \<open>recv\<close> returns
  any non-empty part of what has arrived, or the end of the stream when nothing is left and the
  other end has closed or gone.
\<close>

inductive net_step :: "world \<Rightarrow> network \<Rightarrow> network \<Rightarrow> bool" for W where
  call: "is_call e \<Longrightarrow> handle (envs W i) e (node_of N i) = Inr m \<Longrightarrow>
    net_step W N (advance i (spawn (node_of N i) m (procs N i)) N)"
| started: "threads (procs N i) sk = Some Starting \<Longrightarrow>
    sock_resume (envs W i) sk Starting None (node_of N i) = Inr (q, m) \<Longrightarrow>
    net_step W N (socket_turn i sk q m N)"
| accept: "threads (procs N i) sk = Some Dialling \<Longrightarrow> peer N (i, sk) = None \<Longrightarrow> reaches W N i sk j v \<Longrightarrow>
    t = next_addr (node_of N j) \<Longrightarrow>
    server_resume v (Some (shown W j i, p)) (node_of N j) = Inr (goes, m) \<Longrightarrow>
    net_step W N (joined i sk j t (advance j (spawn (node_of N j) m
      ((procs N j)\<lparr>accepting := (if goes then accepting (procs N j) else accepting (procs N j) - {v})\<rparr>)) N))"
| opened: "threads (procs N i) sk = Some Dialling \<Longrightarrow> peer N (i, sk) \<noteq> None \<Longrightarrow>
    sock_resume (envs W i) sk Dialling (Some []) (node_of N i) = Inr (q, m) \<Longrightarrow>
    net_step W N (socket_turn i sk q m N)"
| arrives: "threads (procs N i) sk = Some Receiving \<Longrightarrow> wire N (i, sk) = buf @ rest \<Longrightarrow> buf \<noteq> [] \<Longrightarrow>
    sock_resume (envs W i) sk Receiving (Some buf) (node_of N i) = Inr (q, m) \<Longrightarrow>
    net_step W N (socket_turn i sk q m (N\<lparr>wire := (wire N)((i, sk) := rest)\<rparr>))"
| ends: "threads (procs N i) sk = Some Receiving \<Longrightarrow> wire N (i, sk) = [] \<Longrightarrow>
    (case peer N (i, sk) of None \<Rightarrow> True | Some (j, t) \<Rightarrow>
       peer N (j, t) \<noteq> Some (i, sk) \<or> CloseFd t \<in> set (out (node_of N j))) \<Longrightarrow>
    sock_resume (envs W i) sk Receiving None (node_of N i) = Inr (q, m) \<Longrightarrow>
    net_step W N (socket_turn i sk q m N)"

abbreviation net_steps :: "world \<Rightarrow> network \<Rightarrow> network \<Rightarrow> bool" where
  "net_steps W \<equiv> rtranclp (net_step W)"

definition net_boot :: "world \<Rightarrow> network \<Rightarrow> bool" where
  "net_boot W N \<longleftrightarrow> peer N = (\<lambda>_. None) \<and> wire N = (\<lambda>_. [])
     \<and> (\<forall>i. \<exists>n. init (envs W i) empty_node = Inr n \<and> procs N i = spawn empty_node n no_process)"

definition net_reach :: "world \<Rightarrow> network \<Rightarrow> bool" where
  "net_reach W N \<longleftrightarrow> (\<exists>N0. net_boot W N0 \<and> net_steps W N0 N)"

section \<open>Every process by itself\<close>

lemma advance_simps [simp]:
  "procs (advance i P N) = (procs N)(i := P)" "peer (advance i P N) = peer N"
  by (simp_all add: advance_def)

lemma joined_procs [simp]: "procs (joined i sk j t N) = procs N"
  by (simp add: joined_def)

lemma procs_socket_turn [simp]:
  "procs (socket_turn i sk q m N) = (procs N)(i :=
     spawn (node_of N i) m ((procs N i)\<lparr>threads := (threads (procs N i))(sk := q)\<rparr>))"
  by (simp add: socket_turn_def Let_def)

lemma net_step_local:
  assumes "net_step W N M"
  shows "procs M k = procs N k \<or> proc_step (envs W k) (procs N k) (procs M k)"
  using assms
proof (cases rule: net_step.cases)
  case (call e i m)
  then show ?thesis using proc_step.call [OF call(2,3)] by (cases "k = i") simp_all
next
  case (started i sk q m)
  then show ?thesis using proc_step.socket [OF started(2,3)] by (cases "k = i") simp_all
next
  case (accept i sk j v t p goes m)
  then have "v \<in> accepting (procs N j)" by (simp add: reaches_def)
  from proc_step.server [OF this accept(6)] show ?thesis using accept(1) by (cases "k = j") simp_all
next
  case (opened i sk q m)
  then show ?thesis using proc_step.socket [OF opened(2,4)] by (cases "k = i") simp_all
next
  case (arrives i sk buf rest q m)
  then show ?thesis using proc_step.socket [OF arrives(2,5)] by (cases "k = i") simp_all
next
  case (ends i sk q m)
  then show ?thesis using proc_step.socket [OF ends(2,5)] by (cases "k = i") simp_all
qed

text \<open>Only sockets that exist have an other end.\<close>

lemma accept_makes_socket:
  "server_resume v (Some (ip, p)) n = Inr (goes, m) \<Longrightarrow> sock_tab m (next_addr n) \<noteq> None"
  by (auto simp: server_resume_def server_accept_def new_TCPSocket_fd_def bindE_eq_Inr_iff upd_Inr_iff
      split: if_splits)

lemma net_reach_procs:
  assumes "net_reach W N"
  shows "proc_reach (envs W i) (procs N i)" "reachable (envs W i) (node_of N i)" "node_wf (node_of N i)"
    "places_ok (procs N i)"
proof -
  obtain N0 where "net_boot W N0" and steps: "net_steps W N0 N" using assms by (auto simp: net_reach_def)
  from steps show *: "proc_reach (envs W i) (procs N i)"
  proof (induction rule: rtranclp_induct)
    case base
    then show ?case using \<open>net_boot W N0\<close> by (auto simp: net_boot_def) (metis proc_reach.boot)
  next
    case (step M M')
    then show ?case using net_step_local [OF step(2), of i] proc_reach.step by metis
  qed
  from proc_reach_ok [OF this] show "reachable (envs W i) (node_of N i)" "places_ok (procs N i)" by simp_all
  then show "node_wf (node_of N i)" using reachable_wf by blast
qed

lemma net_reach_step: "net_reach W N \<Longrightarrow> net_step W N M \<Longrightarrow> net_reach W M"
  unfolding net_reach_def by (meson rtranclp.rtrancl_into_rtrancl)

lemma net_reach_steps: "net_reach W N \<Longrightarrow> net_steps W N M \<Longrightarrow> net_reach W M"
  unfolding net_reach_def by (meson rtranclp_trans)

lemma net_step_keeps_sockets:
  assumes "net_reach W N" and "net_step W N M" and "sock_tab (node_of N k) s \<noteq> None"
  shows "sock_tab (node_of M k) s \<noteq> None"
  using net_step_local [OF assms(2), of k] assms(3)
    growsD(2) [OF proc_step_grows(2) [OF _ net_reach_procs(2) [OF assms(1)]], of k _ s]
  by metis

lemma net_step_peer:
  assumes "net_step W N M" and "peer M (k, s) \<noteq> None"
  shows "peer N (k, s) \<noteq> None \<or> threads (procs N k) s \<noteq> None \<or> sock_tab (node_of M k) s \<noteq> None"
  using assms(1)
proof (cases rule: net_step.cases)
  case (accept i sk j v t p goes m)
  then show ?thesis
    using assms(2) accept_makes_socket [OF accept(6)] by (auto simp: joined_def split: if_splits)
qed (use assms(2) in \<open>auto simp: socket_turn_def Let_def split: if_splits\<close>)

lemma net_peer_socket:
  assumes "net_reach W N" and "peer N (k, s) \<noteq> None"
  shows "sock_tab (node_of N k) s \<noteq> None"
proof -
  obtain N0 where N0: "net_boot W N0" "net_steps W N0 N" using assms(1) by (auto simp: net_reach_def)
  from N0(2) assms(2) show ?thesis
  proof (induction rule: rtranclp_induct)
    case base
    then show ?case using N0(1) by (simp add: net_boot_def)
  next
    case (step M M')
    have M: "net_reach W M" using N0(1) step(1) by (auto simp: net_reach_def)
    have "threads (procs M k) s \<noteq> None \<Longrightarrow> sock_tab (node_of M k) s \<noteq> None"
      using net_reach_procs(4) [OF M, of k] by (auto simp: places_ok_def)
    then show ?case
      using net_step_peer [OF step(2,4)] step(3) net_step_keeps_sockets [OF M step(2), of k s] by blast
  qed
qed


section \<open>One connection\<close>

text \<open>
  A connection between \<open>(i, sk)\<close> and \<open>(j, t)\<close> in a network that was \<open>N0\<close> when it was made: the two
  processes, the bytes on the way to each end, and everything else as it was, up to what the two
  processes have sent on their other connections.
\<close>

definition extends :: "node \<Rightarrow> node \<Rightarrow> bool" where
  "extends n m \<longleftrightarrow> (\<exists>es. out m = out n @ es)"

lemma extends_refl [simp]: "extends n n"
  by (simp add: extends_def)

lemma extends_trans [trans]: "extends n m \<Longrightarrow> extends m u \<Longrightarrow> extends n u"
  by (auto simp: extends_def)

lemma sent_on_self [simp]: "sent_on s n n = []"
  by (simp add: sent_on_def)

lemma sent_on_append:
  "extends n m \<Longrightarrow> extends m u \<Longrightarrow> sent_on s n u = sent_on s n m @ sent_on s m u"
  by (auto simp: extends_def sent_on_def)

definition sent_to :: "network \<Rightarrow> network \<Rightarrow> nat \<times> addr \<Rightarrow> string" where
  "sent_to N0 N q = (case peer N q of
     None \<Rightarrow> []
   | Some (k, s) \<Rightarrow> if peer N (k, s) = Some q then sent_on s (node_of N0 k) (node_of N k) else [])"

definition snap ::
  "network \<Rightarrow> network \<Rightarrow> nat \<Rightarrow> process \<Rightarrow> addr \<Rightarrow> string \<Rightarrow> nat \<Rightarrow> process \<Rightarrow> addr \<Rightarrow> string \<Rightarrow> bool" where
  "snap N0 N i P sk wi j Q t wj \<longleftrightarrow> i \<noteq> j \<and> procs N i = P \<and> procs N j = Q
     \<and> (\<forall>k. k \<noteq> i \<longrightarrow> k \<noteq> j \<longrightarrow> procs N k = procs N0 k)
     \<and> peer N (i, sk) = Some (j, t) \<and> peer N (j, t) = Some (i, sk)
     \<and> wire N (i, sk) = wi \<and> wire N (j, t) = wj
     \<and> extends (node_of N0 i) (state P) \<and> extends (node_of N0 j) (state Q)
     \<and> (\<forall>q. q \<noteq> (i, sk) \<longrightarrow> q \<noteq> (j, t) \<longrightarrow> peer N q = peer N0 q \<and> wire N q = wire N0 q @ sent_to N0 N q)"

lemma snap_sym: "snap N0 N i P sk wi j Q t wj \<Longrightarrow> snap N0 N j Q t wj i P sk wi"
  by (simp add: snap_def)

lemma snap_frame:
  "snap N0 N i P sk wi j Q t wj \<Longrightarrow> q \<noteq> (i, sk) \<Longrightarrow> q \<noteq> (j, t) \<Longrightarrow>
   peer N q = peer N0 q \<and> wire N q = wire N0 q @ sent_to N0 N q"
  unfolding snap_def by blast

lemma snap_self:
  assumes "i \<noteq> j" and "peer N (i, sk) = Some (j, t)" and "peer N (j, t) = Some (i, sk)"
  shows "snap N N i (procs N i) sk (wire N (i, sk)) j (procs N j) t (wire N (j, t))"
proof -
  have "sent_to N N q = []" for q by (simp add: sent_to_def split: option.split prod.split)
  then show ?thesis using assms by (simp add: snap_def)
qed

lemma snap_others:
  assumes "snap N M i P sk wi j Q t wj" and "peer N q = Some (k, r)" and "node_of M k = node_of N k"
    and "q \<noteq> (i, sk)" and "q \<noteq> (j, t)"
  shows "peer M q = peer N q \<and> wire M q = wire N q"
  using snap_frame [OF assms(1,4,5)] assms(2,3) by (simp add: sent_to_def)

text \<open>One of the two processes goes on to \<open>R\<close>.\<close>

lemma snap_advance:
  assumes "snap N0 N i P sk wi j Q t wj" and "extends (state P) (state R)"
  shows "snap N0 (advance i R N) i R sk wi j Q t (wj @ sent_on sk (state P) (state R))"
    (is "snap N0 ?M i R sk wi j Q t ?w")
proof -
  have P: "node_of N i = state P" and ij: "i \<noteq> j" and ext: "extends (node_of N0 i) (state P)"
    using assms(1) by (simp_all add: snap_def)
  have old: "peer N q = peer N0 q \<and> wire N q = wire N0 q @ sent_to N0 N q" if "q \<noteq> (i, sk)" "q \<noteq> (j, t)" for q
    using snap_frame [OF assms(1) that] .
  have "peer ?M q = peer N0 q \<and> wire ?M q = wire N0 q @ sent_to N0 ?M q" if q: "q \<noteq> (i, sk)" "q \<noteq> (j, t)" for q
  proof -
    have "wire ?M q = wire N q @ (case peer N q of None \<Rightarrow> []
        | Some (k, s) \<Rightarrow> if k = i \<and> peer N (k, s) = Some q then sent_on s (state P) (state R) else [])"
      using P by (auto simp: advance_def split: option.split)
    then show ?thesis
      using old [OF q] sent_on_append [OF ext assms(2)] P
      by (auto simp: sent_to_def split: option.splits prod.splits)
  qed
  then have frame: "\<forall>q. q \<noteq> (i, sk) \<longrightarrow> q \<noteq> (j, t) \<longrightarrow>
      peer ?M q = peer N0 q \<and> wire ?M q = wire N0 q @ sent_to N0 ?M q" by blast
  have "wire ?M (j, t) = ?w" "wire ?M (i, sk) = wi"
    using assms(1) ij P by (auto simp: snap_def advance_def)
  moreover have "peer ?M (i, sk) = Some (j, t)" "peer ?M (j, t) = Some (i, sk)"
      "procs ?M i = R" "procs ?M j = Q" "\<forall>k. k \<noteq> i \<longrightarrow> k \<noteq> j \<longrightarrow> procs ?M k = procs N0 k"
      "extends (node_of N0 j) (state Q)"
    using assms(1) by (simp_all add: snap_def)
  moreover have "extends (node_of N0 i) (state R)" using extends_trans [OF ext assms(2)] .
  ultimately show ?thesis unfolding snap_def using ij frame by blast
qed

lemma sent_to_wire [simp]: "sent_to N0 (N\<lparr>wire := w\<rparr>) = sent_to N0 N"
  by (intro ext) (simp add: sent_to_def split: option.split prod.split)

lemma snap_rest:
  "snap N0 N i P sk wi j Q t wj \<Longrightarrow> snap N0 (N\<lparr>wire := (wire N)((i, sk) := rest)\<rparr>) i P sk rest j Q t wj"
  by (simp add: snap_def)

text \<open>The thread of one end takes a turn and goes on receiving.\<close>

lemma snap_turn:
  assumes "snap N0 N i P sk wi j Q t wj" and "extends (state P) m"
  shows "snap N0 (socket_turn i sk (Some Receiving) m (N\<lparr>wire := (wire N)((i, sk) := rest)\<rparr>))
    i (spawn (state P) m (P\<lparr>threads := (threads P)(sk \<mapsto> Receiving)\<rparr>)) sk rest
    j Q t (wj @ sent_on sk (state P) m)"
proof -
  let ?R = "spawn (state P) m (P\<lparr>threads := (threads P)(sk \<mapsto> Receiving)\<rparr>)"
  have "procs N i = P" using assms(1) by (simp add: snap_def)
  then show ?thesis
    using snap_advance [OF snap_rest [OF assms(1)], of ?R rest] assms(2) by (simp add: socket_turn_def Let_def)
qed

lemma turn_receives:
  assumes "thread_received E sk buf n = Inr m" and "sock_tab m sk = Some so" and "\<not> s_bStop so" and "buf \<noteq> []"
  shows "sock_resume E sk Receiving (Some buf) n = Inr (Some Receiving, m)"
  using assms by (simp add: sock_resume_def sock_loop_def)

lemma snap_arrives:
  assumes "snap N0 N i P sk (buf @ rest) j Q t wj" and "threads P sk = Some Receiving" and "buf \<noteq> []"
    and "thread_received (envs W i) sk buf (state P) = Inr m" and "extends (state P) m"
    and "sock_tab m sk = Some so" and "\<not> s_bStop so"
  shows "\<exists>N'. net_step W N N' \<and> snap N0 N' i (spawn (state P) m P) sk rest j Q t (wj @ sent_on sk (state P) m)"
proof -
  have P: "procs N i = P" and w: "wire N (i, sk) = buf @ rest" using assms(1) by (simp_all add: snap_def)
  have res: "sock_resume (envs W i) sk Receiving (Some buf) (node_of N i) = Inr (Some Receiving, m)"
    using turn_receives [OF assms(4,6,7,3)] P by simp
  have "P\<lparr>threads := (threads P)(sk \<mapsto> Receiving)\<rparr> = P" using assms(2) by (simp add: fun_upd_idem)
  then show ?thesis
    using net_step.arrives [OF _ w assms(3) res] snap_turn [OF assms(1,5), of rest] P assms(2) by auto
qed

section \<open>The handshake in a network\<close>

text \<open>A server waiting for the connections of peers, and the state after one has been accepted and its thread started.\<close>

definition listens :: "network \<Rightarrow> nat \<Rightarrow> addr \<Rightarrow> bool" where
  "listens N j v \<longleftrightarrow> v \<in> accepting (procs N j)
     \<and> (case server_tab (node_of N j) v of None \<Rightarrow> False | Some srv \<Rightarrow>
          srv_on_open srv = AcceptSignaling \<and> \<not> srv_bStop srv \<and> srv_port srv = SIGNALING_PORT (node_of N j))
     \<and> mesh_wf (node_of N j) \<and> chans_live (node_of N j)
     \<and> int32 (my_ID (node_of N j)) \<and> int32 (SIGNALING_PORT (node_of N j))"

definition accepted_sock :: "addr \<Rightarrow> string \<Rightarrow> int \<Rightarrow> socket" where
  "accepted_sock v ip port = TCPSocket_default\<lparr>s_ip := ip, s_port := port, s_isClient := False,
     s_bLinebuffer := True, s_cbRecv := RecvIncoming, s_on_close := CloseAccepted v CloseNone\<rparr>"

definition started_sock :: "addr \<Rightarrow> string \<Rightarrow> int \<Rightarrow> socket" where
  "started_sock v ip port = (accepted_sock v ip port)\<lparr>s_bStop := False, s_semConnected := Suc 0\<rparr>"

definition accepted_conn :: "addr \<Rightarrow> socket \<Rightarrow> node \<Rightarrow> node" where
  "accepted_conn v so n = n\<lparr>next_addr := Suc (next_addr n), sock_tab := (sock_tab n)(next_addr n \<mapsto> so),
     server_tab := (server_tab n)(v \<mapsto> (the (server_tab n v))\<lparr>srv_connections :=
       srv_connections (the (server_tab n v)) @ [next_addr n]\<rparr>)\<rparr>"

lemma listens_accepts:
  assumes "listens N j v" and "n = node_of N j"
  shows "server_resume v (Some (ip, port)) n = Inr (True, accepted_conn v (accepted_sock v ip port) n)"
    and "sock_resume E (next_addr n) Starting None (accepted_conn v (accepted_sock v ip port) n)
      = Inr (Some Receiving, accepted_conn v (started_sock v ip port) n)"
proof -
  obtain srv where srv: "server_tab n v = Some srv" "srv_on_open srv = AcceptSignaling" "\<not> srv_bStop srv"
    using assms by (auto simp: listens_def split: option.splits)
  then show "server_resume v (Some (ip, port)) n = Inr (True, accepted_conn v (accepted_sock v ip port) n)"
    by (simp add: server_resume_def server_accept_def new_TCPSocket_fd_def run_accept_cb_def
        handle_incoming_connection_def accepted_conn_def accepted_sock_def TCPSocket_default_def)
  show "sock_resume E (next_addr n) Starting None (accepted_conn v (accepted_sock v ip port) n)
      = Inr (Some Receiving, accepted_conn v (started_sock v ip port) n)"
    using srv by (simp add: sock_resume_def thread_opened_def run_open_cb_def sock_loop_def
        accepted_conn_def accepted_sock_def started_sock_def TCPSocket_default_def)
qed

lemma accepted_conn_accepted:
  assumes "listens N j v" and "NUL \<notin> set ip" and "NL \<notin> set ip" and "n = node_of N j"
  shows "accepted (accepted_conn v (started_sock v ip port) n) (next_addr n)"
proof -
  obtain srv where srv: "server_tab n v = Some srv" using assms(1,4) by (auto simp: listens_def split: option.splits)
  have wf: "mesh_wf n" "chans_live n" using assms(1,4) by (simp_all add: listens_def)
  have "v < next_addr n" using wf(1) srv by (auto simp: mesh_wf_defs not_le [symmetric])
  then show ?thesis
    using assms wf srv
    by (auto simp: accepted_def listens_def mesh_wf_defs chans_live_def accepted_conn_def started_sock_def
        accepted_sock_def TCPSocket_default_def less_SucI)
qed

text \<open>A connection that has just been made, and a turn that reads nothing.\<close>

lemma snap_joined:
  assumes "i \<noteq> j" and "out (state Q) = out (node_of N j)"
  shows "snap N (joined i sk j t (advance j Q N)) i (procs N i) sk [] j Q t []" (is "snap N ?M _ _ _ _ _ _ _ _")
proof -
  have same: "sent_on s (node_of N k) (node_of ?M k) = []" for s k
    using assms by (simp add: sent_on_def)
  then have none: "sent_to N ?M q = []" for q
    by (simp add: sent_to_def split: option.split prod.split)
  have "sent_on s (node_of N j) (state Q) = []" for s using assms(2) by (simp add: sent_on_def)
  then have wires: "wire (advance j Q N) q = wire N q" for q
    by (simp add: advance_def split: option.split prod.split)
  have "peer ?M q = peer N q \<and> wire ?M q = wire N q @ sent_to N ?M q"
    if "q \<noteq> (i, sk)" "q \<noteq> (j, t)" for q
    unfolding none using that wires [of q] by (simp add: joined_def)
  then have frame: "\<forall>q. q \<noteq> (i, sk) \<longrightarrow> q \<noteq> (j, t) \<longrightarrow>
      peer ?M q = peer N q \<and> wire ?M q = wire N q @ sent_to N ?M q" by blast
  have "procs ?M i = procs N i" "procs ?M j = Q" "\<forall>k. k \<noteq> i \<longrightarrow> k \<noteq> j \<longrightarrow> procs ?M k = procs N k"
      "peer ?M (i, sk) = Some (j, t)" "peer ?M (j, t) = Some (i, sk)" "wire ?M (i, sk) = []" "wire ?M (j, t) = []"
      "extends (node_of N j) (state Q)"
    using assms by (simp_all add: joined_def extends_def)
  with frame assms(1) show ?thesis unfolding snap_def by simp
qed

lemma snap_goes:
  assumes "snap N0 N i P sk wi j Q t wj" and "extends (state P) m"
  shows "snap N0 (socket_turn i sk (Some Receiving) m N)
    i (spawn (state P) m (P\<lparr>threads := (threads P)(sk \<mapsto> Receiving)\<rparr>)) sk wi j Q t (wj @ sent_on sk (state P) m)"
proof -
  have "N\<lparr>wire := (wire N)((i, sk) := wi)\<rparr> = N" using assms(1) by (simp add: snap_def fun_upd_idem)
  with snap_turn [OF assms, of wi] show ?thesis by simp
qed

text \<open>Threads that receive go on receiving.\<close>

definition goes_on :: "process \<Rightarrow> process \<Rightarrow> bool" where
  "goes_on P Q \<longleftrightarrow> accepting P \<subseteq> accepting Q \<and> (\<forall>s. sock_tab (state P) s \<noteq> None \<longrightarrow>
     sock_tab (state Q) s \<noteq> None \<and> (threads P s = Some Receiving \<longrightarrow> threads Q s = Some Receiving))"

lemma goes_on_trans [trans]: "goes_on P Q \<Longrightarrow> goes_on Q R \<Longrightarrow> goes_on P R"
  by (auto simp: goes_on_def)

lemma goes_on_spawn:
  "state P = n \<Longrightarrow> dom (sock_tab n) \<subseteq> dom (sock_tab m) \<Longrightarrow> goes_on P (spawn n m P)"
  "state P = n \<Longrightarrow> dom (sock_tab n) \<subseteq> dom (sock_tab m) \<Longrightarrow>
   goes_on P (spawn n m (P\<lparr>threads := (threads P)(sk \<mapsto> Receiving)\<rparr>))"
  by (auto simp: goes_on_def spawn_def)

lemma spawn_thread [simp]: "sock_tab n s \<noteq> None \<Longrightarrow> threads (spawn n m P) s = threads P s"
  by (auto simp: spawn_def)

text \<open>A dialling thread that reaches a server, up to the point where both threads wait for data.\<close>

lemma connection_made:
  assumes "i \<noteq> j" and "threads (procs N i) sk = Some Dialling" and "peer N (i, sk) = None"
    and "reaches W N i sk j v" and "A = node_of N i" and "n = node_of N j" and "t = next_addr n"
    and fresh: "sock_tab n t = None" and sb: "sock_tab Ba t = Some sb" "\<not> s_isClient sb"
    and acc: "server_resume v (Some (shown W j i, port)) n = Inr (True, Ba)" "out Ba = out n"
      "dom (sock_tab n) \<subseteq> dom (sock_tab Ba)"
    and run: "sock_resume (envs W j) t Starting None Ba = Inr (Some Receiving, B)" "out B = out Ba"
      "dom (sock_tab Ba) \<subseteq> dom (sock_tab B)"
    and opn: "thread_opened sk A = Inr A1" "sock_tab A1 sk = Some so" "\<not> s_bStop so" "extends A A1"
  shows "\<exists>M Q. net_steps W N M
    \<and> snap N M i (spawn A A1 ((procs N i)\<lparr>threads := (threads (procs N i))(sk \<mapsto> Receiving)\<rparr>)) sk []
        j Q t (sent_on sk A A1)
    \<and> state Q = B \<and> threads Q t = Some Receiving \<and> goes_on (procs N j) Q"
proof -
  let ?Qa = "spawn n Ba ((procs N j)\<lparr>accepting := (if True then accepting (procs N j) else accepting (procs N j) - {v})\<rparr>)"
  let ?N1 = "joined i sk j t (advance j ?Qa N)"
  have step1: "net_step W N ?N1"
    unfolding assms(6)
    by (rule net_step.accept [OF assms(2,3,4)]) (use acc(1) in \<open>simp_all add: assms(6,7)\<close>)
  have s1: "snap N ?N1 i (procs N i) sk [] j ?Qa t []"
    by (rule snap_joined [OF assms(1)]) (simp add: acc(2) assms(6))
  have t0: "threads ?Qa t = Some Starting" using fresh sb by (simp add: spawn_def)
  let ?Q = "spawn Ba B (?Qa\<lparr>threads := (threads ?Qa)(t \<mapsto> Receiving)\<rparr>)"
  let ?N2 = "socket_turn j t (Some Receiving) B ?N1"
  have Q0: "procs ?N1 j = ?Qa" "state ?Qa = Ba" using s1 by (simp_all add: snap_def)
  have "sock_resume (envs W j) t Starting None (node_of ?N1 j) = Inr (Some Receiving, B)"
    unfolding Q0 using run(1) .
  from net_step.started [OF _ this] have step2: "net_step W ?N1 ?N2" using t0 Q0 by simp
  have e: "extends Ba B" by (simp add: extends_def run(2))
  have "snap N ?N2 j ?Q t [] i (procs N i) sk ([] @ sent_on t Ba B)"
    using snap_goes [OF snap_sym [OF s1]] e unfolding Q0(2) by blast
  moreover have "sent_on t Ba B = []" by (simp add: sent_on_def run(2))
  ultimately have s2: "snap N ?N2 i (procs N i) sk [] j ?Q t []" by (simp add: snap_sym)
  have A: "procs ?N2 i = procs N i" "peer ?N2 (i, sk) \<noteq> None" using s2 by (simp_all add: snap_def)
  let ?N3 = "socket_turn i sk (Some Receiving) A1 ?N2"
  have "sock_resume (envs W i) sk Dialling (Some []) (node_of ?N2 i) = Inr (Some Receiving, A1)"
    using assms(5) opn A(1) by (simp add: sock_resume_def sock_loop_def)
  from net_step.opened [OF _ A(2) this] have step3: "net_step W ?N2 ?N3" using A(1) assms(2) by simp
  have "snap N ?N3 i (spawn A A1 ((procs N i)\<lparr>threads := (threads (procs N i))(sk \<mapsto> Receiving)\<rparr>)) sk []
      j ?Q t ([] @ sent_on sk A A1)"
    using snap_goes [OF s2, of A1] assms(5) opn(4) by simp
  moreover have "net_steps W N ?N3" using step1 step2 step3 by (meson r_into_rtranclp rtranclp_trans)
  moreover have "goes_on (procs N j) ?Q"
  proof -
    have "goes_on (procs N j) ?Qa" using goes_on_spawn(1) [of "procs N j" n Ba] assms(6) acc(3) by simp
    moreover have "goes_on ?Qa ?Q" using goes_on_spawn(2) [OF Q0(2) run(3), of t] .
    ultimately show ?thesis by (rule goes_on_trans)
  qed
  moreover have "threads ?Q t = Some Receiving" using sb by simp
  ultimately show ?thesis by (intro exI [of _ ?N3] exI [of _ ?Q]) simp
qed

text \<open>Three turns: the far end reads and answers, this end answers that, and the far end reads the first part of it.\<close>

lemma three_turns:
  assumes "snap N0 N i P sk [] j Q t w" and "state P = A" and "state Q = B" and "w \<noteq> []"
    and threads: "threads P sk = Some Receiving" "threads Q t = Some Receiving" "sock_tab A sk \<noteq> None" "sock_tab B t \<noteq> None"
    and first: "thread_received (envs W j) t w B = Inr B1" "extends B B1" "sent_on t B B1 \<noteq> []"
    and second: "thread_received (envs W i) sk (sent_on t B B1) A = Inr A1" "extends A A1"
      "sent_on sk A A1 = v @ rest" "v \<noteq> []"
    and third: "thread_received (envs W j) t v B1 = Inr B2" "extends B1 B2"
    and runs: "sock_tab B1 t = Some so" "sock_tab B2 t = Some so" "\<not> s_bStop so" "sock_tab A1 sk = Some so'" "\<not> s_bStop so'"
  shows "\<exists>M. net_steps W N M
    \<and> snap N0 M i (spawn A A1 P) sk (sent_on t B1 B2) j (spawn B1 B2 (spawn B B1 Q)) t rest"
proof -
  let ?Q1 = "spawn B B1 Q" and ?P1 = "spawn A A1 P"
  obtain M1 where M1: "net_step W N M1" "snap N0 M1 j ?Q1 t [] i P sk ([] @ sent_on t B B1)"
    using snap_arrives [of N0 N j Q t w "[]" i P sk "[]" W B1 so] snap_sym [OF assms(1)] assms(3,4) threads(2) first runs
    by auto
  obtain M2 where M2: "net_step W M1 M2" "snap N0 M2 i ?P1 sk [] j ?Q1 t ([] @ sent_on sk A A1)"
    using snap_arrives [of N0 M1 i P sk "sent_on t B B1" "[]" j ?Q1 t "[]" W A1 so'] snap_sym [OF M1(2)] assms(2) threads(1)
      first(3) second runs by auto
  have Q1: "state ?Q1 = B1" "threads ?Q1 t = Some Receiving" using threads by simp_all
  obtain M3 where M3: "net_step W M2 M3"
      "snap N0 M3 j (spawn B1 B2 ?Q1) t rest i ?P1 sk ([] @ sent_on t B1 B2)"
    using snap_arrives [of N0 M2 j ?Q1 t v rest i ?P1 sk "[]" W B2 so] snap_sym [OF M2(2)] Q1 second(3,4) third runs by auto
  have "net_steps W N M3" using M1(1) M2(1) M3(1) by (meson r_into_rtranclp rtranclp_trans)
  then show ?thesis using snap_sym [OF M3(2)] by auto
qed

text \<open>The server of the mesh.\<close>

lemma connect_run:
  assumes "i \<noteq> j" and "threads (procs N i) sk = Some Dialling" and "peer N (i, sk) = None"
    and "reaches W N i sk j v" and "listens N j v"
    and "A = node_of N i" and "n = node_of N j" and "B = accepted_conn v (started_sock v (shown W j i) port) n"
    and "thread_opened sk A = Inr A1" and "sock_tab A1 sk = Some so" and "\<not> s_bStop so" and "extends A A1"
  shows "\<exists>M Q. net_steps W N M
    \<and> snap N M i (spawn A A1 ((procs N i)\<lparr>threads := (threads (procs N i))(sk \<mapsto> Receiving)\<rparr>)) sk []
        j Q (next_addr n) (sent_on sk A A1)
    \<and> state Q = B \<and> threads Q (next_addr n) = Some Receiving \<and> goes_on (procs N j) Q"
proof -
  let ?t = "next_addr n" and ?Ba = "accepted_conn v (accepted_sock v (shown W j i) port) n"
  have fresh: "sock_tab n ?t = None" using assms(5,7) by (simp add: listens_def)
  have sb: "sock_tab ?Ba ?t = Some (accepted_sock v (shown W j i) port)" "\<not> s_isClient (accepted_sock v (shown W j i) port)"
    by (simp_all add: accepted_conn_def accepted_sock_def)
  have same: "out ?Ba = out n" "dom (sock_tab n) \<subseteq> dom (sock_tab ?Ba)" "out B = out ?Ba"
      "dom (sock_tab ?Ba) \<subseteq> dom (sock_tab B)"
    by (auto simp: assms(8) accepted_conn_def)
  have run: "sock_resume (envs W j) ?t Starting None ?Ba = Inr (Some Receiving, B)"
    unfolding assms(8) by (rule listens_accepts(2) [OF assms(5,7)])
  show ?thesis
    by (rule connection_made [OF assms(1-4,6,7) refl fresh sb listens_accepts(1) [OF assms(5,7)] same(1,2) run
          same(3,4) assms(9-12)])
qed

text \<open>
  Both sides then complete the handshake. What is left on the way are the announcements and the
  host list each sends when its peer has become ready.
\<close>

lemma handshake_outputs:
  assumes "A1 = client_opened h sk A" and "B1 = server_greeted t p ip B"
    and "A2 = now_ready h (client_told h i q ip' sk A1)" and "B2 = now_ready g B1"
  shows "extends A A1" "extends A1 (said os A2)" "extends B B1" "extends B1 (said os B2)"
    "sent_on sk A A1 \<noteq> []" "sent_on t B B1 \<noteq> []"
    "sent_on sk A1 (said os A2) = frame ''CONNECTED'' @ sent_bytes sk os"
    "sent_on t B1 (said os B2) = sent_bytes t os"
    "dom (sock_tab A) \<subseteq> dom (sock_tab A1)" "sock_tab (said os A2) = sock_tab A1"
    "dom (sock_tab B) \<subseteq> dom (sock_tab B1)" "sock_tab (said os B2) = sock_tab B1"
  by (simp_all add: assms extends_def sent_on_def client_opened_def server_greeted_def client_told_def
      now_ready_def welcome_sends_def Let_def subset_insertI)

lemma network_handshake:
  assumes ij: "i \<noteq> j" and dial: "threads (procs N i) sk = Some Dialling" "peer N (i, sk) = None"
      "reaches W N i sk j v" "listens N j v"
    and A: "dialled A h sk" "sock_tab A sk = Some soA" "A = node_of N i"
    and n: "n = node_of N j" "t = next_addr n" "B = accepted_conn v (started_sock v (shown W j i) port) n"
    and ip: "NUL \<notin> set (shown W j i)" "NL \<notin> set (shown W j i)"
    and new: "mesh_find n (localize (shown W j i), SIGNALING_PORT A) = None"
    and defs: "A1 = client_opened h sk A"
      "B1 = server_greeted t (SIGNALING_PORT A) (localize (s_ip soA)) B"
      "A2 = now_ready h (client_told h (my_ID n) (SIGNALING_PORT n) (localize (shown W j i)) sk A1)"
      "B2 = now_ready (next_addr B) B1"
  shows "\<exists>M P Q osA osB. net_steps W N M
    \<and> snap N M i P sk (sent_bytes t (osB @ broadcast_sends B2 (host_list B2)))
        j Q t (sent_bytes sk (osA @ broadcast_sends A2 (host_list A2)))
    \<and> state P = said (osA @ broadcast_sends A2 (host_list A2)) A2 \<and> (quiet A \<longrightarrow> osA = [])
    \<and> state Q = said (osB @ broadcast_sends B2 (host_list B2)) B2 \<and> (quiet n \<longrightarrow> osB = [])
    \<and> goes_on (procs N i) P \<and> goes_on (procs N j) Q
    \<and> threads P sk = Some Receiving \<and> threads Q t = Some Receiving
    \<and> linked A2 h sk \<and> linked B2 (next_addr B) t"
proof -
  have acc: "accepted B t" unfolding n by (rule accepted_conn_accepted [OF dial(4) ip refl])
  have soB: "sock_tab B t = Some (started_sock v (shown W j i) port)" by (simp add: n accepted_conn_def)
  have ipB: "s_ip (started_sock v (shown W j i) port) = shown W j i"
    by (simp add: started_sock_def accepted_sock_def)
  have same: "my_ID B = my_ID n" "SIGNALING_PORT B = SIGNALING_PORT n" "hosts B = hosts n" "host_tab B = host_tab n"
      "chan_tab B = chan_tab n"
    by (simp_all add: n accepted_conn_def)
  have find: "mesh_find B key = mesh_find n key" for key
    using same by (simp add: mesh_find_def host_matches_def [abs_def])
  have quiet: "quiet B = quiet n" using same by (simp add: quiet_def)
  note run = handshake_run [OF A(1) acc A(2) soB, unfolded ipB find same, OF new defs(1,2,3,4)]
  have linkA: "linked A2 h sk" and linkB: "linked B2 (next_addr B) t" using run(6,7) .
  note outs = handshake_outputs [OF defs]
  obtain so where so: "sock_tab A1 sk = Some so" "\<not> s_bStop so"
    using linkA outs(10) [of "[]"] by (auto elim: linkedE)
  obtain so' where so': "sock_tab B1 t = Some so'" "\<not> s_bStop so'"
    using linkB outs(12) [of "[]"] by (auto elim: linkedE)
  obtain M1 Q1 where M1: "net_steps W N M1"
      "snap N M1 i (spawn A A1 ((procs N i)\<lparr>threads := (threads (procs N i))(sk \<mapsto> Receiving)\<rparr>)) sk []
        j Q1 t (sent_on sk A A1)" (is "snap N M1 i ?P1 sk _ j Q1 t _")
      "state Q1 = B" "threads Q1 t = Some Receiving" "goes_on (procs N j) Q1"
    using connect_run [OF ij dial A(3) n(1,3) run(1) so outs(1)] n(2) by blast
  obtain osA where osA: "thread_received (envs W i) sk (sent_on t B B1) A1
      = Inr (said (osA @ broadcast_sends A2 (host_list A2)) A2)" "quiet A \<longrightarrow> osA = []"
    using run(3) [of "envs W i"] by blast
  obtain osB where osB: "thread_received (envs W j) t (frame ''CONNECTED'') B1
      = Inr (said (osB @ broadcast_sends B2 (host_list B2)) B2)" "quiet n \<longrightarrow> osB = []"
    using run(4) [of "envs W j"] quiet by blast
  let ?oA = "osA @ broadcast_sends A2 (host_list A2)" and ?oB = "osB @ broadcast_sends B2 (host_list B2)"
  let ?P2 = "spawn A1 (said ?oA A2) ?P1" and ?Qz = "spawn B1 (said ?oB B2) (spawn B B1 Q1)"
  have P1: "state ?P1 = A1" "threads ?P1 sk = Some Receiving" using A(2) by simp_all
  have here: "sock_tab A1 sk \<noteq> None" "sock_tab B t \<noteq> None" "frame ''CONNECTED'' \<noteq> []" using so soB by simp_all
  have stay: "sock_tab (said ?oA A2) sk = Some so" "sock_tab (said ?oB B2) t = Some so'"
    using so so' outs(10) outs(12) by simp_all
  obtain M4 where M4: "net_steps W M1 M4" "snap N M4 i ?P2 sk (sent_on t B1 (said ?oB B2)) j ?Qz t (sent_bytes sk ?oA)"
    using three_turns [OF M1(2) P1(1) M1(3) outs(5) P1(2) M1(4) here(1,2) run(2) outs(3,6) osA(1) outs(2) outs(7) here(3)
        osB(1) outs(4) so'(1) stay(2) so'(2) stay(1) so(2)] by blast
  have "net_steps W N M4" using M1(1) M4(1) by (rule rtranclp_trans)
  moreover have "snap N M4 i ?P2 sk (sent_bytes t ?oB) j ?Qz t (sent_bytes sk ?oA)"
    using M4(2) outs(8) [of ?oB] by simp
  moreover have "goes_on (procs N i) ?P2"
    by (rule goes_on_trans [OF goes_on_spawn(2) goes_on_spawn(1)]) (use outs A(3) in simp_all)
  moreover have "goes_on (procs N j) ?Qz"
    by (rule goes_on_trans [OF M1(5) goes_on_trans [OF goes_on_spawn(1) goes_on_spawn(1)]])
      (use outs M1(3) in simp_all)
  moreover have "threads ?P2 sk = Some Receiving" "threads ?Qz t = Some Receiving"
    using P1 M1(4) here so so' by simp_all
  ultimately show ?thesis using osA(2) osB(2) linkA linkB
    by (intro exI [of _ M4] exI [of _ ?P2] exI [of _ ?Qz] exI [of _ osA] exI [of _ osB]) simp
qed

text \<open>Two ready hosts at the ends of one connection, whose threads wait for data.\<close>

definition linked_up :: "network \<Rightarrow> nat \<Rightarrow> addr \<Rightarrow> addr \<Rightarrow> nat \<Rightarrow> addr \<Rightarrow> addr \<Rightarrow> bool" where
  "linked_up N i h sk j g t \<longleftrightarrow> peer N (i, sk) = Some (j, t) \<and> peer N (j, t) = Some (i, sk)
     \<and> threads (procs N i) sk = Some Receiving \<and> threads (procs N j) t = Some Receiving
     \<and> linked (node_of N i) h sk \<and> linked (node_of N j) g t
     \<and> h \<in> set (tl (hosts (node_of N i))) \<and> g \<in> set (tl (hosts (node_of N j)))"

lemma said_key [simp]: "host_key (said os n) = host_key n"
  by (simp add: host_key_def fun_eq_iff)

lemma client_result:
  assumes "dialled A h sk" and "A1 = client_opened h sk A" and "A2 = now_ready h (client_told h i p ip sk A1)"
  shows "hosts A2 = hosts A" "host_key A2 h = map_option (\<lambda>(x, y). (x, p)) (host_key A h)"
    "host_key A2 (hd (hosts A)) = map_option (\<lambda>(x, y). (ip, y)) (host_key A (hd (hosts A)))"
    "x \<noteq> h \<Longrightarrow> x \<noteq> hd (hosts A) \<Longrightarrow> host_tab A2 x = host_tab A x"
    "x \<noteq> sk \<Longrightarrow> sock_tab A2 x = sock_tab A x"
proof -
  obtain k where k: "host_tab A h = Some k" using assms(1) by (auto simp: dialled_def split: option.splits)
  have wf: "mesh_wf A" "h \<in> set (tl (hosts A))" using assms(1) by (simp_all add: dialled_def)
  then have me: "hd (hosts A) \<noteq> h" "hosts A \<noteq> []" by (cases "hosts A"; auto simp: mesh_wf_def)+
  obtain mk where mk: "host_tab A (hd (hosts A)) = Some mk" using mesh_wf_live [OF wf(1), of "hd (hosts A)"] me by auto
  show "hosts A2 = hosts A" "host_key A2 h = map_option (\<lambda>(x, y). (x, p)) (host_key A h)"
    "host_key A2 (hd (hosts A)) = map_option (\<lambda>(x, y). (ip, y)) (host_key A (hd (hosts A)))"
    "x \<noteq> h \<Longrightarrow> x \<noteq> hd (hosts A) \<Longrightarrow> host_tab A2 x = host_tab A x"
    "x \<noteq> sk \<Longrightarrow> sock_tab A2 x = sock_tab A x"
    using k me mk
    by (simp_all add: assms(2,3) now_ready_def client_told_def client_opened_def Let_def host_key_def)
qed

lemma server_result:
  assumes "mesh_wf n" and "B = accepted_conn v so n" and "t = next_addr n"
    and "B2 = now_ready (next_addr B) (server_greeted t p ip B)"
  shows "hosts B2 = hosts n @ [next_addr B]" "host_key B2 (next_addr B) = Some (localize (s_ip so), p)"
    "host_key B2 (hd (hosts n)) = map_option (\<lambda>(x, y). (ip, y)) (host_key n (hd (hosts n)))"
    "x \<noteq> next_addr B \<Longrightarrow> x \<noteq> hd (hosts n) \<Longrightarrow> host_tab B2 x = host_tab n x"
    "x \<noteq> t \<Longrightarrow> sock_tab B2 x = sock_tab n x"
proof -
  have ne: "hosts n \<noteq> []" using assms(1) by (simp add: mesh_wf_def)
  then obtain mk where mk: "host_tab n (hd (hosts n)) = Some mk" using mesh_wf_live [OF assms(1), of "hd (hosts n)"] by auto
  then have "hd (hosts n) < next_addr n" using assms(1) by (auto simp: mesh_wf_defs not_le [symmetric])
  then show "hosts B2 = hosts n @ [next_addr B]" "host_key B2 (next_addr B) = Some (localize (s_ip so), p)"
    "host_key B2 (hd (hosts n)) = map_option (\<lambda>(x, y). (ip, y)) (host_key n (hd (hosts n)))"
    "x \<noteq> next_addr B \<Longrightarrow> x \<noteq> hd (hosts n) \<Longrightarrow> host_tab B2 x = host_tab n x"
    "x \<noteq> t \<Longrightarrow> sock_tab B2 x = sock_tab n x"
    using mk
    by (simp_all add: assms(2-4) now_ready_def server_greeted_def accepted_conn_def accepted_host_def
        Let_def host_key_def)
qed

text \<open>Established links: both sides of a handshake keep those they have.\<close>

definition holds_link :: "process \<Rightarrow> addr \<Rightarrow> addr \<Rightarrow> bool" where
  "holds_link P h s \<longleftrightarrow> linked (state P) h s \<and> h \<in> set (tl (hosts (state P))) \<and> threads P s = Some Receiving"

lemma linked_up_holds:
  "linked_up N i h sk j g t \<longleftrightarrow> peer N (i, sk) = Some (j, t) \<and> peer N (j, t) = Some (i, sk)
     \<and> holds_link (procs N i) h sk \<and> holds_link (procs N j) g t"
  by (auto simp: linked_up_def holds_link_def)

lemma holds_linkI:
  assumes "holds_link P h s" and "goes_on P Q" and "host_tab (state Q) h = host_tab (state P) h"
    and "sock_tab (state Q) s = sock_tab (state P) s" and "hosts (state Q) = hosts (state P) @ hs"
  shows "holds_link Q h s"
proof -
  have "linked (state Q) h s = linked (state P) h s" by (simp only: linked_def assms(3,4))
  moreover have "threads Q s = Some Receiving"
    using assms(1,2) by (auto simp: holds_link_def goes_on_def elim: linkedE)
  moreover have "set (tl (hosts (state P))) \<subseteq> set (tl (hosts (state Q)))"
    using assms(5) by (cases "hosts (state P)") simp_all
  ultimately show ?thesis using assms(1) by (auto simp: holds_link_def)
qed

lemma client_holds_links:
  assumes "dialled (state P) h sk" and "threads P sk = Some Dialling" and "goes_on P Q"
    and "state Q = said os (now_ready h (client_told h i p ip sk (client_opened h sk (state P))))"
    and "holds_link P x s"
  shows "holds_link Q x s"
proof -
  have wf: "mesh_wf (state P)" using assms(1) by (simp add: dialled_def)
  have s: "s \<noteq> sk" using assms(2,5) by (auto simp: holds_link_def)
  then have "x \<noteq> h" using assms(1,5) by (auto simp: dialled_def holds_link_def linked_def split: option.splits)
  moreover have "x \<noteq> hd (hosts (state P))"
    using assms(5) wf by (cases "hosts (state P)") (auto simp: holds_link_def mesh_wf_def)
  ultimately show ?thesis
    using client_result [OF assms(1) refl refl] s
    by (intro holds_linkI [OF assms(5,3), of "[]"]) (simp_all add: assms(4))
qed

lemma server_holds_links:
  assumes "mesh_wf (state P)" and "goes_on P Q" and "B = accepted_conn v so (state P)"
    and "state Q = said os (now_ready (next_addr B) (server_greeted (next_addr (state P)) p ip B))"
    and "holds_link P x s"
  shows "holds_link Q x s"
proof -
  have live: "host_tab (state P) x \<noteq> None" "sock_tab (state P) s \<noteq> None"
    using assms(5) by (auto simp: holds_link_def linked_def split: option.splits)
  then have "s \<noteq> next_addr (state P)" "x < next_addr (state P)"
    using assms(1) by (auto simp: mesh_wf_defs not_le [symmetric])
  moreover have "x \<noteq> hd (hosts (state P))"
    using assms(5,1) by (cases "hosts (state P)") (auto simp: holds_link_def mesh_wf_def)
  moreover have "next_addr B = Suc (next_addr (state P))" by (simp add: assms(3) accepted_conn_def)
  ultimately show ?thesis
    using server_result [OF assms(1,3) refl refl]
    by (intro holds_linkI [OF assms(5,2), of "[next_addr B]"]) (simp_all add: assms(4))
qed

lemma snap_keeps_links:
  assumes "snap N M i P sk wi j Q t wj"
    and "\<And>x s. holds_link (procs N i) x s \<Longrightarrow> holds_link P x s"
    and "\<And>x s. holds_link (procs N j) x s \<Longrightarrow> holds_link Q x s"
    and "peer N (i, sk) = Some (j, t) \<and> peer N (j, t) = Some (i, sk)
      \<or> (\<forall>x. \<not> holds_link (procs N i) x sk \<and> \<not> holds_link (procs N j) x t)"
    and "linked_up N k x s l y u"
  shows "linked_up M k x s l y u"
proof -
  have holds: "holds_link (procs M r) z v" if "holds_link (procs N r) z v" for r z v
    using that assms(1-3) unfolding snap_def by metis
  have "peer M (r, v) = peer N (r, v)" if "holds_link (procs N r) z v" for r z v
  proof (cases "(r, v) = (i, sk) \<or> (r, v) = (j, t)")
    case True
    then show ?thesis using assms(1,4) that by (auto simp: snap_def)
  next
    case False
    then have "(r, v) \<noteq> (i, sk)" "(r, v) \<noteq> (j, t)" by blast+
    from snap_frame [OF assms(1) this] show ?thesis by (rule conjunct1)
  qed
  moreover have up: "peer N (k, s) = Some (l, u)" "peer N (l, u) = Some (k, s)"
      "holds_link (procs N k) x s" "holds_link (procs N l) y u"
    using assms(5) by (simp_all add: linked_up_holds)
  ultimately have "peer M (k, s) = Some (l, u)" "peer M (l, u) = Some (k, s)" by simp_all
  then show ?thesis using holds [OF up(3)] holds [OF up(4)] by (simp add: linked_up_holds)
qed

text \<open>Process \<open>i\<close> dials, and what it dials is a listening process \<open>j\<close> that does not know it yet.\<close>

definition dials :: "world \<Rightarrow> network \<Rightarrow> nat \<Rightarrow> addr \<Rightarrow> addr \<Rightarrow> nat \<Rightarrow> addr \<Rightarrow> bool" where
  "dials W N i h sk j v \<longleftrightarrow> i \<noteq> j \<and> threads (procs N i) sk = Some Dialling \<and> peer N (i, sk) = None
     \<and> reaches W N i sk j v \<and> listens N j v \<and> dialled (node_of N i) h sk
     \<and> NUL \<notin> set (shown W j i) \<and> NL \<notin> set (shown W j i)
     \<and> mesh_find (node_of N j) (localize (shown W j i), SIGNALING_PORT (node_of N i)) = None"

lemma dials_run:
  assumes "dials W N i h sk j v" and "A = node_of N i" and "n = node_of N j" and "t = next_addr n"
    and "sock_tab A sk = Some soA" and "B = accepted_conn v (started_sock v (shown W j i) 0) n"
    and "A2 = now_ready h (client_told h (my_ID n) (SIGNALING_PORT n) (localize (shown W j i)) sk (client_opened h sk A))"
    and "B2 = now_ready (next_addr B) (server_greeted t (SIGNALING_PORT A) (localize (s_ip soA)) B)"
  shows "\<exists>M P Q osA osB. net_steps W N M
    \<and> snap N M i P sk (sent_bytes t (osB @ broadcast_sends B2 (host_list B2)))
        j Q t (sent_bytes sk (osA @ broadcast_sends A2 (host_list A2)))
    \<and> state P = said (osA @ broadcast_sends A2 (host_list A2)) A2 \<and> (quiet A \<longrightarrow> osA = [])
    \<and> state Q = said (osB @ broadcast_sends B2 (host_list B2)) B2 \<and> (quiet n \<longrightarrow> osB = [])
    \<and> goes_on (procs N i) P \<and> goes_on (procs N j) Q
    \<and> linked_up M i h sk j (next_addr B) t
    \<and> (\<forall>k x s l y u. linked_up N k x s l y u \<longrightarrow> linked_up M k x s l y u)"
proof -
  have d: "i \<noteq> j" "threads (procs N i) sk = Some Dialling" "peer N (i, sk) = None" "reaches W N i sk j v"
      "listens N j v" "dialled A h sk" "NUL \<notin> set (shown W j i)" "NL \<notin> set (shown W j i)"
      "mesh_find n (localize (shown W j i), SIGNALING_PORT A) = None"
    using assms(1-3) by (simp_all add: dials_def)
  obtain M P Q osA osB where M: "net_steps W N M"
      "snap N M i P sk (sent_bytes t (osB @ broadcast_sends B2 (host_list B2)))
        j Q t (sent_bytes sk (osA @ broadcast_sends A2 (host_list A2)))"
      "state P = said (osA @ broadcast_sends A2 (host_list A2)) A2" "quiet A \<longrightarrow> osA = []"
      "state Q = said (osB @ broadcast_sends B2 (host_list B2)) B2" "quiet n \<longrightarrow> osB = []"
      "goes_on (procs N i) P" "goes_on (procs N j) Q"
      "threads P sk = Some Receiving" "threads Q t = Some Receiving" "linked A2 h sk" "linked B2 (next_addr B) t"
    using network_handshake [OF d(1-6) assms(5,2,3,4,6) d(7-9) refl refl assms(7,8)]
    by (elim exE conjE) (rule that)
  have wf: "mesh_wf n" "h \<in> set (tl (hosts A))" using d(5,6) assms(3) by (simp_all add: listens_def dialled_def)
  have "next_addr B \<in> set (tl (hosts B2))"
    using wf(1) server_result(1) [OF wf(1) assms(6,4,8)] by (cases "hosts n") (simp_all add: mesh_wf_def)
  then have "linked_up M i h sk j (next_addr B) t"
    using M wf(2) client_result(1) [OF d(6) refl assms(7)] by (simp add: linked_up_def snap_def)
  moreover have "linked_up M k x s l y u" if "linked_up N k x s l y u" for k x s l y u
  proof (rule snap_keeps_links [OF M(2) _ _ _ that])
    show "holds_link P x s" if "holds_link (procs N i) x s" for x s
      using client_holds_links [OF _ d(2) M(7) _ that] d(6) assms(2,7) M(3) by simp
    show "holds_link Q x s" if "holds_link (procs N j) x s" for x s
      using server_holds_links [OF _ M(8) _ _ that] wf(1) assms(3,4,6,8) M(5) by simp
    have "\<not> holds_link (procs N i) x sk" for x using d(2) by (simp add: holds_link_def)
    moreover have "\<not> holds_link (procs N j) x t" for x
      using wf(1) assms(3,4) by (auto simp: holds_link_def elim: linkedE)
    ultimately show "peer N (i, sk) = Some (j, t) \<and> peer N (j, t) = Some (i, sk)
      \<or> (\<forall>x. \<not> holds_link (procs N i) x sk \<and> \<not> holds_link (procs N j) x t)" by blast
  qed
  ultimately show ?thesis using M(1-8) by blast
qed

lemma dials_links:
  assumes "dials W N i h sk j v"
  shows "\<exists>M g t. net_steps W N M \<and> linked_up M i h sk j g t
    \<and> map_option snd (host_key (node_of M i) h) = Some (SIGNALING_PORT (node_of N j))
    \<and> host_key (node_of M j) g = Some (localize (shown W j i), SIGNALING_PORT (node_of N i))
    \<and> (\<forall>k x s l y u. linked_up N k x s l y u \<longrightarrow> linked_up M k x s l y u)
    \<and> (\<forall>k. k \<noteq> i \<longrightarrow> k \<noteq> j \<longrightarrow> procs M k = procs N k)"
proof -
  let ?A = "node_of N i" and ?n = "node_of N j"
  have dialled: "dialled ?A h sk" "mesh_wf ?n" using assms by (simp_all add: dials_def listens_def)
  obtain soA k where so: "sock_tab ?A sk = Some soA" and k: "host_tab ?A h = Some k"
    using dialled(1) by (auto simp: dialled_def split: option.splits)
  let ?B = "accepted_conn v (started_sock v (shown W j i) 0) ?n"
  let ?A2 = "now_ready h (client_told h (my_ID ?n) (SIGNALING_PORT ?n) (localize (shown W j i)) sk
      (client_opened h sk ?A))"
  let ?B2 = "now_ready (next_addr ?B) (server_greeted (next_addr ?n) (SIGNALING_PORT ?A) (localize (s_ip soA)) ?B)"
  obtain M P Q osA osB where M: "net_steps W N M"
      "snap N M i P sk (sent_bytes (next_addr ?n) (osB @ broadcast_sends ?B2 (host_list ?B2)))
        j Q (next_addr ?n) (sent_bytes sk (osA @ broadcast_sends ?A2 (host_list ?A2)))"
      "state P = said (osA @ broadcast_sends ?A2 (host_list ?A2)) ?A2"
      "state Q = said (osB @ broadcast_sends ?B2 (host_list ?B2)) ?B2"
      "linked_up M i h sk j (next_addr ?B) (next_addr ?n)"
      "\<forall>k x s l y u. linked_up N k x s l y u \<longrightarrow> linked_up M k x s l y u"
    using dials_run [OF assms refl refl refl so refl refl refl] by (elim exE conjE) (rule that)
  have node: "node_of M i = state P" "node_of M j = state Q" using M(2) by (simp_all add: snap_def)
  have "map_option snd (host_key (node_of M i) h) = Some (SIGNALING_PORT ?n)"
    unfolding node M(3) said_key client_result(2) [OF dialled(1) refl refl] using k by (simp add: host_key_def)
  moreover have "host_key (node_of M j) (next_addr ?B) = Some (localize (shown W j i), SIGNALING_PORT ?A)"
    unfolding node M(4) said_key server_result(2) [OF dialled(2) refl refl refl]
    by (simp add: started_sock_def accepted_sock_def)
  moreover have "\<forall>k. k \<noteq> i \<longrightarrow> k \<noteq> j \<longrightarrow> procs M k = procs N k" using M(2) by (simp add: snap_def)
  ultimately show ?thesis using M(1,5,6) by blast
qed

text \<open>
  C11: in any network, a connection that is being dialled and whose address is that of a listening
  process can be brought to a pair of ready hosts at both ends, whatever the other processes and
  connections are doing, without any step of theirs and with every established link kept: the
  dialling side then knows the signaling port of its peer, the other side the address it sees the
  caller under and the caller's signaling port.
\<close>

theorem net_handshake:
  assumes "dials W N i h sk j v"
  shows "\<exists>M g t. net_steps W N M \<and> linked_up M i h sk j g t
    \<and> map_option snd (host_key (node_of M i) h) = Some (SIGNALING_PORT (node_of N j))
    \<and> host_key (node_of M j) g = Some (localize (shown W j i), SIGNALING_PORT (node_of N i))
    \<and> (\<forall>k x s l y u. linked_up N k x s l y u \<longrightarrow> linked_up M k x s l y u)
    \<and> (\<forall>k. k \<noteq> i \<longrightarrow> k \<noteq> j \<longrightarrow> procs M k = procs N k)"
  using dials_links [OF assms] .

end
