(* ===== verification/Mesh_Growth.thy ===== *)
theory Mesh_Growth
  imports Network
begin

text \<open>
  How the mesh of a network grows: a process that joins one member of it is introduced to the
  others. The member it has joined sends its peers the new list of its hosts, each peer that reads the
  list dials the newcomer, and their handshake gives them a connection of their own; the newcomer stays
  as welcoming as before, so this goes on, peer by peer, until it is linked with all of them.
\<close>

section \<open>What a broadcast puts on a link\<close>

lemma broadcast_on_link:
  "linked n h s \<Longrightarrow> h \<in> set (tl (hosts n)) \<Longrightarrow> \<exists>rest. sent_bytes s (broadcast_sends n msg) = frame msg @ rest"
  using broadcast_frames [of n h s msg] by auto

section \<open>Dialling the hosts of a list\<close>

text \<open>What adding hosts leaves as it was.\<close>

definition adds :: "node \<Rightarrow> node \<Rightarrow> bool" where
  "adds n m \<longleftrightarrow> (\<exists>hs. hosts m = hosts n @ hs)
     \<and> (\<forall>a. host_tab n a \<noteq> None \<longrightarrow> host_tab m a = host_tab n a)
     \<and> (\<forall>a. sock_tab n a \<noteq> None \<longrightarrow> sock_tab m a = sock_tab n a)
     \<and> my_ID m = my_ID n \<and> SIGNALING_PORT m = SIGNALING_PORT n \<and> extends n m"

lemma adds_refl [simp]: "adds n n"
  by (simp add: adds_def)

lemma adds_trans:
  assumes "adds n m" and "adds m u"
  shows "adds n u"
  unfolding adds_def
proof (intro conjI allI impI)
  show "\<exists>hs. hosts u = hosts n @ hs" using assms by (auto simp: adds_def)
  show "host_tab u a = host_tab n a" if "host_tab n a \<noteq> None" for a
    using assms that by (simp add: adds_def)
  show "sock_tab u a = sock_tab n a" if "sock_tab n a \<noteq> None" for a
    using assms that by (simp add: adds_def)
  show "extends n u" using assms by (auto simp: adds_def intro: extends_trans)
qed (use assms in \<open>simp_all add: adds_def\<close>)

lemma add_host_key_adds:
  assumes "mesh_wf n" and "add_host_key E key n = Inr m"
  shows "adds n m"
proof (cases "mesh_find n key")
  case None
  from add_host_key_pushes [OF assms(1) this assms(2)] assms(1) show ?thesis
    by (auto simp: adds_def extends_def)
next
  case (Some a)
  then have "m = n" using mesh_registry.add_present [OF assms(1), of key E] assms(2) by simp
  then show ?thesis by simp
qed

lemma add_hosts_adds: "mesh_wf n \<Longrightarrow> foldE (add_host_key E) keys n = Inr m \<Longrightarrow> adds n m"
proof (induction keys arbitrary: n)
  case (Cons key keys)
  then obtain u where u: "add_host_key E key n = Inr u" "foldE (add_host_key E) keys u = Inr m" by auto
  show ?case
    using adds_trans [OF add_host_key_adds [OF Cons.prems(1) u(1)]]
      Cons.IH [OF mesh_registry.add_inv [OF Cons.prems(1) u(1)] u(2)] by blast
qed simp

text \<open>An address of the list that was not known is dialled, with a new socket.\<close>

lemma add_hosts_dials:
  assumes "mesh_wf n" and "foldE (add_host_key E) keys n = Inr m" and "key \<in> set keys"
    and "mesh_find n key = None"
  shows "\<exists>h s. h \<in> set (tl (hosts m)) \<and> host_tab m h = Some (connecting_host (fst key) (snd key) s)
    \<and> sock_tab m s = Some (connecting_sock (fst key) (snd key) h) \<and> sock_tab n s = None"
  using assms
proof (induction keys arbitrary: n)
  case (Cons k keys)
  then obtain u where u: "add_host_key E k n = Inr u" "foldE (add_host_key E) keys u = Inr m" by auto
  have wf: "mesh_wf u" using Cons.prems(1) u(1) by (rule mesh_registry.add_inv)
  show ?case
  proof (cases "k = key")
    case True
    note push = add_host_key_pushes [OF Cons.prems(1,4) u(1) [unfolded True]]
    have adds: "adds u m" using wf u(2) by (rule add_hosts_adds)
    have "hosts n \<noteq> []" using Cons.prems(1) by (simp add: mesh_wf_def)
    then have "next_addr n \<in> set (tl (hosts m))" using adds unfolding push by (auto simp: adds_def)
    moreover have "host_tab m (next_addr n) = Some (connecting_host (fst key) (snd key) (Suc (next_addr n)))"
        "sock_tab m (Suc (next_addr n)) = Some (connecting_sock (fst key) (snd key) (next_addr n))"
      using adds unfolding push by (simp_all add: adds_def)
    moreover have "sock_tab n (Suc (next_addr n)) = None" using Cons.prems(1) by simp
    ultimately show ?thesis by blast
  next
    case False
    then have "mesh_find u key = None"
      using mesh_registry.add_other [OF Cons.prems(1) u(1), of key] Cons.prems(4) by simp
    moreover have "key \<in> set keys" using Cons.prems(3) False by simp
    ultimately obtain h s where *: "h \<in> set (tl (hosts m))" "host_tab m h = Some (connecting_host (fst key) (snd key) s)"
        "sock_tab m s = Some (connecting_sock (fst key) (snd key) h)" "sock_tab u s = None"
      using Cons.IH [OF wf u(2)] by blast
    have "sock_tab n s = None"
      using *(4) add_host_key_adds [OF Cons.prems(1) u(1)] by (cases "sock_tab n s") (auto simp: adds_def)
    with * show ?thesis by blast
  qed
qed simp

section \<open>Reading the list\<close>

text \<open>A list of known addresses changes nothing.\<close>

lemma add_known_hosts:
  "mesh_wf n \<Longrightarrow> \<forall>key\<in>set keys. mesh_find n key \<noteq> None \<Longrightarrow> foldE (add_host_key E) keys n = Inr n"
  by (rule foldE_skip) (simp add: mesh_registry.add_present)

lemma spawn_same:
  assumes "state P = n" and "dom (threads P) \<subseteq> dom (sock_tab n)"
  shows "spawn n n P = P"
proof -
  have "threads P s = None" if "sock_tab n s = None" for s using assms(2) that by (auto simp: dom_def)
  then have "(\<lambda>s. if sock_tab n s = None then map_option (\<lambda>so. if s_isClient so then Dialling else Starting) (sock_tab n s)
      else threads P s) = threads P" by (auto simp: fun_eq_iff)
  then show ?thesis using assms(1) by (simp add: spawn_def)
qed

lemma list_known:
  assumes "net_reach W N" and "snap N0 N i P sk (frame (host_list X) @ rest) j Q t wj"
    and "threads P sk = Some Receiving" and "linked (state P) h sk"
    and "list_all printable (ready_hosts X)"
    and "list_all (\<lambda>k. resolves (envs W i) (c_str (h_ip k))) (ready_hosts X)" and "can_socket (envs W i)"
    and "\<forall>key\<in>set (map (\<lambda>k. (h_ip k, h_port k)) (ready_hosts X)). mesh_find (state P) key \<noteq> None"
  shows "\<exists>M. net_step W N M \<and> snap N0 M i P sk rest j Q t wj"
proof -
  let ?n = "state P"
  have P: "procs N i = P" using assms(2) by (simp add: snap_def)
  then have wf: "node_wf ?n" and places: "dom (threads P) \<subseteq> dom (sock_tab ?n)"
    using net_reach_procs(3,4) [OF assms(1), of i] by (auto simp: places_ok_def)
  obtain m where m: "thread_received (envs W i) sk (frame (host_list X)) ?n = Inr m"
      "foldE (add_host_key (envs W i)) (map (\<lambda>k. (h_ip k, h_port k)) (ready_hosts X)) ?n = Inr m"
    using host_list_received [OF assms(4) node_wfD(1,2) [OF wf] assms(5-7)] by blast
  have "m = ?n" using add_known_hosts [OF node_wfD(1) [OF wf] assms(8), of "envs W i"] m(2) by simp
  moreover obtain so where "sock_tab ?n sk = Some so" "\<not> s_bStop so" using assms(4) by (rule linkedE)
  moreover have "frame (host_list X) \<noteq> []" by (simp add: frame_def)
  ultimately show ?thesis
    using snap_arrives [OF assms(2,3) _ m(1)] spawn_same [OF refl places] by auto
qed

text \<open>Adding hosts breaks no link.\<close>

lemma adds_holds_link:
  assumes "adds n m" and "state P = n" and "holds_link P x y"
  shows "holds_link (spawn n m P) x y"
proof -
  have "dom (sock_tab n) \<subseteq> dom (sock_tab m)" using assms(1) by (auto simp: adds_def)
  then have "goes_on P (spawn n m P)" by (rule goes_on_spawn(1) [OF assms(2)])
  moreover have "host_tab n x \<noteq> None" "sock_tab n y \<noteq> None"
    using assms(2,3) by (auto simp: holds_link_def elim: linkedE)
  ultimately show ?thesis using holds_linkI [OF assms(3)] assms(1,2) by (auto simp: adds_def)
qed

text \<open>
  The host list of a process \<open>X\<close> has arrived on an established link: its receiver can take a turn
  after which it dials the address \<open>key\<close> of the list.
\<close>

lemma list_dials:
  assumes "net_reach W N" and "b \<noteq> a" and "linked_up N b hb sb a ga ta"
    and "wire N (b, sb) = frame (host_list X) @ rest"
    and "list_all printable (ready_hosts X)"
    and "list_all (\<lambda>k. resolves (envs W b) (c_str (h_ip k))) (ready_hosts X)" and "can_socket (envs W b)"
    and "key \<in> (\<lambda>k. (h_ip k, h_port k)) ` set (ready_hosts X)" and "mesh_find (node_of N b) key = None"
  shows "\<exists>M h s. net_step W N M \<and> (\<forall>k. k \<noteq> b \<longrightarrow> procs M k = procs N k)
    \<and> adds (node_of N b) (node_of M b) \<and> h \<in> set (tl (hosts (node_of M b)))
    \<and> host_tab (node_of M b) h = Some (connecting_host (fst key) (snd key) s)
    \<and> sock_tab (node_of M b) s = Some (connecting_sock (fst key) (snd key) h)
    \<and> threads (procs M b) s = Some Dialling \<and> peer M (b, s) = None
    \<and> (\<forall>k x s l y u. linked_up N k x s l y u \<longrightarrow> linked_up M k x s l y u)
    \<and> (\<forall>q k r. peer N q = Some (k, r) \<longrightarrow> k \<noteq> b \<longrightarrow> q \<noteq> (b, sb) \<longrightarrow> peer M q = Some (k, r) \<and> wire M q = wire N q)"
proof -
  let ?n = "node_of N b" and ?P = "procs N b" and ?Q = "procs N a"
  have wf: "node_wf ?n" using net_reach_procs(3) [OF assms(1)] .
  have link: "linked ?n hb sb" "threads ?P sb = Some Receiving"
      "peer N (b, sb) = Some (a, ta)" "peer N (a, ta) = Some (b, sb)"
    using assms(3) by (simp_all add: linked_up_def)
  obtain m where m: "thread_received (envs W b) sb (frame (host_list X)) ?n = Inr m"
      "foldE (add_host_key (envs W b)) (map (\<lambda>k. (h_ip k, h_port k)) (ready_hosts X)) ?n = Inr m"
    using host_list_received [OF link(1) node_wfD(1,2) [OF wf] assms(5-7)] by blast
  have adds: "adds ?n m" using add_hosts_adds [OF node_wfD(1) [OF wf] m(2)] .
  have "key \<in> set (map (\<lambda>k. (h_ip k, h_port k)) (ready_hosts X))" using assms(8) by simp
  from add_hosts_dials [OF node_wfD(1) [OF wf] m(2) this assms(9)]
  obtain h s where hs: "h \<in> set (tl (hosts m))" "host_tab m h = Some (connecting_host (fst key) (snd key) s)"
      "sock_tab m s = Some (connecting_sock (fst key) (snd key) h)" "sock_tab ?n s = None" by blast
  obtain so where so: "sock_tab ?n sb = Some so" "\<not> s_bStop so" using link(1) by (rule linkedE)
  then have "sock_tab m sb = Some so" using adds by (simp add: adds_def)
  moreover have "extends ?n m" using adds by (simp add: adds_def)
  moreover have "frame (host_list X) \<noteq> []" by (simp add: frame_def)
  moreover have "snap N N b ?P sb (frame (host_list X) @ rest) a ?Q ta (wire N (a, ta))"
    using snap_self [OF assms(2) link(3,4)] assms(4) by simp
  ultimately obtain M where M: "net_step W N M"
      "snap N M b (spawn ?n m ?P) sb rest a ?Q ta (wire N (a, ta) @ sent_on sb ?n m)"
    using snap_arrives [OF _ link(2) _ m(1)] so(2) by blast
  let ?P' = "spawn ?n m ?P"
  have procs: "procs M b = ?P'" "procs M a = ?Q" "\<forall>k. k \<noteq> b \<longrightarrow> procs M k = procs N k"
    using M(2) by (simp_all add: snap_def) metis
  have "holds_link ?P' x y" if "holds_link ?P x y" for x y using adds_holds_link [OF adds refl that] .
  then have "linked_up M k x s l y u" if "linked_up N k x s l y u" for k x s l y u
    using snap_keeps_links [OF M(2) _ _ _ that] link(3,4) by blast
  moreover have "threads ?P' s = Some Dialling"
    using hs(3,4) by (simp add: spawn_def connecting_sock_def attached_sock_def TCPSocket_default_def)
  moreover have "peer M (b, s) = None"
  proof -
    have "(b, s) \<noteq> (b, sb)" "(b, s) \<noteq> (a, ta)" using assms(2) hs(4) so(1) by auto
    from snap_frame [OF M(2) this] have "peer M (b, s) = peer N (b, s)" by (rule conjunct1)
    then show ?thesis using net_peer_socket [OF assms(1), of b s] hs(4) by (cases "peer N (b, s)") auto
  qed
  moreover have "\<forall>q k r. peer N q = Some (k, r) \<longrightarrow> k \<noteq> b \<longrightarrow> q \<noteq> (b, sb) \<longrightarrow>
      peer M q = Some (k, r) \<and> wire M q = wire N q"
  proof (intro allI impI)
    fix q k r assume q: "peer N q = Some (k, r)" "k \<noteq> b" "q \<noteq> (b, sb)"
    then have "q \<noteq> (a, ta)" using link(4) by auto
    from snap_others [OF M(2) q(1) _ q(3) this] show "peer M q = Some (k, r) \<and> wire M q = wire N q"
      using procs(3) q(1,2) by simp
  qed
  ultimately show ?thesis using M(1) procs adds hs(1-3)
    by (intro exI [of _ M] exI [of _ h] exI [of _ s] conjI) (assumption | simp)+
qed

section \<open>Introduction\<close>

text \<open>A name that can be printed in a host list and that process \<open>b\<close> resolves.\<close>

definition host_name_ok :: "world \<Rightarrow> nat \<Rightarrow> string \<Rightarrow> bool" where
  "host_name_ok W b x \<longleftrightarrow> CHR '':'' \<notin> set x \<and> NUL \<notin> set x \<and> NL \<notin> set x \<and> resolves (envs W b) x"

lemma node_wf_chans:
  assumes "node_wf n"
  shows "chans_live n"
  unfolding chans_live_def
proof
  fix c assume "c \<in> set (channels n)"
  then have "chan_tab n c \<noteq> None" using node_wfD(3) [OF assms] by blast
  moreover have "c < next_addr n"
    using calculation node_wfD(1) [OF assms] by (auto simp: mesh_wf_defs not_le [symmetric])
  ultimately show "c < next_addr n \<and> chan_tab n c \<noteq> None" by blast
qed

text \<open>What the newcomer's side of the handshake leaves as it was.\<close>

lemma client_frame:
  assumes "A2 = now_ready h (client_told h i p ip sk (client_opened h sk A))"
  shows "server_tab A2 = server_tab A" "my_ID A2 = my_ID A" "SIGNALING_PORT A2 = SIGNALING_PORT A"
  by (simp_all add: assms now_ready_def client_told_def client_opened_def Let_def)

lemma server_frame:
  assumes "B2 = now_ready g (server_greeted t p ip B)"
  shows "server_tab B2 = server_tab B" "my_ID B2 = my_ID B" "SIGNALING_PORT B2 = SIGNALING_PORT B"
    "chan_tab B2 = chan_tab B"
  by (simp_all add: assms now_ready_def server_greeted_def Let_def)

lemma client_find:
  assumes "dialled A h sk" and "A2 = now_ready h (client_told h i p ip sk (client_opened h sk A))"
    and "mesh_find A key = None" and "host_key A2 h \<noteq> Some key" and "host_key A2 (hd (hosts A)) \<noteq> Some key"
  shows "mesh_find A2 key = None"
proof -
  note res = client_result [OF assms(1) refl assms(2)]
  have "host_key A2 x \<noteq> Some key" if "x \<in> set (hosts A)" for x
  proof (cases "x = h \<or> x = hd (hosts A)")
    case False
    then have "host_key A2 x = host_key A x" using res(4) by (simp add: host_key_def)
    then show ?thesis using assms(3) that by (auto simp: mesh_find_None_key image_iff)
  qed (use assms(4,5) in blast)
  then show ?thesis using res(1) by (fastforce simp: mesh_find_None_key)
qed

text \<open>The list a member sends after it has accepted a newcomer.\<close>

lemma server_list:
  assumes "mesh_wf n" and "B = accepted_conn v so n" and "t = next_addr n"
    and "B2 = now_ready (next_addr B) (server_greeted t p ip B)" and "linked B2 (next_addr B) t"
    and "\<forall>h x y. host_key n h = Some (x, y) \<longrightarrow> host_name_ok W b x \<and> int32 y"
    and "host_name_ok W b ip" and "host_name_ok W b (localize (s_ip so))" and "int32 p"
  shows "list_all printable (ready_hosts B2)"
    and "list_all (\<lambda>k. resolves (envs W b) (c_str (h_ip k))) (ready_hosts B2)"
    and "(localize (s_ip so), p) \<in> (\<lambda>k. (h_ip k, h_port k)) ` set (ready_hosts B2)"
proof -
  note res = server_result [OF assms(1-4)]
  have key: "host_name_ok W b x \<and> int32 y" if host: "host_key B2 h = Some (x, y)" for h x y
  proof -
    consider "h = next_addr B" | "h = hd (hosts n)" | "host_key B2 h = host_key n h"
      using res(4) by (fastforce simp: host_key_def)
    then show ?thesis
    proof cases
      case 1
      then show ?thesis using host res(2) assms(8,9) by simp
    next
      case 2
      then obtain z where "host_key n h = Some (z, y)" "x = ip" using host res(3) by (cases "host_key n (hd (hosts n))") auto
      then show ?thesis using assms(6,7) by blast
    next
      case 3
      then show ?thesis using host assms(6) by metis
    qed
  qed
  have ok: "host_name_ok W b (h_ip k) \<and> int32 (h_port k)" if k: "k \<in> set (ready_hosts B2)" for k
  proof -
    obtain h where "host_tab B2 h = Some k"
      using k by (auto simp: ready_hosts_def host_ready_def split: option.splits)
    then show ?thesis using key [of h "h_ip k" "h_port k"] by (simp add: host_key_def)
  qed
  then show "list_all printable (ready_hosts B2)"
      "list_all (\<lambda>k. resolves (envs W b) (c_str (h_ip k))) (ready_hosts B2)"
    by (auto simp: list_all_iff printable_def host_name_ok_def)
  obtain k where k: "host_tab B2 (next_addr B) = Some k" "h_bReady k" using assms(5) by (rule linkedE)
  then have "k \<in> set (ready_hosts B2)"
    using res(1) by (force simp: ready_hosts_def host_ready_def image_iff)
  moreover have "(h_ip k, h_port k) = (localize (s_ip so), p)" using res(2) k(1) by (simp add: host_key_def)
  ultimately show "(localize (s_ip so), p) \<in> (\<lambda>k. (h_ip k, h_port k)) ` set (ready_hosts B2)"
    by (metis (mono_tags, lifting) image_eqI)
qed

lemma server_sends:
  assumes "B = accepted_conn v so n" and "B2 = now_ready g (server_greeted t p ip B)" and "s \<noteq> t"
  shows "sent_on s n (said os B2) = sent_bytes s os"
  using assms(3)
  by (simp add: assms(1,2) sent_on_def now_ready_def server_greeted_def accepted_conn_def welcome_sends_def Let_def)

text \<open>
  The side conditions of an introduction of \<open>c\<close> to \<open>b\<close> by \<open>a\<close>: \<open>b\<close> can resolve the addresses \<open>a\<close> lists, the
  address under which \<open>a\<close> sees \<open>c\<close> leads \<open>b\<close> to \<open>c\<close>, whose server listens, and neither \<open>b\<close> nor \<open>c\<close> has
  an entry for the other, also after \<open>c\<close> has learnt its own address and the port of its host \<open>h\<close>, which is \<open>a\<close>.
\<close>

definition understands :: "world \<Rightarrow> network \<Rightarrow> nat \<Rightarrow> nat \<Rightarrow> bool" where
  "understands W N b a \<longleftrightarrow> can_socket (envs W b)
     \<and> (\<forall>h x y. host_key (node_of N a) h = Some (x, y) \<longrightarrow> host_name_ok W b x \<and> int32 y)"

definition strangers :: "world \<Rightarrow> network \<Rightarrow> nat \<Rightarrow> nat \<Rightarrow> nat \<Rightarrow> addr \<Rightarrow> addr \<Rightarrow> bool" where
  "strangers W N a b c h vc \<longleftrightarrow>
     (let kb = (localize (shown W c b), SIGNALING_PORT (node_of N b));
          kc = (localize (shown W a c), SIGNALING_PORT (node_of N c)); C = node_of N c in
      host_name_ok W b (fst kc) \<and> mesh_find (node_of N b) kc = None \<and> c \<in> sees W b (fst kc) \<and> listens N c vc
      \<and> NUL \<notin> set (shown W c b) \<and> NL \<notin> set (shown W c b) \<and> mesh_find C kb = None
      \<and> map_option (\<lambda>(x, y). (x, SIGNALING_PORT (node_of N a))) (host_key C h) \<noteq> Some kb
      \<and> map_option (\<lambda>(x, y). (fst kc, y)) (host_key C (hd (hosts C))) \<noteq> Some kb
      \<and> int32 (my_ID (node_of N b)) \<and> int32 (SIGNALING_PORT (node_of N b)))"

section \<open>One introduction\<close>

text \<open>
  Process \<open>c\<close> listens and is known under \<open>key\<close>; the list of hosts of \<open>X\<close>, on its way from \<open>a\<close> to
  process \<open>b\<close>, tells \<open>b\<close> of it; \<open>y\<close> is the port in the loopback entry of \<open>c\<close>.
\<close>

definition welcomes :: "network \<Rightarrow> nat \<Rightarrow> string \<times> int \<Rightarrow> addr \<Rightarrow> int \<Rightarrow> bool" where
  "welcomes M c key v y \<longleftrightarrow> listens M c v \<and> snd key = SIGNALING_PORT (node_of M c) \<and> localize (fst key) = fst key
     \<and> host_key (node_of M c) (hd (hosts (node_of M c))) = Some (fst key, y)"

definition caller :: "world \<Rightarrow> network \<Rightarrow> nat \<Rightarrow> nat \<Rightarrow> string \<times> int" where
  "caller W M c b = (localize (shown W c b), SIGNALING_PORT (node_of M b))"

definition awaits ::
  "world \<Rightarrow> network \<Rightarrow> node \<Rightarrow> nat \<Rightarrow> nat \<Rightarrow> string \<times> int \<Rightarrow> int \<Rightarrow> nat \<Rightarrow> addr \<Rightarrow> addr \<Rightarrow> bool" where
  "awaits W M X a c key y b hb sb \<longleftrightarrow> b \<noteq> a \<and> b \<noteq> c \<and> (\<exists>ga ta. linked_up M b hb sb a ga ta)
     \<and> (\<exists>rest. wire M (b, sb) = frame (host_list X) @ rest) \<and> list_all printable (ready_hosts X)
     \<and> list_all (\<lambda>k. resolves (envs W b) (c_str (h_ip k))) (ready_hosts X) \<and> can_socket (envs W b)
     \<and> key \<in> (\<lambda>k. (h_ip k, h_port k)) ` set (ready_hosts X) \<and> mesh_find (node_of M b) key = None
     \<and> c \<in> sees W b (fst key) \<and> host_name_ok W b (fst key)
     \<and> NUL \<notin> set (shown W c b) \<and> NL \<notin> set (shown W c b)
     \<and> int32 (my_ID (node_of M b)) \<and> int32 (SIGNALING_PORT (node_of M b))
     \<and> mesh_find (node_of M c) (caller W M c b) = None \<and> caller W M c b \<noteq> (fst key, y)"

text \<open>Having read the list, \<open>b\<close> dials \<open>c\<close>.\<close>

lemma awaits_dials:
  assumes "net_reach W M" and "awaits W M X a c key y b hb sb" and "welcomes M c key v y"
  shows "\<exists>M' h s. net_step W M M' \<and> (\<forall>k. k \<noteq> b \<longrightarrow> procs M' k = procs M k) \<and> dials W M' b h s c v
    \<and> sock_tab (node_of M' b) s = Some (connecting_sock (fst key) (snd key) h)
    \<and> SIGNALING_PORT (node_of M' b) = SIGNALING_PORT (node_of M b)
    \<and> (\<forall>k x s l y u. linked_up M k x s l y u \<longrightarrow> linked_up M' k x s l y u)
    \<and> (\<forall>q k r. peer M q = Some (k, r) \<longrightarrow> k \<noteq> b \<longrightarrow> q \<noteq> (b, sb) \<longrightarrow> peer M' q = Some (k, r) \<and> wire M' q = wire M q)"
proof -
  obtain ga ta rest where b: "linked_up M b hb sb a ga ta" "wire M (b, sb) = frame (host_list X) @ rest"
    using assms(2) by (auto simp: awaits_def)
  have w: "b \<noteq> a" "b \<noteq> c" "list_all printable (ready_hosts X)"
      "list_all (\<lambda>k. resolves (envs W b) (c_str (h_ip k))) (ready_hosts X)" "can_socket (envs W b)"
      "key \<in> (\<lambda>k. (h_ip k, h_port k)) ` set (ready_hosts X)" "mesh_find (node_of M b) key = None"
      "c \<in> sees W b (fst key)" "host_name_ok W b (fst key)" "NUL \<notin> set (shown W c b)" "NL \<notin> set (shown W c b)"
      "int32 (my_ID (node_of M b))" "int32 (SIGNALING_PORT (node_of M b))" "mesh_find (node_of M c) (caller W M c b) = None"
    using assms(2) unfolding awaits_def by blast+
  obtain M' h s where M': "net_step W M M'" "\<forall>k. k \<noteq> b \<longrightarrow> procs M' k = procs M k"
      "adds (node_of M b) (node_of M' b)" "h \<in> set (tl (hosts (node_of M' b)))"
      "host_tab (node_of M' b) h = Some (connecting_host (fst key) (snd key) s)"
      "sock_tab (node_of M' b) s = Some (connecting_sock (fst key) (snd key) h)"
      "threads (procs M' b) s = Some Dialling" "peer M' (b, s) = None"
      "\<forall>k x s l y u. linked_up M k x s l y u \<longrightarrow> linked_up M' k x s l y u"
      "\<forall>q k r. peer M q = Some (k, r) \<longrightarrow> k \<noteq> b \<longrightarrow> q \<noteq> (b, sb) \<longrightarrow> peer M' q = Some (k, r) \<and> wire M' q = wire M q"
    using list_dials [OF assms(1) w(1) b w(3-7)] by (elim exE conjE) (rule that)
  have wf: "node_wf (node_of M' b)" using net_reach_procs(3) [OF net_reach_step [OF assms(1) M'(1)]] .
  have adds: "my_ID (node_of M' b) = my_ID (node_of M b)" "SIGNALING_PORT (node_of M' b) = SIGNALING_PORT (node_of M b)"
    using M'(3) by (simp_all add: adds_def)
  have C: "procs M' c = procs M c" using M'(2) w(2) by simp
  have "listens M c v" using assms(3) by (simp add: welcomes_def)
  then have listens: "listens M' c v" unfolding listens_def C .
  have name: "NUL \<notin> set (fst key)" "NL \<notin> set (fst key)" "c_str (fst key) = fst key"
    using w(9) by (simp_all add: host_name_ok_def)
  have "reaches W M' b s c v"
    using listens assms(3) M'(6) w(8) name(3) C
    by (auto simp: reaches_def listens_def welcomes_def connecting_sock_def split: option.splits)
  moreover have "dialled (node_of M' b) h s"
    using wf node_wf_chans M'(4-6) w(12,13) adds name
    by (simp add: dialled_def node_wfD connecting_host_def connecting_sock_def attached_sock_def)
  ultimately have "dials W M' b h s c v"
    using w(2,10,11,14) listens M'(7,8) adds C by (simp add: dials_def caller_def)
  then show ?thesis using M' adds(2) by blast
qed

text \<open>A registry that has got one more entry, and its loopback address renewed.\<close>

lemma server_find:
  assumes "mesh_wf n" and "B = accepted_conn v so n" and "t = next_addr n"
    and "B2 = now_ready (next_addr B) (server_greeted t p ip B)" and "mesh_find n key = None"
    and "key \<noteq> (localize (s_ip so), p)" and "host_key B2 (hd (hosts n)) \<noteq> Some key"
  shows "mesh_find B2 key = None"
proof -
  note res = server_result [OF assms(1-4)]
  have "host_key B2 x \<noteq> Some key" if "x \<in> set (hosts n)" for x
  proof (cases "x = next_addr B \<or> x = hd (hosts n)")
    case True
    then show ?thesis using assms(6,7) res(2) by auto
  next
    case False
    then have "host_key B2 x = host_key n x" using res(4) by (simp add: host_key_def)
    then show ?thesis using assms(5) that by (auto simp: mesh_find_None_key image_iff)
  qed
  moreover have "host_key B2 (next_addr B) \<noteq> Some key" using assms(6) res(2) by auto
  ultimately show ?thesis using res(1) by (fastforce simp: mesh_find_None_key)
qed

lemma listens_on:
  assumes "listens M c v" and "node_wf (node_of M' c)" and "accepting (procs M c) \<subseteq> accepting (procs M' c)"
    and "my_ID (node_of M' c) = my_ID (node_of M c)" and "SIGNALING_PORT (node_of M' c) = SIGNALING_PORT (node_of M c)"
    and "\<And>srv. server_tab (node_of M c) v = Some srv \<Longrightarrow>
      \<exists>cs. server_tab (node_of M' c) v = Some (srv\<lparr>srv_connections := cs\<rparr>)"
  shows "listens M' c v"
proof -
  obtain srv where srv: "server_tab (node_of M c) v = Some srv" using assms(1) by (auto simp: listens_def split: option.splits)
  obtain cs where cs: "server_tab (node_of M' c) v = Some (srv\<lparr>srv_connections := cs\<rparr>)" using assms(6) [OF srv] by blast
  have "mesh_wf (node_of M' c)" "chans_live (node_of M' c)" using assms(2) node_wf_chans by (simp_all add: node_wfD)
  then show ?thesis using assms(1,3-5) srv cs unfolding listens_def by auto
qed

text \<open>A process that has accepted a caller and told it its address is as welcoming as before.\<close>

lemma welcomes_again:
  assumes "welcomes M c key v y" and n: "n = node_of M c" "mesh_wf n" and "node_wf (node_of M' c)"
    and B: "B = accepted_conn v so n" "B2 = now_ready (next_addr B) (server_greeted (next_addr n) p (fst key) B)"
    and M': "node_of M' c = said os B2" "goes_on (procs M c) (procs M' c)"
  shows "welcomes M' c key v y"
    "\<lbrakk>mesh_find n key' = None; key' \<noteq> (localize (s_ip so), p); key' \<noteq> (fst key, y)\<rbrakk> \<Longrightarrow>
      mesh_find (node_of M' c) key' = None"
proof -
  have w: "localize (fst key) = fst key" "snd key = SIGNALING_PORT n" "host_key n (hd (hosts n)) = Some (fst key, y)"
      "listens M c v"
    using assms(1) by (simp_all add: welcomes_def n(1))
  note frame = server_frame [OF B(2)] and res = server_result [OF n(2) B(1) refl B(2)]
  have me: "hd (hosts B2) = hd (hosts n)" using res(1) n(2) by (simp add: mesh_wf_def)
  then have key: "host_key B2 (hd (hosts n)) = Some (fst key, y)" using res(3) w(3) by simp
  have "listens M' c v"
  proof (rule listens_on [OF w(4) assms(4)])
    show "accepting (procs M c) \<subseteq> accepting (procs M' c)" using M'(2) by (simp add: goes_on_def)
    show "my_ID (node_of M' c) = my_ID (node_of M c)" "SIGNALING_PORT (node_of M' c) = SIGNALING_PORT (node_of M c)"
      using frame(2,3) M'(1) n(1) B(1) by (simp_all add: accepted_conn_def)
    show "\<exists>cs. server_tab (node_of M' c) v = Some (srv\<lparr>srv_connections := cs\<rparr>)"
      if "server_tab (node_of M c) v = Some srv" for srv
      using that frame(1) M'(1) n(1) B(1) by (auto simp: accepted_conn_def)
  qed
  then show "welcomes M' c key v y"
    using w(1,2) key me frame(3) M'(1) B(1) by (simp add: welcomes_def accepted_conn_def)
  show "mesh_find (node_of M' c) key' = None"
    if "mesh_find n key' = None" "key' \<noteq> (localize (s_ip so), p)" "key' \<noteq> (fst key, y)"
    using server_find [OF n(2) B(1) refl B(2) that(1,2)] that(3) key M'(1) by (simp add: mesh_find_None_key)
qed

text \<open>Their handshake, after which \<open>c\<close> is as welcoming as before.\<close>

lemma introduce_one:
  assumes "net_reach W M" and "awaits W M X a c key y b hb sb" and "welcomes M c key v y"
  shows "\<exists>M' h s g t. net_steps W M M' \<and> (\<forall>k. k \<noteq> b \<longrightarrow> k \<noteq> c \<longrightarrow> procs M' k = procs M k) \<and> linked_up M' b h s c g t
    \<and> (\<forall>k x s l y u. linked_up M k x s l y u \<longrightarrow> linked_up M' k x s l y u) \<and> welcomes M' c key v y
    \<and> (\<forall>key'. mesh_find (node_of M c) key' = None \<longrightarrow> key' \<noteq> caller W M c b \<longrightarrow> key' \<noteq> (fst key, y) \<longrightarrow>
         mesh_find (node_of M' c) key' = None)
    \<and> (\<forall>q k r. peer M q = Some (k, r) \<longrightarrow> k \<noteq> b \<longrightarrow> k \<noteq> c \<longrightarrow> fst q \<noteq> b \<longrightarrow> fst q \<noteq> c \<longrightarrow> wire M' q = wire M q)"
proof -
  obtain M1 h s where M1: "net_step W M M1" "\<forall>k. k \<noteq> b \<longrightarrow> procs M1 k = procs M k" "dials W M1 b h s c v"
    "sock_tab (node_of M1 b) s = Some (connecting_sock (fst key) (snd key) h)"
    "SIGNALING_PORT (node_of M1 b) = SIGNALING_PORT (node_of M b)"
    "\<forall>k x s l y u. linked_up M k x s l y u \<longrightarrow> linked_up M1 k x s l y u"
    "\<forall>q k r. peer M q = Some (k, r) \<longrightarrow> k \<noteq> b \<longrightarrow> q \<noteq> (b, sb) \<longrightarrow> peer M1 q = Some (k, r) \<and> wire M1 q = wire M q"
    using awaits_dials [OF assms] by (elim exE conjE) (rule that)
  have bc: "b \<noteq> c" and name: "c_str (fst key) = fst key"
    using assms(2) by (simp_all add: awaits_def host_name_ok_def)
  have loc: "localize (fst key) = fst key" using assms(3) by (simp add: welcomes_def)
  have C: "procs M1 c = procs M c" using M1(2) bc by simp
  let ?n = "node_of M1 c" and ?t = "next_addr (node_of M1 c)"
  let ?so = "started_sock v (shown W c b) 0" and ?sa = "connecting_sock (fst key) (snd key) h"
  let ?B = "accepted_conn v ?so ?n"
  let ?A2 = "now_ready h (client_told h (my_ID ?n) (SIGNALING_PORT ?n) (localize (shown W c b)) s (client_opened h s (node_of M1 b)))"
  let ?B2 = "now_ready (next_addr ?B) (server_greeted ?t (SIGNALING_PORT (node_of M1 b)) (localize (s_ip ?sa)) ?B)"
  have ips: "localize (s_ip ?sa) = fst key" "s_ip ?so = shown W c b"
    by (simp_all add: connecting_sock_def name loc started_sock_def accepted_sock_def)
  obtain M2 P Q osA osB where M2: "net_steps W M1 M2"
      "snap M1 M2 b P s (sent_bytes ?t (osB @ broadcast_sends ?B2 (host_list ?B2)))
        c Q ?t (sent_bytes s (osA @ broadcast_sends ?A2 (host_list ?A2)))"
      "state Q = said (osB @ broadcast_sends ?B2 (host_list ?B2)) ?B2" "goes_on (procs M1 c) Q"
      "linked_up M2 b h s c (next_addr ?B) ?t"
      "\<forall>k x s l y u. linked_up M1 k x s l y u \<longrightarrow> linked_up M2 k x s l y u"
    using dials_run [OF M1(3) refl refl refl M1(4) refl refl refl] by (elim exE conjE) (rule that)
  have reach: "net_reach W M2" using net_reach_steps [OF net_reach_step [OF assms(1) M1(1)] M2(1)] .
  have wf: "mesh_wf ?n" "node_wf (node_of M2 c)"
    using net_reach_procs(3) [OF net_reach_step [OF assms(1) M1(1)], of c] net_reach_procs(3) [OF reach] by (simp_all add: node_wfD)
  have Q: "procs M2 c = Q" "\<forall>k. k \<noteq> b \<longrightarrow> k \<noteq> c \<longrightarrow> procs M2 k = procs M1 k" using M2(2) by (simp_all add: snap_def)
  have still: "welcomes M1 c key v y" using assms(3) unfolding welcomes_def listens_def C .
  have M2c: "node_of M2 c = said (osB @ broadcast_sends ?B2 (host_list ?B2)) ?B2" "goes_on (procs M1 c) (procs M2 c)"
    using M2(3,4) Q(1) by simp_all
  note again = welcomes_again [OF still refl wf refl refl M2c(1) [unfolded ips] M2c(2)]
  have "mesh_find (node_of M2 c) key' = None"
    if "mesh_find (node_of M c) key' = None" "key' \<noteq> caller W M c b" "key' \<noteq> (fst key, y)" for key'
    by (rule again(2)) (use that C M1(5) ips in \<open>simp_all add: caller_def\<close>)
  moreover note again(1)
  moreover have "wire M2 q = wire M q"
    if q: "peer M q = Some (k, r)" "k \<noteq> b" "k \<noteq> c" "fst q \<noteq> b" "fst q \<noteq> c" for q k r
  proof -
    have ne: "q \<noteq> (b, sb)" "q \<noteq> (b, s)" "q \<noteq> (c, ?t)" using q(4,5) by auto
    have one: "peer M1 q = Some (k, r)" "wire M1 q = wire M q" using M1(7) q(1,2) ne(1) by blast+
    show ?thesis using snap_others [OF M2(2) one(1) _ ne(2,3)] Q(2) q(2,3) one(2) by simp
  qed
  moreover have "net_steps W M M2" using M1(1) M2(1) by (rule converse_rtranclp_into_rtranclp)
  ultimately show ?thesis using M2(5,6) M1(2,6) Q(2)
    by (intro exI [of _ M2] exI [of _ h] exI [of _ s] exI [of _ "next_addr ?B"] exI [of _ ?t] conjI) (blast | simp)+
qed

section \<open>A newcomer\<close>

lemma awaits_on:
  assumes "awaits W M X a c key y b hb sb" and "procs M' b = procs M b" and "a \<noteq> b'" and "a \<noteq> c" and "b \<noteq> b'"
    and "\<forall>k x s l y u. linked_up M k x s l y u \<longrightarrow> linked_up M' k x s l y u"
    and "\<forall>q k r. peer M q = Some (k, r) \<longrightarrow> k \<noteq> b' \<longrightarrow> k \<noteq> c \<longrightarrow> fst q \<noteq> b' \<longrightarrow> fst q \<noteq> c \<longrightarrow> wire M' q = wire M q"
    and "mesh_find (node_of M' c) (caller W M c b) = None"
  shows "awaits W M' X a c key y b hb sb"
proof -
  obtain ga ta where link: "linked_up M b hb sb a ga ta" using assms(1) by (auto simp: awaits_def)
  then have "peer M (b, sb) = Some (a, ta)" by (simp add: linked_up_def)
  moreover have "b \<noteq> c" using assms(1) by (simp add: awaits_def)
  ultimately have "wire M' (b, sb) = wire M (b, sb)" using assms(3,4,5,7) by simp
  moreover have "linked_up M' b hb sb a ga ta" using link assms(6) by blast
  moreover have "caller W M' c b = caller W M c b" using assms(2) by (simp add: caller_def)
  ultimately show ?thesis using assms(1,8) unfolding awaits_def assms(2) by (elim conjE) (intro conjI; (assumption | blast | simp))
qed

lemma introduce_all:
  assumes "net_reach W M" and "welcomes M c key v y" and "a \<noteq> c" and "distinct bs"
    and "\<forall>b\<in>set bs. awaits W M X a c key y b (hb b) (sb b)" and "inj_on (caller W M c) (set bs)"
  shows "\<exists>M'. net_steps W M M' \<and> (\<forall>k x s l y u. linked_up M k x s l y u \<longrightarrow> linked_up M' k x s l y u)
    \<and> (\<forall>b\<in>set bs. \<exists>h s g t. linked_up M' b h s c g t) \<and> (\<forall>k. k \<notin> set bs \<longrightarrow> k \<noteq> c \<longrightarrow> procs M' k = procs M k)"
  using assms
proof (induction bs arbitrary: M)
  case Nil
  then show ?case by auto
next
  case (Cons b bs)
  have b: "awaits W M X a c key y b (hb b) (sb b)" using Cons.prems(5) by simp
  obtain M1 h s g t where M1: "net_steps W M M1" "\<forall>k. k \<noteq> b \<longrightarrow> k \<noteq> c \<longrightarrow> procs M1 k = procs M k" "linked_up M1 b h s c g t"
    "\<forall>k x s l y u. linked_up M k x s l y u \<longrightarrow> linked_up M1 k x s l y u" "welcomes M1 c key v y"
    "\<forall>key'. mesh_find (node_of M c) key' = None \<longrightarrow> key' \<noteq> caller W M c b \<longrightarrow> key' \<noteq> (fst key, y) \<longrightarrow>
         mesh_find (node_of M1 c) key' = None"
    "\<forall>q k r. peer M q = Some (k, r) \<longrightarrow> k \<noteq> b \<longrightarrow> k \<noteq> c \<longrightarrow> fst q \<noteq> b \<longrightarrow> fst q \<noteq> c \<longrightarrow> wire M1 q = wire M q"
    using introduce_one [OF Cons.prems(1) b Cons.prems(2)] by (elim exE conjE) (rule that)
  have same: "procs M1 b' = procs M b'" "b' \<noteq> b" "awaits W M X a c key y b' (hb b') (sb b')" if "b' \<in> set bs" for b'
    using that Cons.prems(4,5) M1(2) by (auto simp: awaits_def)
  have caller: "caller W M1 c b' = caller W M c b'" if "b' \<in> set bs" for b'
    using same(1) [OF that] by (simp add: caller_def)
  have "awaits W M1 X a c key y b' (hb b') (sb b')" if b': "b' \<in> set bs" for b'
  proof (rule awaits_on [OF same(3) [OF b'] same(1) [OF b'] _ Cons.prems(3) same(2) [OF b'] M1(4,7)])
    show "a \<noteq> b" using b by (auto simp: awaits_def)
    have "caller W M c b' \<noteq> caller W M c b"
      using inj_onD [OF Cons.prems(6), of b' b] b' same(2) [OF b'] by auto
    moreover have "mesh_find (node_of M c) (caller W M c b') = None" "caller W M c b' \<noteq> (fst key, y)"
      using same(3) [OF b'] unfolding awaits_def by blast+
    ultimately show "mesh_find (node_of M1 c) (caller W M c b') = None" using M1(6) by blast
  qed
  moreover have "inj_on (caller W M1 c) (set bs)"
    using Cons.prems(6) caller by (auto simp: inj_on_def)
  moreover have "distinct bs" using Cons.prems(4) by simp
  ultimately obtain M2 where M2: "net_steps W M1 M2" "\<forall>k x s l y u. linked_up M1 k x s l y u \<longrightarrow> linked_up M2 k x s l y u"
      "\<forall>b\<in>set bs. \<exists>h s g t. linked_up M2 b h s c g t" "\<forall>k. k \<notin> set bs \<longrightarrow> k \<noteq> c \<longrightarrow> procs M2 k = procs M1 k"
    using Cons.IH [OF net_reach_steps [OF Cons.prems(1) M1(1)] M1(5) Cons.prems(3)] by blast
  have "net_steps W M M2" using M1(1) M2(1) by (rule rtranclp_trans)
  moreover have "linked_up M2 b h s c g t" using M1(3) M2(2) by blast
  then have "\<forall>b'\<in>set (b # bs). \<exists>h s g t. linked_up M2 b' h s c g t" using M2(3) by auto
  moreover have "\<forall>k x s l y u. linked_up M k x s l y u \<longrightarrow> linked_up M2 k x s l y u" using M1(4) M2(2) by blast
  moreover have "\<forall>k. k \<notin> set (b # bs) \<longrightarrow> k \<noteq> c \<longrightarrow> procs M2 k = procs M k" using M1(2) M2(4) by simp
  ultimately show ?case by blast
qed

lemma localize_idem [simp]: "localize (localize x) = localize x"
  by (simp add: localize_def)

text \<open>The newcomer has shaken hands with \<open>a\<close>, and the list of \<open>a\<close> is on its way to all its other peers.\<close>

lemma list_on_wire:
  assumes "snap N M c P sk wi a Q t wj" and "b \<noteq> a" and "b \<noteq> c"
    and "linked_up N b hb sb a ga ta" and "linked_up M b hb sb a ga ta" and "wire N (b, sb) = []"
    and "mesh_wf n" and "n = node_of N a" and "t = next_addr n" and "B = accepted_conn v so n"
    and "A2 = now_ready (next_addr B) (server_greeted t p ip B)" and "node_of M a = said (broadcast_sends A2 (host_list A2)) A2"
  shows "\<exists>rest. wire M (b, sb) = frame (host_list A2) @ rest"
proof -
  let ?says = "broadcast_sends A2 (host_list A2)"
  have "linked A2 ga ta" "ga \<in> set (tl (hosts A2))" using assms(5,12) by (simp_all add: linked_up_def)
  from broadcast_on_link [OF this] obtain rest where "sent_bytes ta ?says = frame (host_list A2) @ rest" by blast
  moreover have "sock_tab n ta \<noteq> None" using assms(4,8) by (auto simp: linked_up_def elim: linkedE)
  then have "ta \<noteq> t" using assms(7,9) by auto
  then have "sent_on ta n (said ?says A2) = sent_bytes ta ?says" unfolding assms(9) by (rule server_sends [OF assms(10) assms(11) [unfolded assms(9)]])
  moreover have "(b, sb) \<noteq> (c, sk)" "(b, sb) \<noteq> (a, t)" using assms(2,3) by simp_all
  then have "wire M (b, sb) = sent_to N M (b, sb)" using snap_frame [OF assms(1)] assms(6) by simp
  moreover have "peer M (b, sb) = Some (a, ta)" "peer M (a, ta) = Some (b, sb)" using assms(5) by (simp_all add: linked_up_def)
  ultimately show ?thesis using assms(8,12) by (simp add: sent_to_def)
qed

text \<open>A member that reads this list does not know the newcomer, which does not know the member.\<close>

lemma newcomer_awaited:
  assumes N: "n = node_of N a" "mesh_wf n" "C = node_of N c" "dialled C h sk" "int32 (SIGNALING_PORT C)"
      "host_key C (hd (hosts C)) = Some (x, y)"
    and A: "t = next_addr n" "B = accepted_conn va (started_sock va (shown W a c) 0) n"
      "A2 = now_ready (next_addr B) (server_greeted t (SIGNALING_PORT C) (localize (s_ip so)) B)" "linked A2 (next_addr B) t"
    and C2: "C2 = now_ready h (client_told h (my_ID n) (SIGNALING_PORT n) (localize (shown W a c)) sk (client_opened h sk C))"
      "node_of M c = said os C2"
    and b: "b \<noteq> a" "b \<noteq> c" "linked_up M b hb sb a ga ta" "understands W N b a" "procs M b = procs N b"
      "host_name_ok W b (localize (s_ip so))" "strangers W N a b c h vc" "\<exists>rest. wire M (b, sb) = frame (host_list A2) @ rest"
    and kc: "kc = (localize (shown W a c), SIGNALING_PORT C)"
  shows "awaits W M A2 a c kc y b hb sb"
proof -
  have s: "host_name_ok W b (fst kc)" "mesh_find (node_of N b) kc = None" "c \<in> sees W b (fst kc)"
      "NUL \<notin> set (shown W c b)" "NL \<notin> set (shown W c b)" "mesh_find C (caller W N c b) = None"
      "map_option (\<lambda>(x, y). (x, SIGNALING_PORT n)) (host_key C h) \<noteq> Some (caller W N c b)"
      "map_option (\<lambda>(x, y). (fst kc, y)) (host_key C (hd (hosts C))) \<noteq> Some (caller W N c b)"
      "int32 (my_ID (node_of N b))" "int32 (SIGNALING_PORT (node_of N b))"
    using b(7) unfolding strangers_def caller_def Let_def kc fst_conv N(1,3) by blast+
  have caller: "caller W M c b = caller W N c b" by (simp add: caller_def b(5))
  have seen: "s_ip (started_sock va (shown W a c) 0) = shown W a c"
    by (simp add: started_sock_def accepted_sock_def)
  have hosts: "\<forall>h x y. host_key n h = Some (x, y) \<longrightarrow> host_name_ok W b x \<and> int32 y" and sock: "can_socket (envs W b)"
    using b(4) by (simp_all add: understands_def N(1))
  have own: "host_name_ok W b (localize (shown W a c))" using s(1) unfolding kc fst_conv .
  note list = server_list [OF N(2) A(2,1,3,4) hosts b(6) _ N(5), unfolded seen, OF own]
  have listed: "kc \<in> (\<lambda>k. (h_ip k, h_port k)) ` set (ready_hosts A2)" unfolding kc by (rule list(3))
  note res = client_result [OF N(4) refl C2(1)]
  have "mesh_find C2 (caller W N c b) = None"
    by (rule client_find [OF N(4) C2(1) s(6)]) (use res(2,3) s(7,8) in \<open>auto simp: kc\<close>)
  then have free: "mesh_find (node_of M c) (caller W M c b) = None" by (simp add: C2(2) mesh_find_None_key caller)
  have "caller W M c b \<noteq> (fst kc, y)" using s(8) N(6) caller by simp
  with list(1,2) listed sock free b(1-3,8) s(1-5,9,10) show ?thesis unfolding awaits_def b(5) by blast
qed

lemma newcomer_listed:
  assumes "net_reach W N" and "dials W N c h sk a va" and "quiet (node_of N a)"
    and "sock_tab (node_of N c) sk = Some so" and "listens N c vc" and "kc = (localize (shown W a c), SIGNALING_PORT (node_of N c))"
  shows "\<exists>M g t X y. net_steps W N M \<and> linked_up M c h sk a g t \<and> welcomes M c kc vc y
    \<and> (\<forall>k x s l y u. linked_up N k x s l y u \<longrightarrow> linked_up M k x s l y u)
    \<and> (\<forall>k. k \<noteq> a \<longrightarrow> k \<noteq> c \<longrightarrow> procs M k = procs N k)
    \<and> (\<forall>b hb sb ga ta. b \<noteq> a \<longrightarrow> b \<noteq> c \<longrightarrow> linked_up N b hb sb a ga ta \<longrightarrow> wire N (b, sb) = [] \<longrightarrow>
         understands W N b a \<longrightarrow> host_name_ok W b (localize (s_ip so)) \<longrightarrow> strangers W N a b c h vc \<longrightarrow>
         awaits W M X a c kc y b hb sb)"
proof -
  let ?n = "node_of N a" and ?C = "node_of N c" and ?t = "next_addr (node_of N a)"
  let ?B = "accepted_conn va (started_sock va (shown W a c) 0) ?n"
  let ?C2 = "now_ready h (client_told h (my_ID ?n) (SIGNALING_PORT ?n) (localize (shown W a c)) sk (client_opened h sk ?C))"
  let ?A2 = "now_ready (next_addr ?B) (server_greeted ?t (SIGNALING_PORT ?C) (localize (s_ip so)) ?B)"
  let ?says = "broadcast_sends ?A2 (host_list ?A2)"
  obtain M P Q osC osA where M: "net_steps W N M"
      "snap N M c P sk (sent_bytes ?t (osA @ ?says)) a Q ?t (sent_bytes sk (osC @ broadcast_sends ?C2 (host_list ?C2)))"
      "state P = said (osC @ broadcast_sends ?C2 (host_list ?C2)) ?C2"
      "state Q = said (osA @ ?says) ?A2" "quiet ?n \<longrightarrow> osA = []" "goes_on (procs N c) P"
      "linked_up M c h sk a (next_addr ?B) ?t"
      "\<forall>k x s l y u. linked_up N k x s l y u \<longrightarrow> linked_up M k x s l y u"
    using dials_run [OF assms(2) refl refl refl assms(4) refl refl refl] by (elim exE conjE) (rule that)
  have d: "dialled ?C h sk" "int32 (SIGNALING_PORT ?C)" "c \<noteq> a" using assms(2) by (simp_all add: dials_def dialled_def)
  have wf: "mesh_wf ?n" "node_wf (node_of M c)"
    using net_reach_procs(3) [OF assms(1), of a] net_reach_procs(3) [OF net_reach_steps [OF assms(1) M(1)]] by (simp_all add: node_wfD)
  have nodes: "node_of M c = said (osC @ broadcast_sends ?C2 (host_list ?C2)) ?C2" "node_of M a = said ?says ?A2"
      "procs M c = P" "\<forall>k. k \<noteq> a \<longrightarrow> k \<noteq> c \<longrightarrow> procs M k = procs N k"
    using M(2-5) assms(3) by (simp_all add: snap_def)
  note res = client_result [OF d(1) refl refl] and frame = client_frame [OF refl]
  obtain x y where me: "host_key ?C (hd (hosts ?C)) = Some (x, y)"
  proof -
    have "mesh_wf ?C" "hosts ?C \<noteq> []" using d(1) by (simp_all add: dialled_def mesh_wf_def)
    from mesh_wf_live [OF this(1), of "hd (hosts ?C)"] this(2) show ?thesis
      by (auto simp: host_key_def intro: that)
  qed
  have "listens M c vc"
  proof (rule listens_on [OF assms(5) wf(2)])
    show "\<exists>cs. server_tab (node_of M c) vc = Some (srv\<lparr>srv_connections := cs\<rparr>)" if "server_tab ?C vc = Some srv" for srv
      using that frame(1) nodes(1) by (intro exI [of _ "srv_connections srv"]) simp
  qed (use M(6) nodes(1,3) frame in \<open>simp_all add: goes_on_def\<close>)
  then have "welcomes M c kc vc y"
    using res(1,3) frame(3) nodes(1) me by (simp add: welcomes_def assms(6))
  moreover have "awaits W M ?A2 a c kc y b hb sb"
    if b: "b \<noteq> a" "b \<noteq> c" "linked_up N b hb sb a ga ta" "wire N (b, sb) = []" "understands W N b a"
      "host_name_ok W b (localize (s_ip so))" "strangers W N a b c h vc" for b hb sb ga ta
  proof -
    have B: "procs M b = procs N b" using nodes(4) b(1,2) by blast
    have up: "linked_up M b hb sb a ga ta" using M(8) b(3) by blast
    have wire: "\<exists>rest. wire M (b, sb) = frame (host_list ?A2) @ rest"
      by (rule list_on_wire [OF M(2) b(1-3) up b(4) wf(1) refl refl refl refl nodes(2)])
    have linked: "linked ?A2 (next_addr ?B) ?t" using M(7) nodes(2) by (simp add: linked_up_def)
    show ?thesis
      by (rule newcomer_awaited [OF refl wf(1) refl d(1,2) me refl refl refl linked refl nodes(1) b(1,2) up b(5) B b(6,7) wire
            assms(6)])
  qed
  ultimately show ?thesis using M(1,7,8) nodes(4)
    by (intro exI [of _ M] exI [of _ "next_addr ?B"] exI [of _ ?t] exI [of _ ?A2] exI [of _ y] conjI) (assumption | blast)+
qed

text \<open>Each two of the processes \<open>S\<close> are ready hosts of each other.\<close>

definition complete :: "network \<Rightarrow> nat set \<Rightarrow> bool" where
  "complete N S \<longleftrightarrow> (\<forall>i\<in>S. \<forall>j\<in>S. i \<noteq> j \<longrightarrow> (\<exists>h s g t. linked_up N i h s j g t))"

lemma linked_up_sym: "linked_up N i h s j g t \<Longrightarrow> linked_up N j g t i h s"
  by (simp add: linked_up_def)

lemma complete_insert:
  assumes "complete N S" and "\<forall>k x s l y u. linked_up N k x s l y u \<longrightarrow> linked_up M k x s l y u"
    and "\<forall>b\<in>S. \<exists>h s g t. linked_up M b h s c g t"
  shows "complete M (insert c S)"
  unfolding complete_def
proof (intro ballI impI)
  fix i j assume ij: "i \<in> insert c S" "j \<in> insert c S" "i \<noteq> j"
  show "\<exists>h s g t. linked_up M i h s j g t"
  proof (cases "i = c \<or> j = c")
    case True
    then show ?thesis using ij assms(3) linked_up_sym by blast
  next
    case False
    then obtain h s g t where "linked_up N i h s j g t" using ij assms(1) unfolding complete_def by blast
    then show ?thesis using assms(2) by blast
  qed
qed

text \<open>
  C5: a newcomer is introduced to every member. The processes \<open>bs\<close> are linked with process \<open>a\<close>, and \<open>c\<close>
  dials \<open>a\<close>. Then there is a continuation, in which no process outside \<open>a\<close>, \<open>c\<close> and \<open>bs\<close> takes a step, to a
  network where \<open>c\<close> is linked as a ready host with \<open>a\<close> and with each of \<open>bs\<close>, over connections of their own,
  and where every link there was is kept: after the handshake of \<open>c\<close> and \<open>a\<close>, the list \<open>a\<close> sends makes
  each of \<open>bs\<close> dial \<open>c\<close>, which accepts them one after the other. If \<open>a\<close> and \<open>bs\<close> were a complete mesh,
  they are one with \<open>c\<close>. (Process \<open>a\<close> publishes nothing here; its
  announcements would precede the list.)
\<close>

theorem newcomer_is_introduced:
  assumes "net_reach W N" and "dials W N c h sk a va" and "quiet (node_of N a)"
    and "sock_tab (node_of N c) sk = Some so" and "listens N c vc"
    and "distinct bs" and "a \<notin> set bs" and "c \<notin> set bs" and "inj_on (caller W N c) (set bs)"
    and "\<forall>b\<in>set bs. (\<exists>ga ta. linked_up N b (hb b) (sb b) a ga ta) \<and> wire N (b, sb b) = []
      \<and> understands W N b a \<and> host_name_ok W b (localize (s_ip so)) \<and> strangers W N a b c h vc"
  shows "\<exists>M. net_steps W N M \<and> (\<exists>g t. linked_up M c h sk a g t)
    \<and> (\<forall>b\<in>set bs. \<exists>h s g t. linked_up M b h s c g t)
    \<and> (\<forall>k x s l y u. linked_up N k x s l y u \<longrightarrow> linked_up M k x s l y u)
    \<and> (complete N (insert a (set bs)) \<longrightarrow> complete M (insert c (insert a (set bs))))
    \<and> (\<forall>k. k \<notin> {a, c} \<union> set bs \<longrightarrow> procs M k = procs N k)"
proof -
  obtain kc where kc: "kc = (localize (shown W a c), SIGNALING_PORT (node_of N c))" by simp
  obtain M g t X y where M: "net_steps W N M" "linked_up M c h sk a g t" "welcomes M c kc vc y"
      "\<forall>k x s l y u. linked_up N k x s l y u \<longrightarrow> linked_up M k x s l y u"
      "\<forall>k. k \<noteq> a \<longrightarrow> k \<noteq> c \<longrightarrow> procs M k = procs N k"
      "\<forall>b hb sb ga ta. b \<noteq> a \<longrightarrow> b \<noteq> c \<longrightarrow> linked_up N b hb sb a ga ta \<longrightarrow> wire N (b, sb) = [] \<longrightarrow>
         understands W N b a \<longrightarrow> host_name_ok W b (localize (s_ip so)) \<longrightarrow> strangers W N a b c h vc \<longrightarrow>
         awaits W M X a c kc y b hb sb"
    using newcomer_listed [OF assms(1-5) kc] by (elim exE conjE) (rule that)
  have ne: "b \<noteq> a" "b \<noteq> c" if "b \<in> set bs" for b using that assms(7,8) by auto
  have awaits: "awaits W M X a c kc y b (hb b) (sb b)" if b: "b \<in> set bs" for b
    using bspec [OF assms(10) b] M(6) ne [OF b] by blast
  have "caller W M c b = caller W N c b" if "b \<in> set bs" for b
    using M(5) ne [OF that] by (simp add: caller_def)
  then have "inj_on (caller W M c) (set bs)" using assms(9) by (simp add: inj_on_def)
  moreover have "a \<noteq> c" using assms(2) by (auto simp: dials_def)
  ultimately obtain L where L: "net_steps W M L"
      "\<forall>k x s l y u. linked_up M k x s l y u \<longrightarrow> linked_up L k x s l y u"
      "\<forall>b\<in>set bs. \<exists>h s g t. linked_up L b h s c g t" "\<forall>k. k \<notin> set bs \<longrightarrow> k \<noteq> c \<longrightarrow> procs L k = procs M k"
    using introduce_all [OF net_reach_steps [OF assms(1) M(1)] M(3) _ assms(6)] awaits by blast
  have "net_steps W N L" using M(1) L(1) by (rule rtranclp_trans)
  moreover have new: "linked_up L c h sk a g t" using M(2) L(2) by blast
  moreover have kept: "\<forall>k x s l y u. linked_up N k x s l y u \<longrightarrow> linked_up L k x s l y u" using M(4) L(2) by blast
  moreover have "complete L (insert c (insert a (set bs)))" if "complete N (insert a (set bs))"
    by (rule complete_insert [OF that kept]) (use L(3) linked_up_sym [OF new] in auto)
  moreover have "\<forall>k. k \<notin> {a, c} \<union> set bs \<longrightarrow> procs L k = procs N k" using M(5) L(4) by simp
  ultimately show ?thesis using L(3) by blast
qed

end
