(* ===== verification/Demo_Network.thy ===== *)
theory Demo_Network
  imports Mesh_Growth
begin

text \<open>
  Three processes started one after the other on one machine: the first binds the default port, the
  others dial it. The properties of networks are applied to them, which ends in a full mesh.
\<close>

section \<open>Starting\<close>

definition local_port :: "nat \<Rightarrow> int" where
  "local_port i = (if i = 0 then 12212 else if i = 1 then 12213 else 12214)"

definition local_env :: "nat \<Rightarrow> env" where
  "local_env i = \<lparr>resolves = (\<lambda>_. True), can_socket = True, can_bind = (\<lambda>p. p = local_port i),
     rand_value = 7, shm_create = (\<lambda>_ _. []), shm_open = (\<lambda>_ _. []), shm_attach = (\<lambda>_. [])\<rparr>"

definition local_world :: world where
  "local_world = \<lparr>envs = local_env, sees = (\<lambda>_ _. {0, 1, 2}), shown = (\<lambda>_ _. ''127.0.0.1'')\<rparr>"

text \<open>A process that found the default port taken dials the process there.\<close>

definition joining :: "env \<Rightarrow> int \<Rightarrow> node" where
  "joining E port = (booted E port)\<lparr>hosts := [1, 2],
     host_tab := (host_tab (booted E port))(2 \<mapsto> connecting_host ''localhost'' 12212 3),
     sock_tab := [3 \<mapsto> connecting_sock ''localhost'' 12212 2], next_addr := 4,
     out := [Listen 0 port, Connect 3 ''localhost'' 12212]\<rparr>"

definition local_boot :: "nat \<Rightarrow> node" where
  "local_boot i = (if i = 0 then booted (local_env 0) 12212 else joining (local_env i) (local_port i))"

lemma localhost_c_str: "c_str ''localhost'' = ''localhost''" and localize_local: "localize ''localhost'' = ''localhost''"
    and localize_loop: "localize ''127.0.0.1'' = ''localhost''"
  by (simp_all add: c_str_def NUL_def localize_def)

lemma local_scan: "scan_ports (local_env i) SIGNALING_DEFAULT_PORT (SIGNALING_DEFAULT_PORT + 64) = Inr (local_port i)"
  by (auto simp: scan_ports_Inr_iff server_bind_def local_env_def local_port_def SIGNALING_DEFAULT_PORT_def)

lemma local_init: "init (local_env i) empty_node = Inr (local_boot i)"
proof (cases "i = 0")
  case True
  then show ?thesis
    using init_booted [OF local_scan, of i]
    by (simp add: local_boot_def local_port_def SIGNALING_DEFAULT_PORT_def)
next
  case False
  let ?n = "booted (local_env i) (local_port i)"
  have p: "local_port i \<noteq> 12212" using False by (simp add: local_port_def)
  have wf: "mesh_wf ?n" using booted_wf by (rule node_wfD)
  have find: "mesh_find ?n (''localhost'', 12212) = None"
    using p by (simp add: mesh_find_def host_matches_def booted_def)
  have env: "resolves (local_env i) (c_str ''localhost'')" "can_socket (local_env i)" by (simp_all add: local_env_def)
  have addrs: "next_addr ?n = 2" "hosts ?n = [1]" "sock_tab ?n = Map.empty" "out ?n = [Listen 0 (local_port i)]"
    by (simp_all add: booted_def empty_node_def)
  have sucs: "Suc 2 = (3::nat)" "Suc 3 = (4::nat)" by simp_all
  have "Host_connect (local_env i) ''localhost'' 12212 ?n = Inr (2, joining (local_env i) (local_port i))"
    unfolding Host_connect_result [OF wf env find] addrs localhost_c_str sucs
    by (simp add: joining_def booted_def empty_node_def)
  then show ?thesis
    using init_booted [OF local_scan, of i] p find False wf
    by (simp add: SIGNALING_DEFAULT_PORT_def add_host_inited_cases local_boot_def)
qed

definition local_net :: network where
  "local_net = \<lparr>procs = (\<lambda>i. spawn empty_node (local_boot i) no_process), peer = (\<lambda>_. None), wire = (\<lambda>_. [])\<rparr>"

lemma local_net_reach: "net_reach local_world local_net"
  unfolding net_reach_def
proof (intro exI conjI)
  show "net_boot local_world local_net" by (auto simp: net_boot_def local_net_def local_world_def local_init)
qed simp

lemma local_nodes: "node_of local_net i = local_boot i"
  by (simp add: local_net_def)


section \<open>The first two\<close>

lemmas local_defs = local_boot_def joining_def booted_def empty_node_def connecting_host_def
  connecting_sock_def attached_sock_def TCPSocket_default_def local_port_def

lemma local_boot_common [simp]:
  "server_tab (local_boot i) = [0 \<mapsto> \<lparr>srv_port = local_port i, srv_bStop = False, srv_connections = [],
     srv_on_open = AcceptSignaling\<rparr>]"
  "SIGNALING_PORT (local_boot i) = local_port i" "my_ID (local_boot i) = 7" "channels (local_boot i) = []"
  "chan_tab (local_boot i) = Map.empty"
  by (simp_all add: local_defs local_env_def)

lemma local_boot_second [simp]:
  "i \<noteq> 0 \<Longrightarrow> hosts (local_boot i) = [1, 2]" "i \<noteq> 0 \<Longrightarrow> next_addr (local_boot i) = 4"
  "i \<noteq> 0 \<Longrightarrow> sock_tab (local_boot i) = [3 \<mapsto> connecting_sock ''localhost'' 12212 2]"
  "i \<noteq> 0 \<Longrightarrow> host_tab (local_boot i) 2 = Some (connecting_host ''localhost'' 12212 3)"
  "host_key (local_boot i) (Suc 0) = Some (''localhost'', local_port i)"
  "i \<noteq> 0 \<Longrightarrow> host_key (local_boot i) 2 = Some (''localhost'', 12212)"
  by (simp_all add: local_defs host_key_def)

lemma local_boot_first [simp]:
  "hosts (local_boot 0) = [1]" "next_addr (local_boot 0) = 2" "sock_tab (local_boot 0) = Map.empty"
  by (simp_all add: local_defs del: One_nat_def)

lemma local_port_simps [simp]:
  "local_port 0 = 12212" "local_port (Suc 0) = 12213" "local_port 2 = 12214" "int32 (local_port i)" "int32 7" "int32 12212" "int32 12213" "int32 12214"
  by (simp_all add: local_port_def int32_def)

lemma local_boot_wf [simp]: "node_wf (local_boot i)" "mesh_wf (local_boot i)" "chans_live (local_boot i)"
proof -
  show "node_wf (local_boot i)" using net_reach_procs(3) [OF local_net_reach, of i] by (simp add: local_nodes)
  then show "mesh_wf (local_boot i)" "chans_live (local_boot i)" by (simp_all add: node_wfD node_wf_chans)
qed

lemma connecting_simps [simp]:
  "s_ip (connecting_sock ''localhost'' p h) = ''localhost''" "s_port (connecting_sock ip p h) = p"
  "s_bLinebuffer (connecting_sock ip p h)" "s_on_open (connecting_sock ip p h) = OpenHost h"
  "s_cbRecv (connecting_sock ip p h) = RecvHost h" "s_isClient (connecting_sock ip p h)"
  "h_socket (connecting_host ip p s) = Some s"
  by (simp_all add: connecting_sock_def connecting_host_def attached_sock_def TCPSocket_default_def localhost_c_str)

lemma local_dialled: "i \<noteq> 0 \<Longrightarrow> dialled (local_boot i) 2 3"
  by (simp add: dialled_def NUL_def NL_def)

lemma local_boot_listens: "listens local_net i 0"
  by (simp add: listens_def local_nodes) (simp add: local_net_def spawn_def empty_node_def)

lemma local_world_simps [simp]:
  "envs local_world = local_env" "shown local_world j i = ''127.0.0.1''" "sees local_world i x = {0, 1, 2}"
  by (simp_all add: local_world_def)

lemma local_find:
  "mesh_find (local_boot 0) (''localhost'', p) = None \<longleftrightarrow> p \<noteq> 12212"
  "i \<noteq> 0 \<Longrightarrow> mesh_find (local_boot i) (''localhost'', p) = None \<longleftrightarrow> p \<noteq> 12212 \<and> p \<noteq> local_port i"
  by (auto simp: mesh_find_None_key)

lemma local_dials: "dials local_world local_net 1 2 3 0 0"
proof -
  have "threads (procs local_net 1) 3 = Some Dialling"
    by (simp add: local_net_def spawn_def empty_node_def)
  moreover have "0 \<in> accepting (procs local_net 0)"
    using local_boot_listens [of 0] by (simp add: listens_def)
  then have "reaches local_world local_net 1 3 0 0"
    by (simp add: reaches_def local_nodes)
  ultimately show ?thesis
    using local_dialled [of 1] local_boot_listens [of 0]
    by (simp add: dials_def local_nodes localize_loop local_find)
      (simp add: local_net_def NUL_def NL_def)
qed

theorem net_handshake_witness:
  "\<exists>M g t. net_steps local_world local_net M \<and> linked_up M 1 2 3 0 g t
    \<and> host_key (node_of M 0) g = Some (''localhost'', 12213)"
proof -
  have "localize (shown local_world 0 1) = ''localhost''" by (simp add: localize_loop)
  moreover have "SIGNALING_PORT (node_of local_net 1) = 12213" by (simp add: local_nodes)
  ultimately show ?thesis using net_handshake [OF local_dials] by metis
qed

section \<open>The third\<close>

text \<open>The first two are linked, and the second has read the host list of the first, which it knows.\<close>

definition local_server :: node where
  "local_server = now_ready 3 (server_greeted 2 12213 ''localhost''
     (accepted_conn 0 (started_sock 0 ''127.0.0.1'' 0) (local_boot 0)))"

definition local_client :: node where
  "local_client = now_ready 2 (client_told 2 7 12212 ''localhost'' 3 (client_opened 2 3 (local_boot 1)))"

lemma local_server_facts:
  "hosts local_server = [1, 3]" "host_key local_server 3 = Some (''localhost'', 12213)"
  "host_key local_server 1 = Some (''localhost'', 12212)"
  "x \<noteq> 1 \<Longrightarrow> x \<noteq> 3 \<Longrightarrow> host_key local_server x = None"
  "map_option srv_port (server_tab local_server 0) = Some 12212"
  "map_option srv_on_open (server_tab local_server 0) = Some AcceptSignaling"
  "map_option srv_bStop (server_tab local_server 0) = Some False"
  "my_ID local_server = 7" "SIGNALING_PORT local_server = 12212" "quiet local_server"
proof -
  let ?B = "accepted_conn 0 (started_sock 0 ''127.0.0.1'' 0) (local_boot 0)"
  have B: "next_addr ?B = 3" "s_ip (started_sock 0 ''127.0.0.1'' 0) = ''127.0.0.1''"
    by (simp_all add: accepted_conn_def started_sock_def accepted_sock_def)
  have L: "local_server = now_ready (next_addr ?B) (server_greeted (next_addr (local_boot 0)) 12213 ''localhost'' ?B)"
    by (simp add: local_server_def B)
  note res = server_result [OF local_boot_wf(2) refl refl L, unfolded B localize_loop]
  show "hosts local_server = [1, 3]" "host_key local_server 3 = Some (''localhost'', 12213)"
    "host_key local_server 1 = Some (''localhost'', 12212)"
    using res by simp_all
  show "host_key local_server x = None" if "x \<noteq> 1" "x \<noteq> 3"
    using res(4) that by (simp add: host_key_def) (simp add: local_defs)
  show "map_option srv_port (server_tab local_server 0) = Some 12212"
    "map_option srv_on_open (server_tab local_server 0) = Some AcceptSignaling"
    "map_option srv_bStop (server_tab local_server 0) = Some False"
    "my_ID local_server = 7" "SIGNALING_PORT local_server = 12212" "quiet local_server"
    using server_frame [OF L] by (simp_all add: quiet_def) (simp_all add: accepted_conn_def)
qed

lemma local_client_facts:
  "hosts local_client = [1, 2]" "host_key local_client 2 = Some (''localhost'', 12212)"
  "host_key local_client 1 = Some (''localhost'', 12213)"
  "my_ID local_client = 7" "SIGNALING_PORT local_client = 12213"
  using client_result [OF local_dialled refl local_client_def] client_frame [OF local_client_def]
  by simp_all

lemma local_names:
  "host_name_ok local_world i ''localhost''"
  "\<forall>h x y. host_key (local_boot 0) h = Some (x, y) \<longrightarrow> host_name_ok local_world i x \<and> int32 y"
proof -
  show *: "host_name_ok local_world i ''localhost''" by (simp add: host_name_ok_def NUL_def NL_def) (simp add: local_env_def)
  have "host_key (local_boot 0) h = None" if "h \<noteq> 1" for h
    using that by (simp add: host_key_def) (simp add: local_defs)
  then show "\<forall>h x y. host_key (local_boot 0) h = Some (x, y) \<longrightarrow> host_name_ok local_world i x \<and> int32 y"
    using * by (metis One_nat_def local_boot_second(5) local_port_simps(1,4) option.distinct(1) option.inject prod.inject)
qed

text \<open>The second process reads the list of the first.\<close>

lemma local_list:
  assumes "linked local_server 3 2"
  shows "list_all printable (ready_hosts local_server)"
    and "list_all (\<lambda>k. resolves (local_env i) (c_str (h_ip k))) (ready_hosts local_server)"
    and "\<forall>key\<in>set (map (\<lambda>k. (h_ip k, h_port k)) (ready_hosts local_server)). mesh_find local_client key \<noteq> None"
proof -
  let ?B = "accepted_conn 0 (started_sock 0 ''127.0.0.1'' 0) (local_boot 0)"
  have B: "next_addr ?B = 3" "s_ip (started_sock 0 ''127.0.0.1'' 0) = ''127.0.0.1''"
    by (simp_all add: accepted_conn_def started_sock_def accepted_sock_def)
  have L: "local_server = now_ready (next_addr ?B) (server_greeted 2 12213 ''localhost'' ?B)"
    by (simp add: local_server_def B)
  have "linked local_server (next_addr ?B) 2" using assms B by simp
  note list = server_list [OF local_boot_wf(2) refl _ L this local_names(2), unfolded B localize_loop, OF _ local_names(1,1)]
  show "list_all printable (ready_hosts local_server)"
    using list(1) by (simp add: int32_def)
  show "list_all (\<lambda>k. resolves (local_env i) (c_str (h_ip k))) (ready_hosts local_server)"
    using list(2) [of i] by (simp add: int32_def)
  have "(h_ip k, h_port k) \<in> {(''localhost'', 12212), (''localhost'', 12213)}" if k: "k \<in> set (ready_hosts local_server)" for k
  proof -
    obtain h where "h \<in> set (hosts local_server)" "host_tab local_server h = Some k"
      using k by (auto simp: ready_hosts_def host_ready_def split: option.splits)
    then have "h = 1 \<or> h = 3" "host_key local_server h = Some (h_ip k, h_port k)"
      by (auto simp: local_server_facts(1) host_key_def)
    then show ?thesis using local_server_facts(2,3) by auto
  qed
  moreover have "mesh_find local_client key \<noteq> None"
    if "key \<in> {(''localhost'', 12212), (''localhost'', 12213)}" for key
    using that local_client_facts by (auto simp: mesh_find_None_key)
  ultimately show "\<forall>key\<in>set (map (\<lambda>k. (h_ip k, h_port k)) (ready_hosts local_server)). mesh_find local_client key \<noteq> None"
    unfolding set_map ball_simps(9) by blast
qed

lemma said_find [simp]: "mesh_find (said os n) = mesh_find n"
  by (simp add: fun_eq_iff mesh_find_def host_matches_def [abs_def])

lemma local_two:
  "\<exists>M os. net_steps local_world local_net M \<and> linked_up M 1 2 3 0 3 2 \<and> wire M (1, 3) = []
    \<and> procs M 2 = procs local_net 2 \<and> peer M (2, 3) = None \<and> node_of M 0 = said os local_server
    \<and> (\<exists>os. node_of M 1 = said os local_client) \<and> 0 \<in> accepting (procs M 0)"
proof -
  let ?B = "accepted_conn 0 (started_sock 0 ''127.0.0.1'' 0) (local_boot 0)"
  let ?C = local_client and ?A = local_server
  have n: "local_boot 1 = node_of local_net 1" "local_boot 0 = node_of local_net 0" "2 = next_addr (local_boot 0)"
    by (simp_all add: local_nodes)
  have B: "next_addr ?B = 3" "?B = accepted_conn 0 (started_sock 0 (shown local_world 0 1) 0) (local_boot 0)"
    by (simp_all add: accepted_conn_def)
  have so: "sock_tab (local_boot 1) 3 = Some (connecting_sock ''localhost'' 12212 2)" by simp
  have C: "?C = now_ready 2 (client_told 2 (my_ID (local_boot 0)) (SIGNALING_PORT (local_boot 0))
      (localize (shown local_world 0 1)) 3 (client_opened 2 3 (local_boot 1)))"
    by (simp add: local_client_def localize_loop)
  have A: "?A = now_ready (next_addr ?B) (server_greeted 2 (SIGNALING_PORT (local_boot 1))
      (localize (s_ip (connecting_sock ''localhost'' 12212 2))) ?B)"
    by (simp add: local_server_def B(1) localize_local)
  obtain M P Q osA osB where M: "net_steps local_world local_net M"
      "snap local_net M 1 P 3 (sent_bytes 2 (osB @ broadcast_sends ?A (host_list ?A)))
        0 Q 2 (sent_bytes 3 (osA @ broadcast_sends ?C (host_list ?C)))"
      "state P = said (osA @ broadcast_sends ?C (host_list ?C)) ?C"
      "state Q = said (osB @ broadcast_sends ?A (host_list ?A)) ?A"
      "quiet (local_boot 0) \<longrightarrow> osB = []" "goes_on (procs local_net 0) Q" "linked_up M 1 2 3 0 (next_addr ?B) 2"
    using dials_run [OF local_dials n(1,2,3) so B(2) C A] by (elim exE conjE) (rule that)
  have linked: "linked ?A 3 2" "linked ?C 2 3"
    using M(2,3,4,7) B(1) by (simp_all add: linked_up_def snap_def)
  have says: "broadcast_sends ?A (host_list ?A) = [Send 2 (frame (host_list ?A))]"
    using linked(1) by (auto simp: broadcast_sends_def local_server_facts host_ready_def host_sends_def host_link_def
        elim!: linkedE)
  have "quiet (local_boot 0)" by (simp add: quiet_def)
  then have s1: "snap local_net M 1 P 3 (frame (host_list ?A) @ []) 0 Q 2 (sent_bytes 3 (osA @ broadcast_sends ?C (host_list ?C)))"
    using M(2,5) says by simp
  have reach: "net_reach local_world M" using net_reach_steps [OF local_net_reach M(1)] .
  have th: "threads P 3 = Some Receiving" using M(2,7) by (simp add: linked_up_def snap_def)
  have link: "linked (state P) 2 3" using M(3) linked(2) by simp
  have env: "list_all (\<lambda>k. resolves (envs local_world 1) (c_str (h_ip k))) (ready_hosts ?A)" "can_socket (envs local_world 1)"
    using local_list(2) [OF linked(1), of 1] by (simp_all add: local_env_def)
  have known: "\<forall>key\<in>set (map (\<lambda>k. (h_ip k, h_port k)) (ready_hosts ?A)). mesh_find (state P) key \<noteq> None"
    using local_list(3) [OF linked(1)] M(3) by simp
  obtain M' where M': "net_step local_world M M'"
      "snap local_net M' 1 P 3 [] 0 Q 2 (sent_bytes 3 (osA @ broadcast_sends ?C (host_list ?C)))"
    using list_known [OF reach s1 th link local_list(1) [OF linked(1)] env known] by blast
  have "net_steps local_world local_net M'" using M(1) M'(1) by (rule rtranclp.rtrancl_into_rtrancl)
  moreover have "linked_up M' 1 2 3 0 3 2"
    using M(2,7) M'(2) B(1) by (simp add: linked_up_def snap_def)
  moreover have "procs M' 2 = procs local_net 2" "wire M' (1, 3) = []" using M'(2) by (simp_all add: snap_def)
  moreover have "peer M' (2, 3) = peer local_net (2, 3)"
    by (rule conjunct1 [OF snap_frame [OF M'(2)]]) simp_all
  then have "peer M' (2, 3) = None" by (simp add: local_net_def)
  moreover have "node_of M' 0 = said (broadcast_sends ?A (host_list ?A)) ?A"
    using M'(2) M(4,5) \<open>quiet (local_boot 0)\<close> by (simp add: snap_def)
  moreover have "node_of M' 1 = said (osA @ broadcast_sends ?C (host_list ?C)) ?C"
    using M'(2) M(3) by (simp add: snap_def)
  moreover have "0 \<in> accepting (procs M' 0)"
    using M(6) M'(2) local_boot_listens [of 0] by (auto simp: goes_on_def snap_def listens_def)
  ultimately show ?thesis by blast
qed

text \<open>Then the third is introduced to the second.\<close>

theorem newcomer_is_introduced_witness:
  "\<exists>M. net_reach local_world M \<and> linked_up M 1 2 3 0 3 2 \<and> complete M {0, 1, 2}"
proof -
  obtain M os os' where M: "net_steps local_world local_net M" "linked_up M 1 2 3 0 3 2" "wire M (1, 3) = []"
      "procs M 2 = procs local_net 2" "peer M (2, 3) = None" "node_of M 0 = said os local_server"
      "node_of M 1 = said os' local_client" "0 \<in> accepting (procs M 0)"
    using local_two by blast
  have reach: "net_reach local_world M" using net_reach_steps [OF local_net_reach M(1)] .
  have wf: "mesh_wf (node_of M i)" "chans_live (node_of M i)" for i
    using net_reach_procs(3) [OF reach, of i] by (simp_all add: node_wfD node_wf_chans)
  have find: "mesh_find local_server (''localhost'', 12214) = None" "mesh_find local_client (''localhost'', 12214) = None"
    using local_server_facts local_client_facts by (simp_all add: mesh_find_None_key)
  have "listens M 0 0"
    using wf [of 0] M(6,8) local_server_facts by (auto simp: listens_def split: option.splits)
  moreover have th: "threads (procs M 2) 3 = Some Dialling"
    unfolding M(4) by (simp add: local_net_def spawn_def empty_node_def)
  moreover have N2: "node_of M 2 = local_boot 2" using M(4) by (simp add: local_nodes)
  moreover have "reaches local_world M 2 3 0 0"
    using M(6,8) local_server_facts(5) N2 by (auto simp: reaches_def split: option.splits)
  ultimately have dials: "dials local_world M 2 2 3 0 0"
    using local_dialled [of 2] M(5,6) find(1) by (simp add: dials_def localize_loop) (simp add: NUL_def NL_def)
  have quiet: "quiet (node_of M 0)" using local_server_facts(10) M(6) by (simp add: quiet_def)
  have so: "sock_tab (node_of M 2) 3 = Some (connecting_sock ''localhost'' 12212 2)" using N2 by simp
  have keys: "host_key (node_of M 0) x = host_key local_server x" for x using M(6) by simp
  have "host_name_ok local_world 1 ip \<and> int32 p" if "host_key (node_of M 0) x = Some (ip, p)" for x ip p
    using that local_server_facts(2,3) local_server_facts(4) [of x] local_names(1) unfolding keys
    by (cases "x = 1"; cases "x = 3") auto
  then have understands: "understands local_world M 1 0"
    by (simp add: understands_def) (simp add: local_env_def)
  have "listens M 2 0" using local_boot_listens [of 2] unfolding listens_def M(4) .
  then have strangers: "strangers local_world M 0 1 2 2 0"
    using local_names(1) M(6,7) N2 local_server_facts(9) local_client_facts(4,5) find(2)
    by (simp add: strangers_def Let_def localize_loop local_find) (simp add: NUL_def NL_def)
  have "host_name_ok local_world 1 (localize (s_ip (connecting_sock ''localhost'' 12212 2)))"
    using local_names(1) by (simp add: localize_local)
  then have members: "\<forall>b\<in>set [1]. (\<exists>ga ta. linked_up M b 2 3 0 ga ta) \<and> wire M (b, 3) = []
      \<and> understands local_world M b 0 \<and> host_name_ok local_world b (localize (s_ip (connecting_sock ''localhost'' 12212 2)))
      \<and> strangers local_world M 0 b 2 2 0"
    using M(2,3) understands strangers by simp blast
  from newcomer_is_introduced [OF reach dials quiet so \<open>listens M 2 0\<close> _ _ _ _ members]
  obtain L where L: "net_steps local_world M L" "\<forall>k x s l y u. linked_up M k x s l y u \<longrightarrow> linked_up L k x s l y u"
      "complete M (insert 0 (set [1])) \<longrightarrow> complete L (insert 2 (insert 0 (set [1])))"
    by auto
  have "complete M (insert 0 (set [1]))" using M(2) linked_up_sym [OF M(2)] by (auto simp: complete_def)
  moreover have "insert 2 (insert 0 (set [1])) = {0, 1, 2 :: nat}" by auto
  ultimately have "complete L {0, 1, 2}" using L(3) by metis
  then show ?thesis using net_reach_steps [OF reach L(1)] L(2) M(2) by blast
qed

end
