(* ===== verification/Channel_Runs.thy ===== *)
theory Channel_Runs
  imports End_To_End Socket_Threads
begin

text \<open>
  Publishing and subscribing, step by step: the exact state every turn of the publisher and of the
  subscriber leaves behind, from the announcement of a new channel to the first subscriptor. The
  runs of a network are put together from these turns.
\<close>

section \<open>The announcement\<close>

definition channel_of :: "addr \<Rightarrow> string \<Rightarrow> channel" where
  "channel_of p name = (new_channel name)\<lparr>c_publisher := Some p\<rparr>"

text \<open>A new channel \<open>name\<close> whose publisher is \<open>p\<close>.\<close>

definition announced :: "addr \<Rightarrow> string \<Rightarrow> node \<Rightarrow> node" where
  "announced p name n = n\<lparr>chan_tab := (chan_tab n)(next_addr n \<mapsto> channel_of p name),
     next_addr := Suc (next_addr n), channels := channels n @ [next_addr n]\<rparr>"

lemma announced_simps [simp]:
  "hosts (announced p name n) = hosts n" "host_tab (announced p name n) = host_tab n"
  "sock_tab (announced p name n) = sock_tab n" "server_tab (announced p name n) = server_tab n"
  "out (announced p name n) = out n" "next_addr (announced p name n) = Suc (next_addr n)"
  "chan_tab (announced p name n) (next_addr n) = Some (channel_of p name)"
  "sub_tab (announced p name n) = sub_tab n"
  by (simp_all add: announced_def)

lemma channel_of_simps [simp]:
  "c_name (channel_of p name) = name" "c_publisher (channel_of p name) = Some p"
  "c_subscriptions (channel_of p name) = []" "c_subscriptors (channel_of p name) = []"
  "c_server (channel_of p name) = None" "c_offeredPort (channel_of p name) = 0"
  by (simp_all add: channel_of_def new_channel_def)

lemma chan_find_same:
  assumes "channels m = channels n" and "\<And>c. map_option c_name (chan_tab m c) = map_option c_name (chan_tab n c)"
  shows "chan_find m = chan_find n"
proof -
  have "chan_named m name c = chan_named n name c" for name c
    using assms(2) [of c] by (auto simp: chan_named_def split: option.splits)
  then have "chan_named m name = chan_named n name" for name by blast
  then show ?thesis by (intro ext) (simp add: chan_find_def assms(1))
qed

lemma announced_finds:
  assumes "chans_live n" and "chan_find n name = None"
  shows "chan_find (announced p name n) name = Some (next_addr n)" and "chans_live (announced p name n)"
proof -
  obtain c m where ctor: "ChannelImpl_ctor name n = (c, m)" by fastforce
  then have c: "c = next_addr n" "chan_tab m c = Some (new_channel name)"
      "announced p name n = m\<lparr>chan_tab := (chan_tab m)(c \<mapsto> channel_of p name)\<rparr>"
    by (auto simp: ChannelImpl_ctor_def announced_def)
  note f = chan_find_ctor [OF assms(1) ctor]
  have "c_name (channel_of p name) = c_name (new_channel name)" by (simp add: new_channel_def)
  from chan_find_update [OF c(2) this] have "chan_find (announced p name n) = chan_find m" by (simp add: c(3))
  then show "chan_find (announced p name n) name = Some (next_addr n)" using f assms(2) c(1) by simp
  show "chans_live (announced p name n)" using f unfolding c(3) by (auto simp: chans_live_def)
qed

lemma announced_wf: "mesh_wf n \<Longrightarrow> mesh_wf (announced p name n)"
  by (auto simp: mesh_wf_defs announced_def)

lemma announced_local: "is_local h (announced p name n) = is_local h n"
  by (simp add: is_local_def me_def cong: if_cong)

lemma setPublisher_again:
  assumes "chan_tab n c = Some (channel_of p name)"
  shows "setPublisher E c (Some p) n = Inr n"
proof -
  have "(channel_of p name)\<lparr>c_publisher := Some p, c_offeredPort := 0\<rparr> = channel_of p name"
    by (simp add: channel_of_def new_channel_def)
  then show ?thesis using setPublisher_no_subs [OF assms, of E "Some p"] assms by (simp add: fun_upd_idem)
qed

lemma ctor_announced:
  assumes "ChannelImpl_ctor name n = (c, m)"
  shows "setPublisher E c (Some p) m = Inr (announced p name n)"
proof -
  have m: "c = next_addr n" "chan_tab m c = Some (new_channel name)"
    using assms by (auto simp: ChannelImpl_ctor_def)
  show ?thesis
    using setPublisher_no_subs [OF m(2), of E "Some p"] assms
    by (auto simp: ChannelImpl_ctor_def announced_def channel_of_def new_channel_def)
qed

text \<open>The publisher: a new channel, and one announcement to every ready host.\<close>

lemma publish_new:
  assumes "mesh_wf n" and "chans_live n" and "chan_find n name = None" and "m = hd (hosts n)"
    and "host_tab n m = Some mk"
  shows "publish E name n =
    Inr (next_addr n, said (broadcast_sends n (publish_message name mk)) (announced m name n))"
proof -
  obtain c u where ctor: "ChannelImpl_ctor name n = (c, u)" by fastforce
  have u: "c = next_addr n" "chan_tab u c = Some (new_channel name)" "hosts u = hosts n" "host_tab u = host_tab n"
    using ctor by (auto simp: ChannelImpl_ctor_def)
  let ?a = "announced m name n"
  have me: "me u = Inr m" "me ?a = Inr m" using assms(1,4) u(3) mesh_wf_me [of n] by (simp_all add: me_def)
  have wf: "mesh_wf ?a" using assms(1) by (rule announced_wf)
  have str: "channel_tostring c ?a = Inr ([CHR ''P''] @ name @ ''|'' @ host_tostring mk)"
    using me(2) assms(5) u(1) by (simp add: channel_tostring_def getType_def)
  have "broadcast_sends ?a = broadcast_sends n"
    by (intro ext) (simp add: broadcast_sends_def host_sends_def host_link_def [abs_def] host_ready_def [abs_def])
  then have "channel_publish E c u = Inr (said (broadcast_sends n (publish_message name mk)) ?a)"
    using u(2) me(1) ctor_announced [OF ctor, of E m] str broadcast_result [OF wf]
    by (simp add: channel_publish_def publish_message_def new_channel_def said_def)
  then show ?thesis using assms(2,3) ctor u(1) by (simp add: publish_def get_or_create_channel_cases)
qed

text \<open>
  A peer that reads the announcement, be it several times, as when several of the sender's hosts share
  a connection.
\<close>

lemma linked_delivers_many:
  assumes "linked n h sk" and "wire_ok s" and "signaling_message s"
    and "digest_message E h s n = Inr m" and "digest_message E h s m = Inr m" and "linked m h sk"
  shows "thread_received E sk (concat (replicate (Suc k) (frame s))) n = Inr m"
proof -
  note one = linked_dispatch [OF _ assms(3)]
  obtain so where so: "sock_tab n sk = Some so" "s_bLinebuffer so" using assms(1) by (rule linkedE)
  have "foldE (dispatch_event E sk) (replicate k (RecvChunk s)) m = Inr m"
    by (rule foldE_skip) (use one [OF assms(6)] assms(5) in auto)
  moreover have "recv_loop (concat (map frame (replicate (Suc k) s))) 0 = map RecvChunk (replicate (Suc k) s)"
    by (rule recv_loop_frames) (use assms(2) in auto)
  ultimately show ?thesis using so one [OF assms(1)] assms(4) by (simp add: thread_received_def)
qed

lemma announcement_received:
  assumes "linked n h sk" and "chans_live n" and "chan_find n name = None" and "name_ok name"
    and "NUL \<notin> set (h_ip mk)" and "NL \<notin> set (h_ip mk)"
  shows "thread_received E sk (concat (replicate (Suc k) (frame (publish_message name mk)))) n
    = Inr (announced h name n)"
proof (rule linked_delivers_many [OF assms(1)])
  let ?msg = "publish_message name mk" and ?body = "CHR ''P'' # name @ CHR ''|'' # host_tostring mk"
  have digest: "digest_message E h ?msg u
      = bindE (get_or_create_channel name u) (\<lambda>(c, u). setPublisher E c (Some h) u)" for u
    using digest_PUBLISH [of E h ?body u] assms(4)
    by (simp add: publish_message_def apply_publish_statement_def split_statement_def name_ok_def)
  show "wire_ok ?msg"
    using assms(4-6) by (auto simp: publish_message_def host_tostring_def wire_ok_def name_ok_def NUL_def NL_def)
  show "signaling_message ?msg" by (simp add: publish_message_def signaling_message_def)
  obtain c u where ctor: "ChannelImpl_ctor name n = (c, u)" by fastforce
  then show "digest_message E h ?msg n = Inr (announced h name n)"
    unfolding digest using assms(2,3) ctor_announced [OF ctor] by (simp add: get_or_create_channel_cases)
  have "setPublisher E (next_addr n) (Some h) (announced h name n) = Inr (announced h name n)"
    by (rule setPublisher_again) simp
  then show "digest_message E h ?msg (announced h name n) = Inr (announced h name n)"
    unfolding digest using announced_finds [OF assms(2,3)] by (simp add: get_or_create_channel_cases)
  show "linked (announced h name n) h sk" using assms(1) linked_same [of "announced h name n" h n sk] by simp
qed

section \<open>The request\<close>

definition local_sub :: "addr \<Rightarrow> addr \<Rightarrow> subscription" where
  "local_sub c h = \<lparr>sub_channel = c, sub_host = h, sub_bAsync = False, sub_bConnected = False,
     sub_transport = TRANSPORT_TCP, sub_socket = None, sub_shm = None, sub_on_message = False, sub_size = 0\<rparr>"

text \<open>
  The channel \<open>c\<close> with one subscription, and the request on its way to the publisher; then the callback is set.
\<close>

definition requested :: "addr \<Rightarrow> addr \<Rightarrow> string \<Rightarrow> channel \<Rightarrow> node \<Rightarrow> node" where
  "requested c sk name k n = n\<lparr>next_addr := Suc (next_addr n),
     sub_tab := (sub_tab n)(next_addr n \<mapsto> local_sub c (hd (hosts n))),
     chan_tab := (chan_tab n)(c \<mapsto> k\<lparr>c_subscriptions := [next_addr n]\<rparr>),
     out := out n @ [Send sk (frame (connect_tcp_message name))]\<rparr>"

definition heard :: "addr \<Rightarrow> node \<Rightarrow> node" where
  "heard s n = n\<lparr>sub_tab := (sub_tab n)(s \<mapsto> (the (sub_tab n s))\<lparr>sub_on_message := True\<rparr>)\<rparr>"

lemma subscribe_remote:
  assumes "mesh_wf n" and "chans_live n" and "chan_find n name = Some c" and "chan_tab n c = Some k"
    and "c_publisher k = Some h" and "c_subscriptions k = []" and "c_offeredPort k = 0"
    and "linked n h sk" and "is_local h n = Inr False"
  shows "subscribe E name n = Inr (next_addr n, requested c sk name k n)"
proof -
  let ?m = "hd (hosts n)"
  have me: "me n = Inr ?m" using assms(1) mesh_wf_me by blast
  have far: "h \<noteq> ?m" using assms(9) me by (auto simp: is_local_def)
  have name: "c_name k = name" using chan_find_SomeD [OF assms(3)] assms(4) by auto
  let ?u = "n\<lparr>next_addr := Suc (next_addr n), sub_tab := (sub_tab n)(next_addr n \<mapsto> local_sub c ?m),
     chan_tab := (chan_tab n)(c \<mapsto> k\<lparr>c_subscriptions := [next_addr n]\<rparr>)\<rparr>"
  have new: "Subscription_local c False n = Inr (next_addr n, ?u)"
    using me assms(4,6) by (simp add: Subscription_local_def new_sub_def local_sub_def)
  have "me ?u = Inr ?m" using me by (simp add: me_def)
  moreover have "is_local h ?u = Inr False" using assms(9) by (simp add: is_local_def me_def cong: if_cong)
  moreover have "linked ?u h sk" using assms(8) linked_same [of ?u h n sk] by simp
  ultimately have "channel_connect E c ?u = Inr (requested c sk name k n)"
    using assms(5,7) far name linked_send [of ?u h sk]
    by (simp add: channel_connect_def channel_connect_tcp_def requested_def)
  then show ?thesis
    using new assms(2,3) by (simp add: subscribe_def get_or_create_channel_cases channel_subscribe_def)
qed

text \<open>
  The publisher has answered a request on \<open>sk\<close> with the port of the server \<open>v\<close> of the channel, which it has
  opened now or had before.
\<close>

definition offers :: "node \<Rightarrow> node \<Rightarrow> addr \<Rightarrow> channel \<Rightarrow> addr \<Rightarrow> string \<Rightarrow> addr \<Rightarrow> server \<Rightarrow> bool" where
  "offers n m c k sk name v sv \<longleftrightarrow>
     (\<exists>es. out m = out n @ es @ [Send sk (frame (offer_tcp_message name (srv_port sv)))] \<and> (\<forall>x. sent_bytes x es = []))
     \<and> chan_tab m = (chan_tab n)(c \<mapsto> k\<lparr>c_server := Some v\<rparr>) \<and> server_tab m v = Some sv
     \<and> (server_tab n v = None \<or> c_server k = Some v) \<and> (\<exists>g. srv_on_open sv = AcceptSubscriptor c g) \<and> \<not> srv_bStop sv
     \<and> int32 (srv_port sv) \<and> srv_port sv \<noteq> 0
     \<and> sock_tab m = sock_tab n \<and> host_tab m = host_tab n \<and> hosts m = hosts n \<and> sub_tab m = sub_tab n
     \<and> channels m = channels n"

text \<open>A channel with its server, or a port for it.\<close>

definition can_serve :: "env \<Rightarrow> node \<Rightarrow> addr \<Rightarrow> bool" where
  "can_serve E n c \<longleftrightarrow> (case chan_tab n c of None \<Rightarrow> False | Some k \<Rightarrow>
     case c_server k of
       None \<Rightarrow> (\<exists>port. scan_ports E 10000 20000 = Inr port)
     | Some v \<Rightarrow> (case server_tab n v of None \<Rightarrow> False | Some sv \<Rightarrow>
         int32 (srv_port sv) \<and> srv_port sv \<noteq> 0 \<and> \<not> srv_bStop sv \<and> (\<exists>g. srv_on_open sv = AcceptSubscriptor c g)))"

lemma request_answered:
  assumes "linked n h sk" and "chans_live n" and "chan_find n name = Some c" and "chan_tab n c = Some k"
    and "can_serve E n c" and "name_ok name" and "mesh_wf n"
  shows "\<exists>m v sv. thread_received E sk (frame (connect_tcp_message name)) n = Inr m \<and> offers n m c k sk name v sv"
proof (cases "c_server k")
  case None
  then obtain port where port: "scan_ports E 10000 20000 = Inr port" using assms(4,5) by (auto simp: can_serve_def)
  then have "int32 port" "port \<noteq> 0" by (auto simp: scan_ports_Inr_iff int32_def)
  moreover have "server_tab n (next_addr n) = None" using assms(7) by simp
  ultimately have "offers n (offered c h sk name port k n) c k sk name (next_addr n)
      \<lparr>srv_port = port, srv_bStop = False, srv_connections = [], srv_on_open = AcceptSubscriptor c h\<rparr>"
    by (auto simp: offers_def offered_def sent_bytes_def intro!: exI [of _ "[Listen (next_addr n) port]"])
  then show ?thesis using request_received [OF assms(1-4) None assms(6) port] by blast
next
  case (Some v)
  then obtain sv where sv: "server_tab n v = Some sv" "int32 (srv_port sv)" "srv_port sv \<noteq> 0" "\<not> srv_bStop sv"
      "\<exists>g. srv_on_open sv = AcceptSubscriptor c g"
    using assms(4,5) by (auto simp: can_serve_def split: option.splits)
  let ?m = "n\<lparr>out := out n @ [Send sk (frame (offer_tcp_message name (srv_port sv)))]\<rparr>"
  have name: "c_name k = name" using chan_find_SomeD [OF assms(3)] assms(4) by auto
  have "thread_received E sk (frame (connect_tcp_message name)) n = offer_tcp E c h n"
    using linked_delivers [OF assms(1), of "connect_tcp_message name" E] assms(2,3,6)
    by (simp add: make_offer_tcp_def get_channel_eq)
  then have "thread_received E sk (frame (connect_tcp_message name)) n = Inr ?m"
    using assms(4) Some sv(1) name linked_send [OF assms(1)] by (simp add: offer_tcp_def)
  moreover have "offers n ?m c k sk name v sv"
    using sv Some assms(4) by (auto simp: offers_def sent_bytes_def fun_eq_iff)
  ultimately show ?thesis by blast
qed

section \<open>Dialling the server of the channel\<close>

definition answered :: "addr \<Rightarrow> addr \<Rightarrow> string \<Rightarrow> int \<Rightarrow> channel \<Rightarrow> subscription \<Rightarrow> node \<Rightarrow> node" where
  "answered c s ip port k b n = n\<lparr>next_addr := Suc (next_addr n),
     chan_tab := (chan_tab n)(c \<mapsto> k\<lparr>c_offeredPort := port\<rparr>),
     sock_tab := (sock_tab n)(next_addr n \<mapsto> dialling_sock s ip port),
     sub_tab := (sub_tab n)(s \<mapsto> b\<lparr>sub_bConnected := False, sub_socket := Some (next_addr n),
       sub_transport := TRANSPORT_TCP\<rparr>),
     out := out n @ [Connect (next_addr n) ip port]\<rparr>"

lemma offer_received:
  assumes "linked n h sk" and "chans_live n" and "chan_find n name = Some c" and "chan_tab n c = Some k"
    and "c_publisher k = Some h" and "c_subscriptions k = [s]" and "sub_tab n s = Some b"
    and "\<not> sub_bConnected b" and "sub_channel b = c" and "host_tab n h = Some hk"
    and "resolves E (c_str (h_ip hk))" and "can_socket E" and "name_ok name" and "int32 port" and "port \<noteq> 0"
  shows "thread_received E sk (frame (offer_tcp_message name port)) n
    = Inr (answered c s (c_str (h_ip hk)) port k b n)"
proof -
  let ?n = "n\<lparr>chan_tab := (chan_tab n)(c \<mapsto> k\<lparr>c_offeredPort := port\<rparr>)\<rparr>"
  have "str_before (name @ CHR ''|'' # show_int port) ''|'' = name"
    "str_after (name @ CHR ''|'' # show_int port) ''|'' = show_int port"
    using assms(13) by (simp_all add: name_ok_def)
  then have "digest_message E h (offer_tcp_message name port) n = foldE (sub_connect_tcp E) [s] ?n"
    using assms(2-4,6,14,15)
    by (simp add: offer_tcp_message_def answer_offer_tcp_def get_channel_eq on_offer_tcp_def
        channel_connect_tcp_def)
  then have "thread_received E sk (frame (offer_tcp_message name port)) n = sub_connect_tcp E s ?n"
    using linked_delivers [OF assms(1), of "offer_tcp_message name port" E] assms(13) by simp
  then show ?thesis
    using sub_connect_tcp_result [of ?n s b "k\<lparr>c_offeredPort := port\<rparr>" h hk E] assms(5,7-12)
    by (simp add: answered_def)
qed

section \<open>The connection\<close>

definition subscriptor_sock :: "addr \<Rightarrow> addr \<Rightarrow> addr \<Rightarrow> string \<Rightarrow> int \<Rightarrow> socket" where
  "subscriptor_sock v c s ip port = TCPSocket_default\<lparr>s_ip := ip, s_port := port, s_isClient := False,
     s_on_open := OpenSub s, s_on_close := CloseAccepted v (CloseSub s), s_cbRecv := RecvChannel c\<rparr>"

definition running :: "socket \<Rightarrow> socket" where
  "running so = so\<lparr>s_bStop := False, s_semConnected := Suc (s_semConnected so)\<rparr>"

text \<open>The publisher with one more subscriptor, on the socket \<open>so\<close>.\<close>

definition subscribed :: "addr \<Rightarrow> addr \<Rightarrow> addr \<Rightarrow> channel \<Rightarrow> server \<Rightarrow> socket \<Rightarrow> node \<Rightarrow> node" where
  "subscribed c h v k sv so n = n\<lparr>next_addr := Suc (Suc (next_addr n)),
     sock_tab := (sock_tab n)(next_addr n \<mapsto> so),
     sub_tab := (sub_tab n)(Suc (next_addr n) \<mapsto> accepted_sub c (next_addr n) h),
     chan_tab := (chan_tab n)(c \<mapsto> k\<lparr>c_subscriptors := c_subscriptors k @ [Suc (next_addr n)]\<rparr>),
     server_tab := (server_tab n)(v \<mapsto> sv\<lparr>srv_connections := srv_connections sv @ [next_addr n]\<rparr>)\<rparr>"

lemma subscriptor_accepted:
  assumes "server_tab n v = Some sv" and "srv_on_open sv = AcceptSubscriptor c h" and "\<not> srv_bStop sv"
    and "chan_tab n c = Some k" and "so = subscriptor_sock v c (Suc (next_addr n)) ip port"
  shows "server_resume v (Some (ip, port)) n = Inr (True, subscribed c h v k sv so n)"
    and "sock_resume E (next_addr n) Starting None (subscribed c h v k sv so n)
      = Inr (Some Receiving, subscribed c h v k sv (running so) n)"
proof -
  show "server_resume v (Some (ip, port)) n = Inr (True, subscribed c h v k sv so n)"
    using assms
    by (simp add: server_resume_def server_accept_def new_TCPSocket_fd_def run_accept_cb_def Subscriptor_tcp_def
        new_sub_def subscribed_def accepted_sub_def subscriptor_sock_def TCPSocket_default_def)
  show "sock_resume E (next_addr n) Starting None (subscribed c h v k sv so n)
      = Inr (Some Receiving, subscribed c h v k sv (running so) n)"
    by (simp add: assms(5) sock_resume_def thread_opened_def run_open_cb_def sub_on_open_def sock_loop_def
        subscribed_def accepted_sub_def subscriptor_sock_def TCPSocket_default_def running_def)
qed

text \<open>The subscriber, when its socket has opened.\<close>

definition connected :: "addr \<Rightarrow> addr \<Rightarrow> socket \<Rightarrow> subscription \<Rightarrow> node \<Rightarrow> node" where
  "connected sk s so b n = n\<lparr>sock_tab := (sock_tab n)(sk \<mapsto> running so),
     sub_tab := (sub_tab n)(s \<mapsto> b\<lparr>sub_bConnected := True\<rparr>)\<rparr>"

lemma subscription_opened:
  assumes "sock_tab n sk = Some so" and "s_on_open so = OpenSub s" and "sub_tab n s = Some b"
  shows "thread_opened sk n = Inr (connected sk s so b n)"
  using assms by (simp add: thread_opened_def run_open_cb_def sub_on_open_def connected_def running_def)

section \<open>The stream of messages\<close>

text \<open>
  Every message written to the channel goes out once on the socket \<open>t\<close>; and what arrives on the socket
  \<open>sk\<close> goes to the callback of the subscription.
\<close>

definition feeds :: "node \<Rightarrow> addr \<Rightarrow> addr \<Rightarrow> bool" where
  "feeds n c t \<longleftrightarrow> (case chan_tab n c of None \<Rightarrow> False | Some k \<Rightarrow>
     list_all (tcp_sub n) (c_subscriptors k)
     \<and> filter (\<lambda>x. x = t) (List.map_filter (sub_target n) (c_subscriptors k)) = [t])"

definition receives :: "node \<Rightarrow> addr \<Rightarrow> addr \<Rightarrow> bool" where
  "receives n s sk \<longleftrightarrow> map_option sub_on_message (sub_tab n s) = Some True
     \<and> (case sock_tab n sk of None \<Rightarrow> False | Some so \<Rightarrow>
          \<not> s_bStop so \<and> \<not> s_bLinebuffer so \<and> s_cbRecv so = RecvSub s)"

text \<open>In the other direction: what is written to the subscription goes out on its socket, and the publisher's end belongs to the channel.\<close>

definition speaks :: "node \<Rightarrow> addr \<Rightarrow> addr \<Rightarrow> bool" where
  "speaks n s sk \<longleftrightarrow> sock_tab n sk \<noteq> None \<and> (case sub_tab n s of None \<Rightarrow> False | Some k \<Rightarrow>
     sub_bConnected k \<and> sub_transport k = TRANSPORT_TCP \<and> sub_socket k = Some sk)"

definition listening :: "node \<Rightarrow> addr \<Rightarrow> addr \<Rightarrow> bool" where
  "listening n c t \<longleftrightarrow> (case sock_tab n t of None \<Rightarrow> False | Some so \<Rightarrow>
     \<not> s_bStop so \<and> \<not> s_bLinebuffer so \<and> s_cbRecv so = RecvChannel c)"

lemma listening_same: "sock_tab m t = sock_tab n t \<Longrightarrow> listening m c t = listening n c t"
  by (simp add: listening_def)

lemma speaks_writes:
  assumes "speaks n s sk"
  shows "sub_write s msg n = Inr (said [Send sk msg] n)"
  using assms by (auto simp: speaks_def sub_write_def sock_write_buf_def said_def split: option.splits)

lemma listening_delivers:
  assumes "listening n c t" and "map_option c_on_message (chan_tab n c) = Some True"
  shows "thread_received E t msg n = Inr (said [DeliverChannel c msg] n)"
  using assms
  by (auto simp: listening_def thread_received_def run_recv_cb_def said_def split: option.splits)

lemma said_streams [simp]: "speaks (said os n) = speaks n" "listening (said os n) = listening n" "feeds (said os n) = feeds n" "receives (said os n) = receives n"
  by (auto intro!: ext simp: speaks_def listening_def feeds_def receives_def said_def split: option.splits)

lemma receives_delivers:
  assumes "receives n s sk"
  shows "thread_received E sk msg n = Inr (said [DeliverSub s msg] n)"
  using assms
  by (auto simp: receives_def thread_received_def run_recv_cb_def said_def split: option.splits)

lemma same_targets:
  assumes "sub_tab m = sub_tab n" and "sock_tab m = sock_tab n"
  shows "tcp_sub m = tcp_sub n" "sub_target m = sub_target n"
  using assms by (intro ext; simp add: tcp_sub_def sub_target_def split: option.split)+

text \<open>The new subscriptor is fed, and those there were still are.\<close>

lemma subscribed_targets:
  assumes "mesh_wf n" and "list_all (tcp_sub n) ss"
  shows "list_all (tcp_sub (subscribed c h v k sv so n)) ss"
    and "List.map_filter (sub_target (subscribed c h v k sv so n)) ss = List.map_filter (sub_target n) ss"
    and "next_addr n \<notin> set (List.map_filter (sub_target n) ss)"
proof -
  let ?m = "subscribed c h v k sv so n"
  have fresh: "sub_tab n (Suc (next_addr n)) = None" "sock_tab n (next_addr n) = None"
    using assms(1) by (auto simp: mesh_wf_defs)
  have one: "tcp_sub ?m s \<and> sub_target ?m s = sub_target n s \<and> sub_target n s \<noteq> Some (next_addr n)" if k: "tcp_sub n s" for s
  proof -
    obtain r where r: "sub_tab n s = Some r" using k by (auto simp: tcp_sub_def split: option.splits)
    then have "s \<noteq> Suc (next_addr n)" using fresh(1) by auto
    then show ?thesis
      using k r fresh(2) by (auto simp: tcp_sub_def sub_target_def subscribed_def split: option.splits)
  qed
  show "list_all (tcp_sub ?m) ss" using assms(2) one by (auto simp: list_all_iff)
  show "List.map_filter (sub_target ?m) ss = List.map_filter (sub_target n) ss"
    using assms(2) one by (induction ss) (simp_all add: map_filter_simps split: option.split)
  show "next_addr n \<notin> set (List.map_filter (sub_target n) ss)"
    using assms(2) one by (induction ss) (auto simp: map_filter_simps split: option.splits)
qed

lemma subscribed_feeds:
  assumes "mesh_wf n" and "chan_tab n c = Some k" and "list_all (tcp_sub n) (c_subscriptors k)"
    and "m = subscribed c h v k sv so n"
  shows "feeds m c (next_addr n)" and "feeds n c t \<Longrightarrow> feeds m c t"
    and "list_all (tcp_sub m) (c_subscriptors k @ [Suc (next_addr n)])"
proof -
  note old = subscribed_targets(1,2) [OF assms(1,3), of c h v k sv so, folded assms(4)]
    subscribed_targets(3) [OF assms(1,3)]
  have new: "tcp_sub m (Suc (next_addr n))" "sub_target m (Suc (next_addr n)) = Some (next_addr n)"
    by (simp_all add: assms(4) subscribed_def tcp_sub_def sub_target_def accepted_sub_def)
  have app: "List.map_filter (sub_target m) (ss @ [Suc (next_addr n)]) = List.map_filter (sub_target m) ss @ [next_addr n]" for ss
    using new(2) by (induction ss) (simp_all add: map_filter_simps split: option.split)
  show all: "list_all (tcp_sub m) (c_subscriptors k @ [Suc (next_addr n)])" using old(1) new(1) by simp
  have chan: "chan_tab m c = Some (k\<lparr>c_subscriptors := c_subscriptors k @ [Suc (next_addr n)]\<rparr>)"
    by (simp add: assms(4) subscribed_def)
  show "feeds m c (next_addr n)"
    using all old(2,3) app [of "c_subscriptors k"] by (simp add: feeds_def chan filter_empty_conv) metis
  show "feeds m c t" if t: "feeds n c t"
  proof -
    have "filter (\<lambda>x. x = t) (List.map_filter (sub_target n) (c_subscriptors k)) = [t]"
      using t assms(2) by (simp add: feeds_def)
    moreover from this have "t \<in> set (filter (\<lambda>x. x = t) (List.map_filter (sub_target n) (c_subscriptors k)))" by simp
    then have "t \<noteq> next_addr n" using old(3) by auto
    ultimately show ?thesis using all old(2) app [of "c_subscriptors k"] by (simp add: feeds_def chan)
  qed
qed

text \<open>Writing.\<close>

lemma write_feeds:
  assumes "chan_tab n c = Some k" and "list_all (tcp_sub n) (c_subscriptors k)"
  shows "\<exists>os. channel_write c msg n = Inr (said os n) \<and> (\<forall>t. feeds n c t \<longrightarrow> sent_bytes t os = msg)"
proof -
  have sent: "sent_bytes t (map (\<lambda>x. Send x msg) xs) = concat (map (\<lambda>_. msg) (filter (\<lambda>x. x = t) xs))" for xs t
    by (induction xs) auto
  have "feeds n c t \<longrightarrow> sent_bytes t (sub_sends n msg (c_subscriptors k)) = msg" for t
    using assms(1) by (simp add: feeds_def sub_sends_def sent)
  then show ?thesis
    using write_all [OF assms(2) sub_write_result(1)] assms(1) by (auto simp: channel_write_def said_def)
qed

end
