(* ===== verification/Net_Publish.thy ===== *)
theory Net_Publish
  imports Mesh_Growth Channel_Runs
begin

text \<open>
  Publishing and subscribing in a network: one process publishes a channel, others that are linked with
  it subscribe one after the other, and what the first writes from then on arrives, in order, at the
  callbacks of all of them. Every step is a call of an application or the turn of a thread.
\<close>

section \<open>Calls of the applications\<close>

definition net_call :: "world \<Rightarrow> nat \<Rightarrow> event \<Rightarrow> network \<Rightarrow> network \<Rightarrow> bool" where
  "net_call W i e N M \<longleftrightarrow> is_call e \<and> (\<exists>m. handle (envs W i) e (node_of N i) = Inr m
     \<and> M = advance i (spawn (node_of N i) m (procs N i)) N)"

lemma net_call_step: "net_call W i e N M \<Longrightarrow> net_step W N M"
  by (auto simp: net_call_def intro: net_step.call)

lemma snap_call:
  assumes "snap N0 N i P sk wi j Q t wj" and "is_call e" and "handle (envs W i) e (state P) = Inr m"
    and "extends (state P) m"
  shows "\<exists>M. net_call W i e N M \<and> snap N0 M i (spawn (state P) m P) sk wi j Q t (wj @ sent_on sk (state P) m)"
proof -
  let ?R = "spawn (state P) m P"
  have P: "procs N i = P" using assms(1) by (simp add: snap_def)
  have "snap N0 (advance i ?R N) i ?R sk wi j Q t (wj @ sent_on sk (state P) (state ?R))"
    by (rule snap_advance [OF assms(1)]) (simp add: assms(4))
  then show ?thesis using assms(2,3) P by (intro exI [of _ "advance i ?R N"]) (simp add: net_call_def)
qed

lemma said_extends [simp]: "extends n (said os n)" and said_tabs [simp]: "sock_tab (said os n) = sock_tab n"
  "host_tab (said os n) = host_tab n" "hosts (said os n) = hosts n" "out (said os n) = out n @ os"
  "chan_tab (said os n) = chan_tab n" "next_addr (said os n) = next_addr n" "server_tab (said os n) = server_tab n"
  "sub_tab (said os n) = sub_tab n" "channels (said os n) = channels n" "tcp_sub (said os n) = tcp_sub n"
  by (simp_all add: said_def extends_def)

lemma sent_on_said [simp]: "sent_on s n (said os n) = sent_bytes s os"
  by (simp add: sent_on_def)

lemma goes_on_receives:
  "goes_on P Q \<Longrightarrow> threads P s = Some Receiving \<Longrightarrow> sock_tab (state P) s \<noteq> None \<Longrightarrow> threads Q s = Some Receiving"
  by (simp add: goes_on_def)

lemma linked_sock: "linked n h s \<Longrightarrow> \<exists>so. sock_tab n s = Some so \<and> \<not> s_bStop so"
  by (erule linkedE) simp

text \<open>A thread reads what has arrived, up to \<open>rest\<close>, and nothing is sent.\<close>

lemma quiet_turn:
  assumes "threads (procs N b) sk = Some Receiving" and "out m = out (node_of N b) @ es" and "\<forall>x. sent_bytes x es = []"
    and "M = socket_turn b sk (Some Receiving) m (N\<lparr>wire := (wire N)((b, sk) := rest)\<rparr>)"
  shows "procs M = (procs N)(b := spawn (node_of N b) m (procs N b))" "peer M = peer N" "wire M = (wire N)((b, sk) := rest)"
proof -
  let ?N = "N\<lparr>wire := (wire N)((b, sk) := rest)\<rparr>"
  have "(procs N b)\<lparr>threads := (threads (procs N b))(sk \<mapsto> Receiving)\<rparr> = procs N b"
    using assms(1) by (simp add: fun_upd_idem)
  then have turn: "M = advance b (spawn (node_of N b) m (procs N b)) ?N"
    by (simp add: assms(4) socket_turn_def Let_def)
  have "sent_on x (node_of N b) m = []" for x using assms(2,3) by (simp add: sent_on_def)
  then have "wire (advance b (spawn (node_of N b) m (procs N b)) ?N) = wire ?N"
    by (intro ext) (simp add: advance_def split: option.split prod.split)
  then show "procs M = (procs N)(b := spawn (node_of N b) m (procs N b))" "peer M = peer N" "wire M = (wire N)((b, sk) := rest)"
    by (simp_all add: turn)
qed

lemma reads:
  assumes "threads (procs N b) sk = Some Receiving" and "wire N (b, sk) = w" and "w \<noteq> []"
    and "thread_received (envs W b) sk w (node_of N b) = Inr m" and "sock_tab m sk = Some so" and "\<not> s_bStop so"
    and "out m = out (node_of N b) @ es" and "\<forall>x. sent_bytes x es = []"
  shows "\<exists>M. net_step W N M \<and> procs M = (procs N)(b := spawn (node_of N b) m (procs N b))
    \<and> peer M = peer N \<and> wire M = (wire N)((b, sk) := [])"
proof -
  let ?M = "socket_turn b sk (Some Receiving) m (N\<lparr>wire := (wire N)((b, sk) := [])\<rparr>)"
  have res: "sock_resume (envs W b) sk Receiving (Some w) (node_of N b) = Inr (Some Receiving, m)"
    by (rule turn_receives [OF assms(4,5,6,3)])
  have "net_step W N ?M"
    by (rule net_step.arrives [OF assms(1) _ assms(3) res]) (simp add: assms(2))
  then show ?thesis using quiet_turn [OF assms(1,7,8) refl] by blast
qed

section \<open>The other processes\<close>

text \<open>A process goes on with its hosts, and with its old sockets, as they were.\<close>

definition carries_on :: "process \<Rightarrow> process \<Rightarrow> bool" where
  "carries_on P Q \<longleftrightarrow> goes_on P Q \<and> host_tab (state Q) = host_tab (state P) \<and> hosts (state Q) = hosts (state P)
     \<and> (\<forall>s. sock_tab (state P) s \<noteq> None \<longrightarrow> sock_tab (state Q) s = sock_tab (state P) s)"

lemma goes_on_refl [simp]: "goes_on P P" and carries_on_refl [simp]: "carries_on P P"
  by (simp_all add: carries_on_def goes_on_def)

lemma carries_on_trans: "carries_on P Q \<Longrightarrow> carries_on Q R \<Longrightarrow> carries_on P R"
  unfolding carries_on_def by (auto intro: goes_on_trans)

lemma carries_on_link:
  assumes "holds_link P h s" and "goes_on P Q" and "host_tab (state Q) = host_tab (state P)"
    and "hosts (state Q) = hosts (state P)" and "sock_tab (state P) s \<noteq> None \<Longrightarrow> sock_tab (state Q) s = sock_tab (state P) s"
  shows "holds_link Q h s"
proof -
  have "sock_tab (state P) s \<noteq> None" using assms(1) by (auto simp: holds_link_def elim: linkedE)
  then show ?thesis using holds_linkI [OF assms(1,2), of "[]"] assms(3-5) by simp
qed

lemma carries_on_holds: "carries_on P Q \<Longrightarrow> holds_link P h s \<Longrightarrow> holds_link Q h s"
  using carries_on_link by (auto simp: carries_on_def)

definition keeps_links :: "network \<Rightarrow> network \<Rightarrow> bool" where
  "keeps_links N M \<longleftrightarrow> (\<forall>k x s l y u. linked_up N k x s l y u \<longrightarrow> linked_up M k x s l y u)"

lemma keeps_links_refl [simp]: "keeps_links N N"
  and keeps_links_trans: "keeps_links N M \<Longrightarrow> keeps_links M L \<Longrightarrow> keeps_links N L"
  by (simp_all add: keeps_links_def)

lemma same_peers_keep:
  assumes "peer M = peer N" and "\<And>k. carries_on (procs N k) (procs M k)"
  shows "keeps_links N M"
  using carries_on_holds [OF assms(2)] by (auto simp: keeps_links_def linked_up_holds assms(1))

text \<open>A process that takes no part is as it was, and so is what is on the way on its connections.\<close>

definition untouched :: "network \<Rightarrow> network \<Rightarrow> nat \<Rightarrow> bool" where
  "untouched N M b \<longleftrightarrow> procs M b = procs N b
     \<and> (\<forall>s q. peer N (b, s) = Some q \<longrightarrow> peer N q = Some (b, s) \<longrightarrow>
          peer M (b, s) = Some q \<and> peer M q = Some (b, s) \<and> wire M (b, s) = wire N (b, s) \<and> wire M q = wire N q)"

lemma untouched_refl [simp]: "untouched N N b"
  by (simp add: untouched_def)

lemma untouched_trans: "untouched N M b \<Longrightarrow> untouched M L b \<Longrightarrow> untouched N L b"
  unfolding untouched_def by metis

lemma untouched_procs: "untouched N M b \<Longrightarrow> procs M b = procs N b"
  by (simp add: untouched_def)

lemma untouched_peer:
  assumes "untouched N M b" and "peer N (b, s) = Some q" and "peer N q = Some (b, s)"
  shows "peer M (b, s) = Some q" "peer M q = Some (b, s)" "wire M (b, s) = wire N (b, s)" "wire M q = wire N q"
  using assms unfolding untouched_def by blast+

text \<open>What a process sends goes out on one of its sockets only.\<close>

definition only_on :: "addr \<Rightarrow> node \<Rightarrow> node \<Rightarrow> bool" where
  "only_on s n m \<longleftrightarrow> extends n m \<and> (\<forall>x. x \<noteq> s \<longrightarrow> sent_on x n m = [])"

lemma only_on_trans: "only_on s n m \<Longrightarrow> only_on s m u \<Longrightarrow> only_on s n u"
  using extends_trans [of n m u] by (auto simp: only_on_def sent_on_append [of n m u])

lemma snap_untouched:
  assumes "snap N M i P sk wi j Q t wj" and "b \<noteq> i" and "b \<noteq> j"
    and "only_on sk (node_of N i) (state P)" and "only_on t (node_of N j) (state Q)"
    and "peer N (i, sk) \<in> {None, Some (j, t)}" and "peer N (j, t) \<in> {None, Some (i, sk)}"
  shows "untouched N M b"
proof -
  have procs: "procs M i = P" "procs M j = Q" "\<forall>k. k \<noteq> i \<longrightarrow> k \<noteq> j \<longrightarrow> procs M k = procs N k"
    using assms(1) by (simp_all add: snap_def)
  have "peer M (b, s) = Some (k, r) \<and> peer M (k, r) = Some (b, s) \<and> wire M (b, s) = wire N (b, s) \<and> wire M (k, r) = wire N (k, r)"
    if p: "peer N (b, s) = Some (k, r)" "peer N (k, r) = Some (b, s)" for s k r
  proof -
    have ne: "(b, s) \<noteq> (i, sk)" "(b, s) \<noteq> (j, t)" "(k, r) \<noteq> (i, sk)" "(k, r) \<noteq> (j, t)"
      using p assms(2,3,6,7) by auto
    note f = snap_frame [OF assms(1) ne(1,2)] snap_frame [OF assms(1) ne(3,4)]
    have "sent_on r (node_of N k) (node_of M k) = []"
      using ne(3,4) procs assms(4,5) by (cases "k = i"; cases "k = j") (auto simp: only_on_def)
    moreover have "sent_on s (node_of N b) (node_of M b) = []" using procs(3) assms(2,3) by simp
    ultimately show ?thesis using f p by (simp add: sent_to_def)
  qed
  then show ?thesis using procs(3) assms(2,3) by (auto simp: untouched_def)
qed

section \<open>A stream of messages\<close>

lemma feeds_sock:
  assumes "feeds n c t"
  shows "sock_tab n t \<noteq> None"
proof -
  obtain k where k: "chan_tab n c = Some k" "list_all (tcp_sub n) (c_subscriptors k)"
      "filter (\<lambda>x. x = t) (List.map_filter (sub_target n) (c_subscriptors k)) = [t]"
    using assms by (auto simp: feeds_def split: option.splits)
  have "t \<in> set (filter (\<lambda>x. x = t) (List.map_filter (sub_target n) (c_subscriptors k)))" unfolding k(3) by simp
  then obtain s where "s \<in> set (c_subscriptors k)" "sub_target n s = Some t"
    by (auto simp: map_filter_def)
  then show ?thesis
    using k(2) by (auto simp: list_all_iff tcp_sub_def sub_target_def bind_eq_Some_conv split: if_splits option.splits)
qed

text \<open>
  The connection of a subscription: the channel \<open>c\<close> of process \<open>a\<close> feeds the subscription \<open>s\<close> of \<open>b\<close>, with
  the bytes \<open>w\<close> on the way.
\<close>

definition stream_on :: "network \<Rightarrow> nat \<Rightarrow> addr \<Rightarrow> addr \<Rightarrow> nat \<Rightarrow> addr \<Rightarrow> addr \<Rightarrow> string \<Rightarrow> bool" where
  "stream_on N a c t b s sk w \<longleftrightarrow> a \<noteq> b \<and> peer N (b, sk) = Some (a, t) \<and> peer N (a, t) = Some (b, sk)
     \<and> wire N (b, sk) = w \<and> wire N (a, t) = [] \<and> threads (procs N b) sk = Some Receiving
     \<and> threads (procs N a) t = Some Receiving
     \<and> Option.bind (sub_tab (node_of N b) s) sub_socket = Some sk
     \<and> receives (node_of N b) s sk \<and> feeds (node_of N a) c t
     \<and> speaks (node_of N b) s sk \<and> listening (node_of N a) c t"

definition carries :: "network \<Rightarrow> nat \<Rightarrow> addr \<Rightarrow> nat \<Rightarrow> addr \<Rightarrow> string \<Rightarrow> bool" where
  "carries N a c b s w \<longleftrightarrow> (\<exists>t sk. stream_on N a c t b s sk w)"

lemma stream_onD:
  assumes "stream_on N a c t b s sk w"
  shows "a \<noteq> b" "peer N (b, sk) = Some (a, t)" "peer N (a, t) = Some (b, sk)" "wire N (b, sk) = w"
    "threads (procs N b) sk = Some Receiving" "threads (procs N a) t = Some Receiving"
    "Option.bind (sub_tab (node_of N b) s) sub_socket = Some sk" "receives (node_of N b) s sk"
    "feeds (node_of N a) c t" "sock_tab (node_of N a) t \<noteq> None" "wire N (a, t) = []"
    "speaks (node_of N b) s sk" "listening (node_of N a) c t"
  using assms feeds_sock by (auto simp: stream_on_def)

lemma carriesI:
  assumes "a \<noteq> b" and "peer N (b, sk) = Some (a, t)" and "peer N (a, t) = Some (b, sk)" and "wire N (b, sk) = w"
    and "wire N (a, t) = []" and "threads (procs N b) sk = Some Receiving" and "threads (procs N a) t = Some Receiving"
    and "Option.bind (sub_tab (node_of N b) s) sub_socket = Some sk" and "receives (node_of N b) s sk"
    and "feeds (node_of N a) c t" and "speaks (node_of N b) s sk" and "listening (node_of N a) c t"
  shows "carries N a c b s w"
  using assms unfolding carries_def stream_on_def by blast

lemma carriesE:
  assumes "carries N a c b s w"
  obtains t sk where "stream_on N a c t b s sk w"
  using assms unfolding carries_def by blast

lemma carries_apart: "carries N a c b s w \<Longrightarrow> a \<noteq> b"
  by (auto elim!: carriesE dest: stream_onD)

lemma carries_untouched:
  assumes "carries N a c b s w" and "untouched N M b"
    and "\<And>t. feeds (node_of N a) c t \<Longrightarrow> feeds (node_of M a) c t" and "carries_on (procs N a) (procs M a)"
  shows "carries M a c b s w"
proof -
  obtain t sk where "stream_on N a c t b s sk w" using assms(1) by (rule carriesE)
  note * = stream_onD [OF this]
  have "listening (node_of M a) c t" "threads (procs M a) t = Some Receiving"
    using assms(4) *(6,10,13) listening_same [of "node_of M a" t "node_of N a"] by (simp_all add: carries_on_def goes_on_def)
  then show ?thesis
    using * untouched_peer [OF assms(2) *(2,3)] untouched_procs [OF assms(2)] assms(3) [OF *(9)]
    by (intro carriesI [where t = t and sk = sk]) simp_all
qed

text \<open>The channel can be written to.\<close>

definition writable :: "node \<Rightarrow> addr \<Rightarrow> bool" where
  "writable n c \<longleftrightarrow> (case chan_tab n c of None \<Rightarrow> False | Some k \<Rightarrow> list_all (tcp_sub n) (c_subscriptors k))"

lemma writable_said [simp]: "writable (said os n) c = writable n c"
  by (simp add: writable_def split: option.split)

lemma message_carried:
  assumes "carries N a c b s w" and "net_call W a (Write c msg) N M"
  shows "carries M a c b s (w @ msg)"
proof -
  obtain t sk where "stream_on N a c t b s sk w" using assms(1) by (rule carriesE)
  note * = stream_onD [OF this]
  let ?A = "node_of N a"
  obtain k where k: "chan_tab ?A c = Some k" "list_all (tcp_sub ?A) (c_subscriptors k)"
    using *(9) by (auto simp: feeds_def split: option.splits)
  obtain os where os: "channel_write c msg ?A = Inr (said os ?A)" "\<forall>t. feeds ?A c t \<longrightarrow> sent_bytes t os = msg"
    using write_feeds [OF k] by blast
  have M: "M = advance a (spawn ?A (said os ?A) (procs N a)) N"
    using assms(2) os(1) by (auto simp: net_call_def handle_def)
  have "wire M (b, sk) = w @ msg" "wire M (a, t) = []" using *(1-4,9,11) os(2) by (simp_all add: M advance_def)
  then show ?thesis using * by (intro carriesI [where t = t and sk = sk]) (simp_all add: M)
qed

lemma message_written:
  assumes "writable (node_of N a) c"
  shows "\<exists>M os. net_call W a (Write c msg) N M \<and> node_of M a = said os (node_of N a) \<and> (\<forall>k. k \<noteq> a \<longrightarrow> procs M k = procs N k)"
proof -
  let ?A = "node_of N a"
  obtain k where k: "chan_tab ?A c = Some k" "list_all (tcp_sub ?A) (c_subscriptors k)"
    using assms by (auto simp: writable_def split: option.splits)
  obtain os where "channel_write c msg ?A = Inr (said os ?A)" using write_feeds [OF k] by blast
  then show ?thesis
    by (intro exI [of _ "advance a (spawn ?A (said os ?A) (procs N a)) N"] exI [of _ os]) (simp add: net_call_def handle_def)
qed

lemma message_read:
  assumes "carries N a c b s msg" and "msg \<noteq> []"
  shows "\<exists>M. net_step W N M \<and> carries M a c b s [] \<and> out (node_of M b) = out (node_of N b) @ [DeliverSub s msg]
    \<and> (\<forall>k. k \<noteq> b \<longrightarrow> procs M k = procs N k \<and> (k \<noteq> a \<longrightarrow> untouched N M k))"
proof -
  obtain t sk where "stream_on N a c t b s sk msg" using assms(1) by (rule carriesE)
  note * = stream_onD [OF this]
  let ?B = "node_of N b"
  let ?B1 = "said [DeliverSub s msg] ?B"
  obtain so where so: "sock_tab ?B sk = Some so" "\<not> s_bStop so"
    using *(8) by (auto simp: receives_def split: option.splits)
  obtain M where M: "net_step W N M" "procs M = (procs N)(b := spawn ?B ?B1 (procs N b))"
      "peer M = peer N" "wire M = (wire N)((b, sk) := [])"
    using reads [where W = W and es = "[DeliverSub s msg]", OF *(5,4) assms(2) receives_delivers [OF *(8)]] so
    by (auto simp: sent_bytes_def)
  have "carries M a c b s []"
    using * so(1) by (intro carriesI [where t = t and sk = sk]) (simp_all add: M(2-4))
  moreover have "untouched N M k" if "k \<noteq> b" "k \<noteq> a" for k
    using that *(2) by (auto simp: untouched_def M(2-4))
  ultimately show ?thesis using M(1,2) by (intro exI [of _ M]) simp
qed

text \<open>The subscriptions \<open>xs\<close>, each in another process, read what is on the way to them.\<close>

definition delivery :: "addr \<Rightarrow> string \<Rightarrow> effect list" where
  "delivery s w = (if w = [] then [] else [DeliverSub s w])"

lemma rest_read:
  assumes "carries N a c b s w"
  shows "\<exists>M. net_steps W N M \<and> carries M a c b s [] \<and> out (node_of M b) = out (node_of N b) @ delivery s w
    \<and> (\<forall>k. k \<noteq> b \<longrightarrow> procs M k = procs N k \<and> (k \<noteq> a \<longrightarrow> untouched N M k))"
proof (cases "w = []")
  case True
  then show ?thesis using assms by (intro exI [of _ N]) (simp add: delivery_def)
next
  case False
  then show ?thesis using message_read [OF assms False, of W] by (auto simp: delivery_def intro: r_into_rtranclp)
qed

lemma streams_read:
  assumes "\<And>b s. (b, s) \<in> set xs \<Longrightarrow> carries N a c b s (w (b, s))" and "distinct (map fst xs)"
  shows "\<exists>M. net_steps W N M
    \<and> (\<forall>(b, s) \<in> set xs. carries M a c b s [] \<and> out (node_of M b) = out (node_of N b) @ delivery s (w (b, s)))
    \<and> (\<forall>k. k \<notin> fst ` set xs \<longrightarrow> procs M k = procs N k \<and> (k \<noteq> a \<longrightarrow> untouched N M k))"
  using assms
proof (induction xs arbitrary: N)
  case (Cons x xs)
  obtain b s where x: "x = (b, s)" by fastforce
  have b: "carries N a c b s (w (b, s))" "b \<notin> fst ` set xs" "a \<noteq> b" using Cons.prems x by (auto dest: carries_apart)
  obtain N1 where N1: "net_steps W N N1" "carries N1 a c b s []" "out (node_of N1 b) = out (node_of N b) @ delivery s (w (b, s))"
      "\<forall>k. k \<noteq> b \<longrightarrow> procs N1 k = procs N k \<and> (k \<noteq> a \<longrightarrow> untouched N N1 k)"
    using rest_read [OF b(1), of W] by blast
  have rest: "carries N1 a c b' s' (w (b', s'))" "b' \<noteq> b" "b' \<noteq> a" if m: "(b', s') \<in> set xs" for b' s'
  proof -
    show ne: "b' \<noteq> b" "b' \<noteq> a" using b(2) m Cons.prems(1) [of b' s'] by (auto dest: carries_apart simp: image_iff)
    show "carries N1 a c b' s' (w (b', s'))"
      by (rule carries_untouched [OF Cons.prems(1)]) (use N1(4) ne m b(3) in auto)
  qed
  have "distinct (map fst xs)" using Cons.prems(2) by simp
  from Cons.IH [OF rest(1) this] obtain M where M: "net_steps W N1 M"
      "\<forall>(b, s) \<in> set xs. carries M a c b s [] \<and> out (node_of M b) = out (node_of N1 b) @ delivery s (w (b, s))"
      "\<forall>k. k \<notin> fst ` set xs \<longrightarrow> procs M k = procs N1 k \<and> (k \<noteq> a \<longrightarrow> untouched N1 M k)"
    by blast
  have a: "a \<notin> fst ` set xs" using rest(3) by force
  have mb: "carries M a c b s []" "node_of M b = node_of N1 b"
    using carries_untouched [OF N1(2), of M] M(3) a b(2,3) by auto
  have "carries M a c b' s' [] \<and> out (node_of M b') = out (node_of N b') @ delivery s' (w (b', s'))"
    if "(b', s') \<in> set (x # xs)" for b' s'
    using that mb N1(3,4) M(2) rest x by (cases "(b', s') = x") auto
  moreover have "procs M k = procs N k \<and> (k \<noteq> a \<longrightarrow> untouched N M k)" if "k \<notin> fst ` set (x # xs)" for k
    using that N1(4) M(3) x untouched_trans by auto
  moreover have "net_steps W N M" using N1(1) M(1) by (rule rtranclp_trans)
  ultimately show ?case by (intro exI [of _ M]) auto
qed auto

text \<open>Process \<open>a\<close> writes one message after the other; in between the network goes on.\<close>

fun net_writes :: "world \<Rightarrow> nat \<Rightarrow> addr \<Rightarrow> string list \<Rightarrow> network \<Rightarrow> network \<Rightarrow> bool" where
  "net_writes W a c [] N M = net_steps W N M"
| "net_writes W a c (msg # msgs) N M = (\<exists>N1 N2. net_call W a (Write c msg) N N1 \<and> net_steps W N1 N2
     \<and> net_writes W a c msgs N2 M)"

lemma stream_all:
  assumes "\<And>b s. (b, s) \<in> set xs \<Longrightarrow> carries N a c b s []" and "writable (node_of N a) c" and "[] \<notin> set msgs"
    and "distinct (map fst xs)" and "a \<notin> fst ` set xs"
  shows "\<exists>M. net_writes W a c msgs N M
    \<and> (\<forall>(b, s) \<in> set xs. out (node_of M b) = out (node_of N b) @ map (DeliverSub s) msgs)
    \<and> (\<forall>k. k \<noteq> a \<longrightarrow> k \<notin> fst ` set xs \<longrightarrow> procs M k = procs N k)"
  using assms(1-3)
proof (induction msgs arbitrary: N)
  case Nil
  show ?case by (intro exI [of _ N]) auto
next
  case (Cons msg msgs)
  obtain N1 os where N1: "net_call W a (Write c msg) N N1" "node_of N1 a = said os (node_of N a)"
      "\<forall>k. k \<noteq> a \<longrightarrow> procs N1 k = procs N k"
    using message_written [OF Cons.prems(2), of W msg] by (elim exE conjE) (rule that)
  have "msg \<noteq> []" "\<And>b s. (b, s) \<in> set xs \<Longrightarrow> carries N1 a c b s msg" using Cons.prems(1,3) message_carried [OF _ N1(1)] by fastforce+
  from streams_read [OF this(2) assms(4), where W = W] \<open>msg \<noteq> []\<close> obtain N2 where N2: "net_steps W N1 N2"
      "\<forall>(b, s) \<in> set xs. carries N2 a c b s [] \<and> out (node_of N2 b) = out (node_of N1 b) @ [DeliverSub s msg]"
      "\<forall>k. k \<notin> fst ` set xs \<longrightarrow> procs N2 k = procs N1 k \<and> (k \<noteq> a \<longrightarrow> untouched N1 N2 k)"
    by (auto simp: delivery_def)
  have "writable (node_of N2 a) c" using N2(3) assms(5) N1(2) Cons.prems(2) by simp
  then obtain M where M: "net_writes W a c msgs N2 M"
      "\<forall>(b, s) \<in> set xs. out (node_of M b) = out (node_of N2 b) @ map (DeliverSub s) msgs"
      "\<forall>k. k \<noteq> a \<longrightarrow> k \<notin> fst ` set xs \<longrightarrow> procs M k = procs N2 k"
    using Cons.IH [of N2] N2(2) Cons.prems(3) by auto
  have "net_writes W a c (msg # msgs) N M" using N1(1) N2(1) M(1) by auto
  moreover have "out (node_of M b) = out (node_of N b) @ map (DeliverSub s) (msg # msgs)" if m: "(b, s) \<in> set xs" for b s
  proof -
    have "b \<noteq> a" using m assms(5) by force
    then have "out (node_of N1 b) = out (node_of N b)" using N1(3) by simp
    then show ?thesis using m N2(2) M(2) by fastforce
  qed
  ultimately show ?case using M(3) N2(3) N1(3) by (intro exI [of _ M]) (auto simp del: net_writes.simps)
qed

section \<open>The announcement\<close>

text \<open>
  Processes on different machines: \<open>b\<close> reaches \<open>a\<close> under the address its host \<open>h\<close> has, which is not a
  local one; \<open>a\<close> finds a port for the server of a channel.
\<close>

definition apart :: "world \<Rightarrow> network \<Rightarrow> nat \<Rightarrow> nat \<Rightarrow> addr \<Rightarrow> bool" where
  "apart W N a b h \<longleftrightarrow> (\<exists>port. scan_ports (envs W a) 10000 20000 = Inr port) \<and> can_socket (envs W b)
     \<and> is_local h (node_of N b) = Inr False
     \<and> (case host_tab (node_of N b) h of None \<Rightarrow> False | Some k \<Rightarrow>
          resolves (envs W b) (c_str (h_ip k)) \<and> a \<in> sees W b (c_str (h_ip k)))
     \<and> (case host_tab (node_of N a) (hd (hosts (node_of N a))) of None \<Rightarrow> False | Some k \<Rightarrow>
          NUL \<notin> set (h_ip k) \<and> NL \<notin> set (h_ip k))"

text \<open>Process \<open>b\<close> is linked with \<open>a\<close>, and the bytes \<open>w\<close> are on the way to it.\<close>

definition near :: "world \<Rightarrow> network \<Rightarrow> nat \<Rightarrow> nat \<Rightarrow> addr \<Rightarrow> string \<Rightarrow> bool" where
  "near W N a b h w \<longleftrightarrow> a \<noteq> b \<and> apart W N a b h
     \<and> (\<exists>s g t. linked_up N b h s a g t \<and> wire N (b, s) = w \<and> wire N (a, t) = [])"

lemma near_same:
  assumes "near W N a b h w" and "carries_on (procs N a) (procs M a)" and "carries_on (procs N b) (procs M b)"
    and "\<And>s g t. linked_up N b h s a g t \<Longrightarrow> wire N (b, s) = w \<Longrightarrow> wire N (a, t) = [] \<Longrightarrow>
      peer M (b, s) = Some (a, t) \<and> peer M (a, t) = Some (b, s) \<and> wire M (b, s) = v \<and> wire M (a, t) = []"
  shows "near W M a b h v"
proof -
  obtain s g t where *: "a \<noteq> b" "apart W N a b h" "linked_up N b h s a g t" "wire N (b, s) = w" "wire N (a, t) = []"
    using assms(1) by (auto simp: near_def)
  have "is_local h (node_of M b) = is_local h (node_of N b)"
    using assms(3) by (simp add: carries_on_def is_local_def me_def cong: if_cong)
  then have "apart W M a b h" using *(2) assms(2,3) by (simp add: apart_def carries_on_def)
  moreover have "linked_up M b h s a g t"
    using *(3) assms(4) [OF *(3-5)] carries_on_holds [OF assms(2)] carries_on_holds [OF assms(3)]
    by (simp add: linked_up_holds)
  ultimately show ?thesis using *(1) assms(4) [OF *(3-5)] by (auto simp: near_def)
qed

lemma near_untouched:
  assumes "near W N a b h w" and "untouched N M b" and "carries_on (procs N a) (procs M a)"
  shows "near W M a b h w"
proof (rule near_same [OF assms(1,3)])
  show "carries_on (procs N b) (procs M b)" using untouched_procs [OF assms(2)] by simp
next
  fix s g t
  assume "linked_up N b h s a g t" "wire N (b, s) = w" "wire N (a, t) = []"
  then show "peer M (b, s) = Some (a, t) \<and> peer M (a, t) = Some (b, s) \<and> wire M (b, s) = w \<and> wire M (a, t) = []"
    using untouched_peer [OF assms(2), of s "(a, t)"] by (simp add: linked_up_def)
qed

text \<open>It has been told of the channel.\<close>

definition informed :: "world \<Rightarrow> network \<Rightarrow> nat \<Rightarrow> nat \<Rightarrow> string \<Rightarrow> bool" where
  "informed W N a b name \<longleftrightarrow> (\<exists>h c. near W N a b h [] \<and> chan_find (node_of N b) name = Some c
     \<and> chan_tab (node_of N b) c = Some (channel_of h name))"

lemma informed_untouched:
  assumes "informed W N a b name" and "untouched N M b" and "carries_on (procs N a) (procs M a)"
  shows "informed W M a b name"
  using assms near_untouched unfolding informed_def by (metis untouched_procs)

text \<open>The publisher's call.\<close>

lemma announce_call:
  assumes "node_wf A" and "A = node_of N a" and "chan_find A name = None" and "m = hd (hosts A)" and "host_tab A m = Some mk"
  shows "\<exists>M os. publish (envs W a) name A = Inr (next_addr A, node_of M a) \<and> net_call W a (Publish name) N M
    \<and> node_of M a = said os (announced m name A) \<and> keeps_links N M \<and> (\<forall>k. k \<noteq> a \<longrightarrow> procs M k = procs N k)
    \<and> (\<forall>b h. near W N a b h [] \<longrightarrow>
         (\<exists>k. near W M a b h (concat (replicate (Suc k) (frame (publish_message name mk))))))"
proof -
  let ?msg = "publish_message name mk" and ?os = "broadcast_sends A (publish_message name mk)"
  let ?A1 = "said ?os (announced m name A)"
  let ?M = "advance a (spawn A ?A1 (procs N a)) N"
  have pub: "publish (envs W a) name A = Inr (next_addr A, ?A1)"
    by (rule publish_new [OF node_wfD(1) [OF assms(1)] node_wf_chans [OF assms(1)] assms(3-5)])
  then have call: "net_call W a (Publish name) N ?M"
    using assms(2) by (simp add: net_call_def handle_def)
  have on: "carries_on (procs N k) (procs ?M k)" for k
    by (cases "k = a") (auto simp: carries_on_def assms(2) intro: goes_on_spawn)
  have "\<exists>k. near W ?M a b h (concat (replicate (Suc k) (frame ?msg)))" if near: "near W N a b h []" for b h
  proof -
    obtain s g t where link: "a \<noteq> b" "apart W N a b h" "linked_up N b h s a g t" "wire N (b, s) = []" "wire N (a, t) = []"
      using near by (auto simp: near_def)
    then have l: "linked A g t" "g \<in> set (tl (hosts A))" "peer N (b, s) = Some (a, t)" "peer N (a, t) = Some (b, s)"
      by (simp_all add: linked_up_def assms(2))
    obtain k where k: "sent_bytes t ?os = concat (replicate (Suc k) (frame ?msg))"
      using broadcast_frames [OF l(1,2)] by blast
    have "near W ?M a b h (wire ?M (b, s))"
      unfolding near_def
    proof (intro conjI exI)
      show "linked_up ?M b h s a g t"
        using same_peers_keep [of ?M N, OF _ on] link(3) by (auto simp: keeps_links_def)
      have "is_local h (node_of ?M b) = is_local h (node_of N b)" using link(1) by simp
      then show "apart W ?M a b h" using link(1,2) assms(2) by (simp add: apart_def)
    qed (use link(1,5) l(3,4) in \<open>simp_all add: advance_def\<close>)
    moreover have "wire ?M (b, s) = concat (replicate (Suc k) (frame ?msg))"
      using l(3,4) link(4) k assms(2) by (simp add: advance_def sent_on_def)
    ultimately show ?thesis by metis
  qed
  moreover have "keeps_links N ?M" by (rule same_peers_keep [OF _ on]) simp
  ultimately show ?thesis using pub call by (intro exI [of _ ?M] exI [of _ ?os]) simp
qed

text \<open>The turn in which another process reads the announcement, and those of all.\<close>

lemma announcement_read:
  assumes "near W N a b h (concat (replicate (Suc k) (frame (publish_message name mk))))"
    and "node_wf (node_of N b)" and "chan_find (node_of N b) name = None" and "name_ok name"
    and "NUL \<notin> set (h_ip mk)" and "NL \<notin> set (h_ip mk)"
  shows "\<exists>M. net_step W N M \<and> informed W M a b name \<and> keeps_links N M
    \<and> (\<forall>k. k \<noteq> b \<longrightarrow> procs M k = procs N k \<and> (k \<noteq> a \<longrightarrow> untouched N M k))"
proof -
  let ?w = "concat (replicate (Suc k) (frame (publish_message name mk)))" and ?B = "node_of N b"
  let ?B1 = "announced h name ?B"
  obtain s g t where link: "a \<noteq> b" "linked_up N b h s a g t" "wire N (b, s) = ?w" "wire N (a, t) = []"
    using assms(1) by (auto simp: near_def)
  then have l: "linked ?B h s" "threads (procs N b) s = Some Receiving" "peer N (b, s) = Some (a, t)"
      "peer N (a, t) = Some (b, s)" by (simp_all add: linked_up_def)
  have chans: "chans_live ?B" by (rule node_wf_chans [OF assms(2)])
  have read: "thread_received (envs W b) s ?w ?B = Inr ?B1"
    by (rule announcement_received [OF l(1) chans assms(3-6)])
  have ne: "?w \<noteq> []" by (simp add: frame_def)
  obtain so where so: "sock_tab ?B1 s = Some so" "\<not> s_bStop so" using linked_sock [OF l(1)] by auto
  obtain M where M: "net_step W N M" "procs M = (procs N)(b := spawn ?B ?B1 (procs N b))"
      "peer M = peer N" "wire M = (wire N)((b, s) := [])"
    using reads [OF l(2) link(3) ne read so, of "[]"] by (auto simp: sent_bytes_def)
  have on: "carries_on (procs N k) (procs M k)" for k
    by (cases "k = b") (auto simp: M(2) carries_on_def intro: goes_on_spawn)
  have links: "keeps_links N M" by (rule same_peers_keep [OF M(3) on])
  have "apart W M a b h" using assms(1) link(1) by (simp add: near_def apart_def M(2) announced_local)
  then have "near W M a b h []"
    unfolding near_def using link links
    by (intro conjI exI [of _ s] exI [of _ g] exI [of _ t]) (auto simp: keeps_links_def M(4))
  moreover have "chan_find (node_of M b) name = Some (next_addr ?B)"
    using announced_finds(1) [OF chans assms(3)] by (simp add: M(2))
  moreover have "chan_tab (node_of M b) (next_addr ?B) = Some (channel_of h name)" by (simp add: M(2))
  ultimately have "informed W M a b name" by (auto simp: informed_def)
  moreover have "untouched N M k" if "k \<noteq> b" "k \<noteq> a" for k
    using that l(3) by (auto simp: untouched_def M(2-4))
  ultimately show ?thesis using M(1,2) links by (intro exI [of _ M]) simp
qed

lemma announcement_read_all:
  assumes "net_reach W N" and "name_ok name" and "distinct bs" and "NUL \<notin> set (h_ip mk)" and "NL \<notin> set (h_ip mk)"
    and "\<And>b. b \<in> set bs \<Longrightarrow> chan_find (node_of N b) name = None
      \<and> (\<exists>h k. near W N a b h (concat (replicate (Suc k) (frame (publish_message name mk)))))"
  shows "\<exists>M. net_steps W N M \<and> (\<forall>b \<in> set bs. informed W M a b name) \<and> keeps_links N M
    \<and> (\<forall>k. k \<notin> set bs \<longrightarrow> procs M k = procs N k \<and> (k \<noteq> a \<longrightarrow> untouched N M k))"
  using assms(1,3,6)
proof (induction bs arbitrary: N)
  case (Cons b bs)
  obtain h k where b: "chan_find (node_of N b) name = None"
      "near W N a b h (concat (replicate (Suc k) (frame (publish_message name mk))))"
    using Cons.prems(3) [of b] by auto
  obtain N1 where N1: "net_step W N N1" "informed W N1 a b name" "keeps_links N N1"
      "\<forall>k. k \<noteq> b \<longrightarrow> procs N1 k = procs N k \<and> (k \<noteq> a \<longrightarrow> untouched N N1 k)"
    using announcement_read [OF b(2) net_reach_procs(3) [OF Cons.prems(1)] b(1) assms(2,4,5)] by blast
  have ab: "a \<noteq> b" "\<And>x. x \<in> set bs \<Longrightarrow> a \<noteq> x" using b(2) Cons.prems(3) by (fastforce simp: near_def)+
  have a: "procs N1 a = procs N a" using N1(4) ab(1) by simp
  have rest: "chan_find (node_of N1 x) name = None
      \<and> (\<exists>h k. near W N1 a x h (concat (replicate (Suc k) (frame (publish_message name mk)))))" if x: "x \<in> set bs" for x
  proof -
    have "x \<noteq> b" using x Cons.prems(2) by auto
    then have "untouched N N1 x" using N1(4) ab(2) [OF x] by auto
    then show ?thesis
      using Cons.prems(3) [of x] x a near_untouched [of W N a x _ _ N1] untouched_procs by fastforce
  qed
  have "distinct bs" using Cons.prems(2) by simp
  from Cons.IH [OF net_reach_step [OF Cons.prems(1) N1(1)] this rest] obtain M where M: "net_steps W N1 M"
      "\<forall>b \<in> set bs. informed W M a b name" "keeps_links N1 M"
      "\<forall>k. k \<notin> set bs \<longrightarrow> procs M k = procs N1 k \<and> (k \<noteq> a \<longrightarrow> untouched N1 M k)"
    by blast
  have "b \<notin> set bs" "a \<notin> set bs" using Cons.prems(2) ab(2) by auto
  then have "informed W M a b name" using informed_untouched [OF N1(2), of M] M(4) ab(1) by auto
  moreover have "procs M k = procs N k \<and> (k \<noteq> a \<longrightarrow> untouched N M k)" if "k \<notin> set (b # bs)" for k
    using that N1(4) M(4) untouched_trans by auto
  moreover have "net_steps W N M" using N1(1) M(1) by (rule converse_rtranclp_into_rtranclp)
  moreover have "keeps_links N M" using N1(3) M(3) by (rule keeps_links_trans)
  ultimately show ?case using M(2) by (intro exI [of _ M]) auto
qed auto

section \<open>The request and the offer\<close>

lemma requested_simps [simp]:
  "next_addr (requested c sk name k n) = Suc (next_addr n)" "sock_tab (requested c sk name k n) = sock_tab n"
  "host_tab (requested c sk name k n) = host_tab n" "hosts (requested c sk name k n) = hosts n"
  "server_tab (requested c sk name k n) = server_tab n" "channels (requested c sk name k n) = channels n"
  "sub_tab (requested c sk name k n) (next_addr n) = Some (local_sub c (hd (hosts n)))"
  "chan_tab (requested c sk name k n) = (chan_tab n)(c \<mapsto> k\<lparr>c_subscriptions := [next_addr n]\<rparr>)"
  "out (requested c sk name k n) = out n @ [Send sk (frame (connect_tcp_message name))]"
  by (simp_all add: requested_def)

lemma heard_simps [simp]:
  "next_addr (heard s n) = next_addr n" "sock_tab (heard s n) = sock_tab n" "host_tab (heard s n) = host_tab n"
  "hosts (heard s n) = hosts n" "server_tab (heard s n) = server_tab n" "channels (heard s n) = channels n"
  "chan_tab (heard s n) = chan_tab n" "out (heard s n) = out n"
  "sub_tab (heard s n) s = Some ((the (sub_tab n s))\<lparr>sub_on_message := True\<rparr>)"
  by (simp_all add: heard_def)

lemma offersD:
  assumes "offers n m c k sk name v sv"
  shows "chan_tab m c = Some (k\<lparr>c_server := Some v\<rparr>)" "server_tab m v = Some sv"
    "server_tab n v = None \<or> c_server k = Some v" "\<exists>g. srv_on_open sv = AcceptSubscriptor c g" "\<not> srv_bStop sv"
    "int32 (srv_port sv)" "srv_port sv \<noteq> 0" "sock_tab m = sock_tab n" "host_tab m = host_tab n" "hosts m = hosts n"
    "sub_tab m = sub_tab n" "channels m = channels n" "only_on sk n m"
    "sent_on sk n m = frame (offer_tcp_message name (srv_port sv))"
  using assms by (auto simp: offers_def only_on_def extends_def sent_on_def sent_bytes_def)

lemma offers_find:
  assumes "offers n m c k sk name v sv" and "chan_tab n c = Some k"
  shows "chan_find m = chan_find n"
  using assms by (intro chan_find_same) (auto simp: offers_def)

lemma offers_feeds:
  assumes "offers n m c k sk name v sv" and "chan_tab n c = Some k"
  shows "writable m c = writable n c" "feeds m c t = feeds n c t"
proof -
  note same_targets [OF offersD(11,8) [OF assms(1)]]
  then show "writable m c = writable n c" "feeds m c t = feeds n c t"
    using offersD(1) [OF assms(1)] assms(2) by (simp_all add: writable_def feeds_def)
qed

text \<open>The publisher of the channel.\<close>

definition serving :: "network \<Rightarrow> nat \<Rightarrow> addr \<Rightarrow> string \<Rightarrow> bool" where
  "serving N a c name \<longleftrightarrow> chan_find (node_of N a) name = Some c \<and> writable (node_of N a) c
     \<and> (case chan_tab (node_of N a) c of None \<Rightarrow> False | Some k \<Rightarrow>
          case c_server k of None \<Rightarrow> True | Some v \<Rightarrow>
            v \<in> accepting (procs N a) \<and> (case server_tab (node_of N a) v of None \<Rightarrow> False | Some sv \<Rightarrow>
              int32 (srv_port sv) \<and> srv_port sv \<noteq> 0 \<and> \<not> srv_bStop sv \<and> (\<exists>g. srv_on_open sv = AcceptSubscriptor c g)))"

lemma servingD:
  assumes "serving N a c name" and "\<exists>port. scan_ports E 10000 20000 = Inr port"
  shows "can_serve E (node_of N a) c"
    and "\<exists>k. chan_tab (node_of N a) c = Some k \<and> (\<forall>v. c_server k = Some v \<longrightarrow> v \<in> accepting (procs N a))"
  using assms by (auto simp: serving_def can_serve_def split: option.splits)

text \<open>The calls of the subscriber, and the turn in which the publisher reads the request.\<close>

lemma request_run:
  assumes "snap N0 N b P sb [] a Q ta []" and "threads Q ta = Some Receiving" and "n = state P" and "m = state Q"
    and n: "mesh_wf n" "chans_live n" "chan_find n name = Some cb" "chan_tab n cb = Some (channel_of hb name)"
      "linked n hb sb" "is_local hb n = Inr False"
    and m: "mesh_wf m" "chans_live m" "chan_find m name = Some c" "chan_tab m c = Some k" "linked m ga ta"
      "can_serve (envs W a) m c" "\<forall>v. c_server k = Some v \<longrightarrow> v \<in> accepting Q"
    and "name_ok name"
  shows "\<exists>N1 N2 N3 P' Q' v sv. subscribe (envs W b) name n = Inr (next_addr n, node_of N1 b)
    \<and> net_call W b (Subscribe name) N N1 \<and> net_call W b (SubSetOnMessage (next_addr n)) N1 N2 \<and> net_step W N2 N3
    \<and> snap N0 N3 b P' sb (frame (offer_tcp_message name (srv_port sv))) a Q' ta []
    \<and> state P' = heard (next_addr n) (requested cb sb name (channel_of hb name) n)
    \<and> offers m (state Q') c k ta name v sv
    \<and> goes_on P P' \<and> goes_on Q Q' \<and> v \<in> accepting Q'"
proof -
  let ?n1 = "requested cb sb name (channel_of hb name) n" and ?s = "next_addr n"
  let ?n2 = "heard ?s ?n1" and ?req = "frame (connect_tcp_message name)"
  let ?P1 = "spawn n ?n1 P" and ?P2 = "spawn ?n1 ?n2 (spawn n ?n1 P)"
  obtain m1 v sv where m1: "thread_received (envs W a) ta ?req m = Inr m1" "offers m m1 c k ta name v sv"
    using request_answered [OF m(5,2-4,6) assms(18) m(1)] by blast
  let ?Q1 = "spawn m m1 Q" and ?off = "frame (offer_tcp_message name (srv_port sv))"
  have sub: "subscribe (envs W b) name n = Inr (?s, ?n1)"
    by (rule subscribe_remote [OF n(1-4) _ _ _ n(5,6)]) simp_all
  have ext: "extends n ?n1" "extends ?n1 ?n2" "extends m m1"
    using offersD(13) [OF m1(2)] by (simp_all add: extends_def only_on_def)
  have sent: "sent_on sb n ?n1 = ?req" "sent_on sb ?n1 ?n2 = []" by (simp_all add: sent_on_def sent_bytes_def)
  obtain N1 where N1: "net_call W b (Subscribe name) N N1" "snap N0 N1 b ?P1 sb [] a Q ta ?req"
    using snap_call [OF assms(1), of "Subscribe name" W ?n1] sub ext(1) sent(1) assms(3) by (auto simp: handle_def)
  have "handle (envs W b) (SubSetOnMessage ?s) ?n1 = Inr ?n2" by (simp add: handle_def heard_def)
  then obtain N2 where N2: "net_call W b (SubSetOnMessage ?s) N1 N2" "snap N0 N2 b ?P2 sb [] a Q ta ?req"
    using snap_call [OF N1(2), of "SubSetOnMessage ?s" W ?n2] ext(2) sent(2) by auto
  obtain so where so: "sock_tab m1 ta = Some so" "\<not> s_bStop so"
    using linked_sock [OF m(5)] offersD(8) [OF m1(2)] by auto
  have ne: "?req \<noteq> []" by (simp add: frame_def)
  obtain N3 where N3: "net_step W N2 N3" "snap N0 N3 a ?Q1 ta [] b ?P2 sb ?off"
    using snap_arrives [of N0 N2 a Q ta ?req "[]" b ?P2 sb "[]" W m1 so, OF _ assms(2) ne]
      snap_sym [OF N2(2)] m1(1) ext(3) so assms(4) offersD(14) [OF m1(2)] by auto
  have on: "goes_on P ?P1" "goes_on ?P1 ?P2" "goes_on Q ?Q1"
    by (rule goes_on_spawn(1); simp add: assms(3,4) offersD(8) [OF m1(2)])+
  have "goes_on P ?P2" using on(1,2) by (rule goes_on_trans)
  moreover have "v \<in> accepting ?Q1"
    using offersD(2,3) [OF m1(2)] m(7) by (auto simp: spawn_def)
  moreover have "node_of N1 b = ?n1" using N1(2) by (simp add: snap_def)
  ultimately show ?thesis
    using sub N1(1) N2(1) N3(1) snap_sym [OF N3(2)] on(3) m1(2)
    by (intro exI [of _ N1] exI [of _ N2] exI [of _ N3] exI [of _ ?P2] exI [of _ ?Q1] exI [of _ v] exI [of _ sv]) simp
qed

section \<open>The connection\<close>

lemma answered_simps [simp]:
  "next_addr (answered c s ip port k b n) = Suc (next_addr n)"
  "sock_tab (answered c s ip port k b n) = (sock_tab n)(next_addr n \<mapsto> dialling_sock s ip port)"
  "host_tab (answered c s ip port k b n) = host_tab n" "hosts (answered c s ip port k b n) = hosts n"
  "server_tab (answered c s ip port k b n) = server_tab n"
  "sub_tab (answered c s ip port k b n) s = Some (b\<lparr>sub_bConnected := False, sub_socket := Some (next_addr n),
     sub_transport := TRANSPORT_TCP\<rparr>)"
  "out (answered c s ip port k b n) = out n @ [Connect (next_addr n) ip port]"
  by (simp_all add: answered_def)

text \<open>The turn in which the subscriber reads the offer and dials.\<close>

lemma dial_run:
  assumes "net_reach W N0" and "snap N0 N b P sb (frame (offer_tcp_message name port)) a Q ta []"
    and "threads P sb = Some Receiving" and "n = state P"
    and n: "mesh_wf n" "chans_live n" "chan_find n name = Some cb" "chan_tab n cb = Some k" "c_publisher k = Some hb"
      "c_subscriptions k = [s]" "sub_tab n s = Some r" "\<not> sub_bConnected r" "sub_channel r = cb" "linked n hb sb"
      "host_tab n hb = Some hk" "resolves (envs W b) (c_str (h_ip hk))" "can_socket (envs W b)"
    and "sock_tab (node_of N0 b) (next_addr n) = None" and "name_ok name" and "int32 port" and "port \<noteq> 0"
  shows "\<exists>M P'. net_step W N M \<and> snap N0 M b P' sb [] a Q ta []
    \<and> state P' = answered cb s (c_str (h_ip hk)) port k r n \<and> goes_on P P'
    \<and> threads P' (next_addr n) = Some Dialling \<and> peer M (b, next_addr n) = None"
proof -
  let ?off = "frame (offer_tcp_message name port)" and ?n1 = "answered cb s (c_str (h_ip hk)) port k r n"
  let ?P1 = "spawn n ?n1 P" and ?sk = "next_addr n"
  have fresh: "sock_tab n ?sk = None" using n(1) by simp
  obtain so where so: "sock_tab n sb = Some so" "\<not> s_bStop so" using linked_sock [OF n(10)] by auto
  have ne: "?sk \<noteq> sb" using fresh so(1) by auto
  have read: "thread_received (envs W b) sb ?off n = Inr ?n1"
    by (rule offer_received [OF n(10,2-9,11-13) assms(19-21)])
  have "sent_on sb n ?n1 = []" "extends n ?n1" "?off \<noteq> []"
    by (simp_all add: sent_on_def sent_bytes_def extends_def frame_def)
  then obtain M where M: "net_step W N M" "snap N0 M b ?P1 sb [] a Q ta []"
    using snap_arrives [of N0 N b P sb ?off "[]" a Q ta "[]" W ?n1 so] assms(2-4) read so ne by auto
  have "(b, ?sk) \<noteq> (b, sb)" "(b, ?sk) \<noteq> (a, ta)" using ne M(2) by (auto simp: snap_def)
  from snap_frame [OF M(2) this] have "peer M (b, ?sk) = peer N0 (b, ?sk)" by (rule conjunct1)
  then have "peer M (b, ?sk) = None"
    using net_peer_socket [OF assms(1), of b ?sk] assms(18) by (cases "peer N0 (b, ?sk)") auto
  moreover have "goes_on P ?P1" by (rule goes_on_spawn(1)) (auto simp: assms(4))
  moreover have "threads ?P1 ?sk = Some Dialling"
    using fresh by (simp add: spawn_def dialling_sock_def TCPSocket_default_def)
  ultimately show ?thesis using M by (intro exI [of _ M] exI [of _ ?P1]) simp
qed

text \<open>The connection is made: the channel feeds the subscription.\<close>

lemma subscription_run:
  assumes "a \<noteq> b" and "threads (procs N b) sk = Some Dialling" and "peer N (b, sk) = None"
    and "reaches W N b sk a v" and "n = node_of N b" and "m = node_of N a"
    and n: "sock_tab n sk = Some so" "s_on_open so = OpenSub s" "s_cbRecv so = RecvSub s" "\<not> s_bLinebuffer so"
      "sub_tab n s = Some r" "sub_on_message r" "sub_socket r = Some sk" "sub_transport r = TRANSPORT_TCP"
    and m: "mesh_wf m" "server_tab m v = Some sv" "srv_on_open sv = AcceptSubscriptor c g" "\<not> srv_bStop sv"
      "chan_tab m c = Some k" "writable m c"
  shows "\<exists>M P Q so'. net_steps W N M \<and> snap N M b P sk [] a Q (next_addr m) []
    \<and> carries M a c b s [] \<and> writable (state Q) c \<and> (\<forall>t. feeds m c t \<longrightarrow> feeds (state Q) c t)
    \<and> state P = connected sk s so r n \<and> state Q = subscribed c g v k sv so' m
    \<and> goes_on (procs N b) P \<and> goes_on (procs N a) Q"
proof -
  let ?t = "next_addr m" and ?n1 = "connected sk s so r n"
  let ?so = "subscriptor_sock v c (Suc ?t) (shown W a b) 0"
  let ?m0 = "subscribed c g v k sv ?so m" and ?m1 = "subscribed c g v k sv (running ?so) m"
  note acc = subscriptor_accepted [OF m(2-5) refl]
  have opened: "thread_opened sk n = Inr ?n1" by (rule subscription_opened [OF n(1,2,5)])
  have tabs: "sock_tab ?m0 ?t = Some ?so" "\<not> s_isClient ?so" "out ?m0 = out m" "out ?m1 = out ?m0"
      "dom (sock_tab m) \<subseteq> dom (sock_tab ?m0)" "dom (sock_tab ?m0) \<subseteq> dom (sock_tab ?m1)"
      "sock_tab ?n1 sk = Some (running so)" "\<not> s_bStop (running so)" "out ?n1 = out n"
    by (auto simp: subscribed_def connected_def subscriptor_sock_def running_def)
  then have ext: "extends n ?n1" by (simp add: extends_def)
  have fresh: "sock_tab m ?t = None" using m(1) by simp
  let ?P = "spawn n ?n1 ((procs N b)\<lparr>threads := (threads (procs N b))(sk \<mapsto> Receiving)\<rparr>)"
  obtain M Q where M: "net_steps W N M" "snap N M b ?P sk [] a Q ?t (sent_on sk n ?n1)"
      "state Q = ?m1" "threads Q ?t = Some Receiving" "goes_on (procs N a) Q"
    using connection_made [OF assms(1) [symmetric] assms(2-6) refl fresh tabs(1,2) acc(1) tabs(3,5) acc(2)
        tabs(4,6) opened tabs(7,8) ext] by blast
  have "sent_on sk n ?n1 = []" by (simp add: sent_on_def tabs(9) sent_bytes_def)
  then have snap: "snap N M b ?P sk [] a Q ?t []" using M(2) by simp
  have "receives ?n1 s sk" using n by (simp add: receives_def connected_def running_def)
  moreover have subs: "list_all (tcp_sub m) (c_subscriptors k)" using m(5,6) by (simp add: writable_def)
  note feeds = subscribed_feeds [OF m(1,5) subs refl]
  have "writable ?m1 c" using feeds(3) by (simp add: writable_def subscribed_def)
  moreover have "threads ?P sk = Some Receiving" using n(1) by simp
  moreover have "procs M b = ?P" "state (procs M a) = ?m1" "peer M (b, sk) = Some (a, ?t)" "peer M (a, ?t) = Some (b, sk)"
      "wire M (b, sk) = []" "threads (procs M a) ?t = Some Receiving" using snap M(3,4) by (auto simp: snap_def)
  moreover have "wire M (a, ?t) = []" "listening ?m1 c ?t" "speaks ?n1 s sk" "Option.bind (sub_tab ?n1 s) sub_socket = Some sk"
    using snap n(7,8)
    by (simp_all add: snap_def listening_def speaks_def subscribed_def connected_def running_def subscriptor_sock_def
        TCPSocket_default_def)
  ultimately have "carries M a c b s []" "writable (state Q) c"
    using assms(1) M(3) feeds(1) by (auto intro!: carriesI [where t = ?t and sk = sk])
  moreover have "goes_on (procs N b) ?P"
    by (rule goes_on_spawn(2)) (auto simp: assms(5) connected_def)
  ultimately show ?thesis using M(1,3,5) snap feeds(2) by (intro exI [of _ M] exI [of _ ?P] exI [of _ Q]) auto
qed

section \<open>A subscriber joins\<close>

text \<open>A thread that was dialling and now feeds a subscription belonged to no link.\<close>

lemma connected_keeps_links:
  assumes "snap N M b P sk wi a Q t wj" and "state P = connected sk s so r (state (procs N b))"
    and "threads (procs N b) sk = Some Dialling" and "goes_on (procs N b) P" and "carries_on (procs N a) Q"
    and "sock_tab (node_of N a) t = None"
  shows "keeps_links N M"
proof -
  have "holds_link P x s'" if h: "holds_link (procs N b) x s'" for x s'
  proof (rule carries_on_link [OF h assms(4)])
    have "s' \<noteq> sk" using h assms(3) by (auto simp: holds_link_def)
    then show "sock_tab (state P) s' = sock_tab (node_of N b) s'" by (simp add: assms(2) connected_def)
  qed (simp_all add: assms(2) connected_def)
  moreover have "\<not> holds_link (procs N b) x sk" "\<not> holds_link (procs N a) x t" for x
    using assms(3,6) by (auto simp: holds_link_def elim: linkedE)
  ultimately show ?thesis
    using snap_keeps_links [OF assms(1)] carries_on_holds [OF assms(5)] unfolding keeps_links_def by blast
qed

text \<open>The offer is on its way: what follows up to the connected subscription.\<close>

lemma offer_connects:
  assumes "net_reach W N0" and "net_reach W N" and "a \<noteq> b"
    and "snap N0 N b P sb (frame (offer_tcp_message name port)) a Q ta []"
    and "threads P sb = Some Receiving" and "n = state P" and "m = state Q"
    and on: "carries_on (procs N0 b) P" "carries_on (procs N0 a) Q" "only_on sb (node_of N0 b) n" "only_on ta (node_of N0 a) m"
    and peers: "peer N0 (b, sb) = Some (a, ta)" "peer N0 (a, ta) = Some (b, sb)"
    and n: "chan_find n name = Some cb" "chan_tab n cb = Some k" "c_publisher k = Some hb"
      "c_subscriptions k = [s]" "sub_tab n s = Some r" "\<not> sub_bConnected r" "sub_channel r = cb" "linked n hb sb"
      "host_tab n hb = Some hk" "resolves (envs W b) (c_str (h_ip hk))" "can_socket (envs W b)"
      "a \<in> sees W b (c_str (h_ip hk))" "sub_on_message r"
    and "sock_tab (node_of N0 b) (next_addr n) = None" and "name_ok name" and "int32 port" and "port \<noteq> 0"
    and m: "server_tab m v = Some sv" "srv_port sv = port" "srv_on_open sv = AcceptSubscriptor c g"
      "\<not> srv_bStop sv" "v \<in> accepting Q" "chan_tab m c = Some k'" "writable m c"
  shows "\<exists>M so. net_steps W N M \<and> carries M a c b s [] \<and> node_of M a = subscribed c g v k' sv so m
    \<and> writable (node_of M a) c \<and> (\<forall>t. feeds m c t \<longrightarrow> feeds (node_of M a) c t) \<and> carries_on Q (procs M a)
    \<and> keeps_links N0 M \<and> (\<forall>k. k \<noteq> a \<longrightarrow> k \<noteq> b \<longrightarrow> untouched N0 M k)"
proof -
  let ?ip = "c_str (h_ip hk)" and ?sk = "next_addr n" and ?t = "next_addr m"
  let ?n1 = "answered cb s ?ip port k r n" and ?so = "dialling_sock s (c_str (h_ip hk)) port"
    and ?r1 = "r\<lparr>sub_bConnected := False, sub_socket := Some (next_addr n), sub_transport := TRANSPORT_TCP\<rparr>"
  have PQ: "procs N b = P" "procs N a = Q" using assms(4) by (simp_all add: snap_def)
  then have wf: "mesh_wf n" "chans_live n" "mesh_wf m"
    using net_reach_procs(3) [OF assms(2), of a] net_reach_procs(3) [OF assms(2), of b] assms(6,7) node_wf_chans
    by (auto simp: node_wfD)
  obtain M1 P1 where M1: "net_step W N M1" "snap N0 M1 b P1 sb [] a Q ta []" "state P1 = ?n1" "goes_on P P1"
      "threads P1 ?sk = Some Dialling" "peer M1 (b, ?sk) = None"
    using dial_run [OF assms(1,4-6) wf(1,2) n(1-11) assms(27-30)] by (elim exE conjE) (rule that)
  have node: "procs M1 b = P1" "procs M1 a = Q" "\<forall>k. k \<noteq> a \<longrightarrow> k \<noteq> b \<longrightarrow> procs M1 k = procs N0 k"
    using M1(2) by (simp_all add: snap_def)
  have reach: "net_reach W M1" using net_reach_step [OF assms(2) M1(1)] .
  have fresh: "peer M1 (a, ?t) = None" using net_peer_socket [OF reach, of a ?t] node(2) assms(7) wf(3)
    by (cases "peer M1 (a, ?t)") auto
  have P1: "carries_on P P1" "only_on sb n ?n1"
    using M1(3,4) assms(6) wf(1) by (auto simp: carries_on_def only_on_def extends_def sent_on_def sent_bytes_def)
  have quiet: "untouched N0 M1 k" if "k \<noteq> a" "k \<noteq> b" for k
    by (rule snap_untouched [OF M1(2)])
      (use that on(4) assms(7) M1(3) only_on_trans [OF on(3) P1(2)] peers in auto)
  have links1: "keeps_links N0 M1"
    unfolding keeps_links_def
    using snap_keeps_links [OF M1(2)] carries_on_holds [OF carries_on_trans [OF on(1) P1(1)]] carries_on_holds [OF on(2)] peers
    by blast
  have so: "sock_tab ?n1 ?sk = Some ?so" "s_on_open ?so = OpenSub s" "s_cbRecv ?so = RecvSub s" "\<not> s_bLinebuffer ?so"
      "sub_tab ?n1 s = Some ?r1"
    by (simp_all add: dialling_sock_def TCPSocket_default_def)
  have reaches: "reaches W M1 b ?sk a v"
    using n(12) m(1,2,5) node M1(3) assms(7) by (simp add: reaches_def dialling_sock_def)
  have at: "threads (procs M1 b) ?sk = Some Dialling" "?n1 = node_of M1 b" "m = node_of M1 a" "sub_on_message ?r1"
      "sub_socket ?r1 = Some ?sk" "sub_transport ?r1 = TRANSPORT_TCP"
    using M1(3,5) node assms(7) n(13) by simp_all
  obtain M2 P2 Q2 so' where M2: "net_steps W M1 M2" "snap M1 M2 b P2 ?sk [] a Q2 ?t []" "carries M2 a c b s []"
      "writable (state Q2) c" "\<forall>t. feeds m c t \<longrightarrow> feeds (state Q2) c t"
      "state P2 = connected ?sk s ?so ?r1 ?n1" "state Q2 = subscribed c g v k' sv so' m"
      "goes_on (procs M1 b) P2" "goes_on (procs M1 a) Q2"
    using subscription_run [OF assms(3) at(1) M1(6) reaches at(2,3) so at(4-6) wf(3) m(1,3,4,6,7)]
    by (elim exE conjE) (rule that)
  have Q2: "carries_on Q Q2" "procs M2 a = Q2" "only_on ?t m (state Q2)" "only_on ?sk ?n1 (state P2)"
    using M2(2,6,7,9) node(2) assms(7) wf(3)
    by (auto simp: carries_on_def subscribed_def connected_def snap_def only_on_def extends_def sent_on_def sent_bytes_def)
  have "keeps_links M1 M2"
    by (rule connected_keeps_links [OF M2(2) M2(6) [folded M1(3) node(1)] at(1) M2(8)])
      (use Q2(1) node(2) wf(3) assms(7) in simp_all)
  moreover have "untouched N0 M2 k" if "k \<noteq> a" "k \<noteq> b" for k
    by (rule untouched_trans [OF quiet [OF that] snap_untouched [OF M2(2)]]) (use that M1(3,6) fresh Q2(3,4) node assms(7) in auto)
  moreover have "net_steps W N M2" using M1(1) M2(1) by (rule converse_rtranclp_into_rtranclp)
  ultimately show ?thesis
    using M2(3-5,7) Q2(1,2) keeps_links_trans [OF links1]
    by (intro exI [of _ M2] exI [of _ so']) auto
qed

text \<open>A process that was told of the channel subscribes to it.\<close>

lemma subscriber_joins:
  assumes "net_reach W N" and "informed W N a b name" and "serving N a c name" and "name_ok name"
  shows "\<exists>s N1 N2 M. subscribe (envs W b) name (node_of N b) = Inr (s, node_of N1 b)
    \<and> net_call W b (Subscribe name) N N1 \<and> net_call W b (SubSetOnMessage s) N1 N2 \<and> net_steps W N2 M
    \<and> carries M a c b s [] \<and> serving M a c name
    \<and> (\<forall>t. feeds (node_of N a) c t \<longrightarrow> feeds (node_of M a) c t) \<and> carries_on (procs N a) (procs M a)
    \<and> keeps_links N M \<and> (\<forall>k. k \<noteq> a \<longrightarrow> k \<noteq> b \<longrightarrow> untouched N M k)"
proof -
  let ?n = "node_of N b" and ?m = "node_of N a"
  obtain hb sb ga ta cb where inf: "a \<noteq> b" "apart W N a b hb" "linked_up N b hb sb a ga ta" "wire N (b, sb) = []"
      "wire N (a, ta) = []" "chan_find ?n name = Some cb" "chan_tab ?n cb = Some (channel_of hb name)"
    using assms(2) by (auto simp: informed_def near_def)
  obtain hk where ap: "\<exists>port. scan_ports (envs W a) 10000 20000 = Inr port" "can_socket (envs W b)"
      "is_local hb ?n = Inr False" "host_tab ?n hb = Some hk" "resolves (envs W b) (c_str (h_ip hk))"
      "a \<in> sees W b (c_str (h_ip hk))"
    using inf(2) by (auto simp: apart_def split: option.splits)
  have wf: "mesh_wf ?n" "chans_live ?n" "mesh_wf ?m" "chans_live ?m"
    using net_reach_procs(3) [OF assms(1)] node_wf_chans by (simp_all add: node_wfD)
  have link: "linked ?n hb sb" "linked ?m ga ta" "threads (procs N b) sb = Some Receiving" "threads (procs N a) ta = Some Receiving"
      "peer N (b, sb) = Some (a, ta)" "peer N (a, ta) = Some (b, sb)"
    using inf(3) by (simp_all add: linked_up_def)
  obtain k where k: "chan_find ?m name = Some c" "writable ?m c" "can_serve (envs W a) ?m c" "chan_tab ?m c = Some k"
      "\<forall>v. c_server k = Some v \<longrightarrow> v \<in> accepting (procs N a)"
    using servingD [OF assms(3) ap(1)] assms(3) by (auto simp: serving_def)
  have snap: "snap N N b (procs N b) sb [] a (procs N a) ta []"
    using snap_self [OF inf(1) [symmetric] link(5,6)] inf(4,5) by simp
  let ?s = "next_addr ?n" and ?k = "channel_of hb name"
  let ?n2 = "heard ?s (requested cb sb name ?k ?n)"
  obtain N1 N2 N3 P Q v sv where N3: "subscribe (envs W b) name ?n = Inr (?s, node_of N1 b)"
      "net_call W b (Subscribe name) N N1" "net_call W b (SubSetOnMessage ?s) N1 N2" "net_step W N2 N3"
      "snap N N3 b P sb (frame (offer_tcp_message name (srv_port sv))) a Q ta []" "state P = ?n2"
      "offers ?m (state Q) c k ta name v sv" "goes_on (procs N b) P" "goes_on (procs N a) Q" "v \<in> accepting Q"
    using request_run [OF snap link(4) refl refl wf(1,2) inf(6,7) link(1) ap(3) wf(3,4) k(1,4) link(2) k(3,5) assms(4)]
    by (elim exE conjE) (rule that)
  note off = offersD [OF N3(7)]
  obtain g where g: "srv_on_open sv = AcceptSubscriptor c g" using off(4) by blast
  have steps: "net_steps W N N3" using N3(2-4) net_call_step by (meson converse_rtranclp_into_rtranclp r_into_rtranclp)
  have on: "carries_on (procs N b) P" "carries_on (procs N a) Q"
    using N3(8,9) off(8-10) by (simp_all add: carries_on_def N3(6))
  have only: "only_on sb ?n ?n2" by (auto simp: only_on_def extends_def sent_on_def sent_bytes_def)
  have recv: "threads P sb = Some Receiving"
    by (rule goes_on_receives [OF N3(8) link(3)]) (use linked_sock [OF link(1)] in auto)
  have "chan_find ?n2 = chan_find ?n" by (rule chan_find_same) (use inf(7) in auto)
  then have find: "chan_find ?n2 name = Some cb" using inf(6) by simp
  have link2: "linked ?n2 hb sb" using link(1) linked_same [of ?n2 hb ?n sb] by simp
  have fresh: "sock_tab (node_of N b) (next_addr ?n2) = None" using wf(1) by (auto simp: mesh_wf_defs)
  let ?r = "(local_sub cb (hd (hosts ?n)))\<lparr>sub_on_message := True\<rparr>"
  have tabs: "chan_tab ?n2 cb = Some (?k\<lparr>c_subscriptions := [?s]\<rparr>)" "sub_tab ?n2 ?s = Some ?r" "host_tab ?n2 hb = Some hk"
    using ap(4) by simp_all
  have wr: "writable (state Q) c" using k(2) offers_feeds(1) [OF N3(7) k(4)] by simp
  obtain M so where M: "net_steps W N3 M" "carries M a c b ?s []"
      "node_of M a = subscribed c g v (k\<lparr>c_server := Some v\<rparr>) sv so (state Q)" "writable (node_of M a) c"
      "\<forall>t. feeds (state Q) c t \<longrightarrow> feeds (node_of M a) c t" "carries_on Q (procs M a)"
      "keeps_links N M" "\<forall>k. k \<noteq> a \<longrightarrow> k \<noteq> b \<longrightarrow> untouched N M k"
    using offer_connects [OF assms(1) net_reach_steps [OF assms(1) steps] inf(1) N3(5) recv N3(6) [symmetric] refl
        on only off(13) link(5,6) find tabs(1) _ _ tabs(2) _ _ link2 tabs(3) ap(5,2,6) _ fresh assms(4) off(6,7,2)
        refl g off(5) N3(10) off(1) wr]
    by (auto simp: local_sub_def)
  have "chan_find (node_of M a) = chan_find ?m"
    unfolding M(3) offers_find [OF N3(7) k(4), symmetric]
    by (rule chan_find_same) (use off(1) in \<open>auto simp: subscribed_def\<close>)
  moreover have "v \<in> accepting (procs M a)" using N3(10) M(6) by (auto simp: carries_on_def goes_on_def)
  ultimately have "serving M a c name"
    using k(1) M(4) off(5-7) g by (simp add: serving_def) (simp add: M(3) subscribed_def)
  moreover have "net_steps W N2 M" using N3(4) M(1) by (rule converse_rtranclp_into_rtranclp)
  moreover have "\<forall>t. feeds ?m c t \<longrightarrow> feeds (node_of M a) c t" using M(5) offers_feeds(2) [OF N3(7) k(4)] by simp
  ultimately show ?thesis using N3(1-3) M(2,7,8) carries_on_trans [OF on(2) M(6)] by blast
qed

text \<open>The processes of \<open>xs\<close> subscribe one after the other and set a callback; each call returns the subscription.\<close>

fun net_subscribes :: "world \<Rightarrow> string \<Rightarrow> (nat \<times> addr) list \<Rightarrow> network \<Rightarrow> network \<Rightarrow> bool" where
  "net_subscribes W name [] N M \<longleftrightarrow> M = N"
| "net_subscribes W name ((b, s) # xs) N M \<longleftrightarrow> (\<exists>N1 N2 N3.
     subscribe (envs W b) name (node_of N b) = Inr (s, node_of N1 b)
     \<and> net_call W b (Subscribe name) N N1 \<and> net_call W b (SubSetOnMessage s) N1 N2 \<and> net_steps W N2 N3
     \<and> net_subscribes W name xs N3 M)"

lemma net_subscribes_steps: "net_subscribes W name xs N M \<Longrightarrow> net_steps W N M"
proof (induction W name xs N M rule: net_subscribes.induct)
  case (2 W name b s xs N M)
  then obtain N1 N2 N3 where N3: "net_call W b (Subscribe name) N N1" "net_call W b (SubSetOnMessage s) N1 N2"
      "net_steps W N2 N3" "net_subscribes W name xs N3 M" by auto
  have "net_steps W N2 M" using N3(3) 2(1) [OF N3(4)] by (rule rtranclp_trans)
  with N3(1,2) net_call_step show ?case by (meson converse_rtranclp_into_rtranclp)
qed simp

lemma subscribers_join:
  assumes "net_reach W N" and "serving N a c name" and "name_ok name" and "distinct bs"
    and "\<And>b. b \<in> set bs \<Longrightarrow> informed W N a b name"
  shows "\<exists>M xs. map fst xs = bs \<and> net_subscribes W name xs N M \<and> (\<forall>(b, s) \<in> set xs. carries M a c b s [])
    \<and> serving M a c name \<and> (\<forall>t. feeds (node_of N a) c t \<longrightarrow> feeds (node_of M a) c t) \<and> carries_on (procs N a) (procs M a)
    \<and> keeps_links N M \<and> (\<forall>k. k \<noteq> a \<longrightarrow> k \<notin> set bs \<longrightarrow> untouched N M k)"
  using assms(1,2,4,5)
proof (induction bs arbitrary: N)
  case Nil
  then show ?case by (intro exI [of _ N] exI [of _ "[]"]) simp
next
  case (Cons b bs)
  obtain s N1 N2 N3 where N3: "subscribe (envs W b) name (node_of N b) = Inr (s, node_of N1 b)"
      "net_call W b (Subscribe name) N N1" "net_call W b (SubSetOnMessage s) N1 N2" "net_steps W N2 N3"
      "carries N3 a c b s []" "serving N3 a c name" "\<forall>t. feeds (node_of N a) c t \<longrightarrow> feeds (node_of N3 a) c t"
      "carries_on (procs N a) (procs N3 a)" "keeps_links N N3" "\<forall>k. k \<noteq> a \<longrightarrow> k \<noteq> b \<longrightarrow> untouched N N3 k"
    using subscriber_joins [OF Cons.prems(1) Cons.prems(4) Cons.prems(2) assms(3), of b] by auto
  have reach: "net_reach W N3"
    using net_reach_steps [OF net_reach_step [OF net_reach_step [OF Cons.prems(1) net_call_step [OF N3(2)]]
        net_call_step [OF N3(3)]] N3(4)] .
  have ab: "a \<noteq> b" "b \<notin> set bs" "distinct bs" using N3(5) Cons.prems(3) by (auto dest: carries_apart)
  have "informed W N3 a x name" if x: "x \<in> set bs" for x
  proof -
    have "informed W N a x name" "x \<noteq> a" "x \<noteq> b"
      using Cons.prems(4) [of x] x ab(2) by (auto simp: informed_def near_def)
    then show ?thesis using informed_untouched [OF _ _ N3(8)] N3(10) by blast
  qed
  from Cons.IH [OF reach N3(6) ab(3) this] obtain M xs where M: "map fst xs = bs" "net_subscribes W name xs N3 M"
      "\<forall>(b, s) \<in> set xs. carries M a c b s []" "serving M a c name"
      "\<forall>t. feeds (node_of N3 a) c t \<longrightarrow> feeds (node_of M a) c t" "keeps_links N3 M"
      "\<forall>k. k \<noteq> a \<longrightarrow> k \<notin> set bs \<longrightarrow> untouched N3 M k" "carries_on (procs N3 a) (procs M a)"
    by blast
  have "carries M a c b s []"
    by (rule carries_untouched [OF N3(5)]) (use M(5,7,8) ab in auto)
  moreover have "net_subscribes W name ((b, s) # xs) N M" using N3(1-4) M(2) by auto
  moreover have "untouched N M k" if "k \<noteq> a" "k \<notin> set (b # bs)" for k
    by (rule untouched_trans [of N N3]) (use that N3(10) M(7) in auto)
  moreover have "keeps_links N M" using N3(9) M(6) by (rule keeps_links_trans)
  ultimately show ?case
    using M(1,3,4,5) N3(7) carries_on_trans [OF N3(8) M(8)]
    by (intro exI [of _ M] exI [of _ "(b, s) # xs"]) (simp del: net_subscribes.simps)
qed

section \<open>From one application to the others\<close>

lemma announced_serving:
  assumes "node_of M a = said os (announced p name A)" and "node_wf A" and "chan_find A name = None"
  shows "serving M a (next_addr A) name"
  using announced_finds(1) [OF node_wf_chans [OF assms(2)] assms(3), of p]
  by (simp add: serving_def writable_def assms(1)) (simp add: said_def)

text \<open>The network after publishing and subscribing.\<close>

lemma published_subscribed:
  assumes "net_reach W N" and "distinct bs" and "name_ok name" and "chan_find (node_of N a) name = None"
    and "\<forall>b \<in> set bs. chan_find (node_of N b) name = None \<and> (\<exists>h. near W N a b h [])"
  shows "\<exists>N1 N2 N3 c xs. publish (envs W a) name (node_of N a) = Inr (c, node_of N1 a)
    \<and> net_call W a (Publish name) N N1 \<and> net_steps W N1 N2 \<and> map fst xs = bs \<and> net_subscribes W name xs N2 N3
    \<and> (\<forall>(b, s) \<in> set xs. carries N3 a c b s []) \<and> serving N3 a c name \<and> keeps_links N N3
    \<and> (\<forall>k. k \<noteq> a \<longrightarrow> k \<notin> set bs \<longrightarrow> procs N3 k = procs N k)"
proof -
  let ?A = "node_of N a" and ?p = "hd (hosts (node_of N a))"
  let ?c = "next_addr ?A"
  have wf: "node_wf ?A" using net_reach_procs(3) [OF assms(1)] .
  have "hosts ?A \<noteq> []" using node_wfD(1) [OF wf] by (simp add: mesh_wf_def)
  then obtain mk where mk: "host_tab ?A ?p = Some mk" using mesh_wf_live [OF node_wfD(1) [OF wf], of ?p] by auto
  have ab: "a \<notin> set bs" using assms(5) by (auto simp: near_def)
  obtain N1 os where N1: "publish (envs W a) name ?A = Inr (?c, node_of N1 a)" "net_call W a (Publish name) N N1"
      "node_of N1 a = said os (announced ?p name ?A)" "keeps_links N N1" "\<forall>k. k \<noteq> a \<longrightarrow> procs N1 k = procs N k"
      "\<forall>b h. near W N a b h [] \<longrightarrow> (\<exists>k. near W N1 a b h (concat (replicate (Suc k) (frame (publish_message name mk)))))"
    using announce_call [where W = W, OF wf refl assms(4) refl mk] by (elim exE conjE) (rule that)
  have reach1: "net_reach W N1" using net_reach_step [OF assms(1) net_call_step [OF N1(2)]] .
  have told: "chan_find (node_of N1 b) name = None
      \<and> (\<exists>h k. near W N1 a b h (concat (replicate (Suc k) (frame (publish_message name mk)))))" if "b \<in> set bs" for b
    using that assms(5) N1(5,6) ab by (metis)
  have "\<exists>N2. net_steps W N1 N2 \<and> (\<forall>b \<in> set bs. informed W N2 a b name) \<and> keeps_links N1 N2
    \<and> (\<forall>k. k \<notin> set bs \<longrightarrow> procs N2 k = procs N1 k \<and> (k \<noteq> a \<longrightarrow> untouched N1 N2 k))"
  proof (cases "bs = []")
    case False
    then obtain h where "near W N a (hd bs) h []" using assms(5) by (cases bs) auto
    then have "NUL \<notin> set (h_ip mk)" "NL \<notin> set (h_ip mk)" using mk by (auto simp: near_def apart_def)
    from announcement_read_all [OF reach1 assms(3,2) this told] show ?thesis .
  qed (auto intro: exI [of _ N1])
  then obtain N2 where N2: "net_steps W N1 N2" "\<forall>b \<in> set bs. informed W N2 a b name" "keeps_links N1 N2"
      "\<forall>k. k \<notin> set bs \<longrightarrow> procs N2 k = procs N1 k \<and> (k \<noteq> a \<longrightarrow> untouched N1 N2 k)"
    by (elim exE conjE) (rule that)
  have serve: "serving N2 a ?c name"
    by (rule announced_serving [OF _ wf assms(4)]) (use N2(4) ab N1(3) in auto)
  obtain N3 xs where N3: "map fst xs = bs" "net_subscribes W name xs N2 N3" "\<forall>(b, s) \<in> set xs. carries N3 a ?c b s []"
      "serving N3 a ?c name" "keeps_links N2 N3" "\<forall>k. k \<noteq> a \<longrightarrow> k \<notin> set bs \<longrightarrow> untouched N2 N3 k"
    using subscribers_join [OF net_reach_steps [OF reach1 N2(1)] serve assms(3,2)] N2(2) by blast
  have "procs N3 k = procs N k" if "k \<noteq> a" "k \<notin> set bs" for k
    using that N3(6) N2(4) N1(5) untouched_procs [of N2 N3 k] by simp
  moreover have "keeps_links N N3" using keeps_links_trans N1(4) N2(3) N3(5) by blast
  ultimately show ?thesis
    using N1(1,2) N2(1) N3(1-4)
    by (intro exI [of _ N1] exI [of _ N2] exI [of _ N3] exI [of _ ?c] exI [of _ xs] conjI) (assumption | blast)+
qed


end
