(* ===== verification/Net_Stream.thy ===== *)
theory Net_Stream
  imports Net_Publish
begin

text \<open>
  The connections of the subscribers of a channel are streams: whatever the order in which the publisher
  writes, the subscribers read and other processes take their steps, and however the bytes are cut on
  the way, every subscriber is given the bytes that were written, in order, none lost and none twice.
\<close>

section \<open>The steps\<close>

text \<open>The thread of the socket of subscription \<open>s\<close> of process \<open>b\<close> reads some of what has arrived.\<close>

definition net_reads :: "world \<Rightarrow> nat \<Rightarrow> addr \<Rightarrow> network \<Rightarrow> network \<Rightarrow> bool" where
  "net_reads W b s N M \<longleftrightarrow> (\<exists>sk buf rest q m. Option.bind (sub_tab (node_of N b) s) sub_socket = Some sk
     \<and> threads (procs N b) sk = Some Receiving \<and> wire N (b, sk) = buf @ rest \<and> buf \<noteq> []
     \<and> sock_resume (envs W b) sk Receiving (Some buf) (node_of N b) = Inr (q, m)
     \<and> M = socket_turn b sk q m (N\<lparr>wire := (wire N)((b, sk) := rest)\<rparr>))"

lemma net_reads_step: "net_reads W b s N M \<Longrightarrow> net_step W N M"
  by (auto simp: net_reads_def intro: net_step.arrives)

text \<open>
  Process \<open>a\<close> writes messages to the channel \<open>c\<close>, the subscriptions \<open>xs\<close> read, and any step may happen
  in which neither \<open>a\<close> nor a process of \<open>xs\<close> changes.
\<close>

inductive net_stream :: "world \<Rightarrow> nat \<Rightarrow> addr \<Rightarrow> (nat \<times> addr) list \<Rightarrow> network \<Rightarrow> string list \<Rightarrow> network \<Rightarrow> bool"
  for W a c xs N where
  start: "net_stream W a c xs N [] N"
| written: "net_stream W a c xs N msgs M \<Longrightarrow> net_call W a (Write c msg) M L \<Longrightarrow> net_stream W a c xs N (msgs @ [msg]) L"
| read: "net_stream W a c xs N msgs M \<Longrightarrow> (b, s) \<in> set xs \<Longrightarrow> net_reads W b s M L \<Longrightarrow> net_stream W a c xs N msgs L"
| others: "net_stream W a c xs N msgs M \<Longrightarrow> net_step W M L \<Longrightarrow>
    \<forall>k \<in> insert a (fst ` set xs). procs L k = procs M k \<Longrightarrow> net_stream W a c xs N msgs L"

lemma net_stream_steps: "net_stream W a c xs N msgs M \<Longrightarrow> net_steps W N M"
proof (induction rule: net_stream.induct)
  case (written msgs M msg L)
  then show ?case using net_call_step rtranclp.rtrancl_into_rtrancl by metis
next
  case (read msgs M b s L)
  then show ?case using net_reads_step rtranclp.rtrancl_into_rtrancl by metis
next
  case (others msgs M L)
  then show ?case using rtranclp.rtrancl_into_rtrancl by metis
qed simp

section \<open>What each step does to a stream\<close>

lemma part_read:
  assumes "carries N a c b s w" and "net_reads W b s N M"
  shows "\<exists>buf rest. w = buf @ rest \<and> buf \<noteq> [] \<and> carries M a c b s rest
    \<and> out (node_of M b) = out (node_of N b) @ [DeliverSub s buf]
    \<and> (\<forall>k. k \<noteq> b \<longrightarrow> procs M k = procs N k \<and> (k \<noteq> a \<longrightarrow> untouched N M k))"
proof -
  obtain t sk where "stream_on N a c t b s sk w" using assms(1) by (rule carriesE)
  note * = stream_onD [OF this]
  obtain buf rest q m where r: "wire N (b, sk) = buf @ rest" "buf \<noteq> []"
      "sock_resume (envs W b) sk Receiving (Some buf) (node_of N b) = Inr (q, m)"
      "M = socket_turn b sk q m (N\<lparr>wire := (wire N)((b, sk) := rest)\<rparr>)"
    using assms(2) *(7) by (auto simp: net_reads_def)
  let ?m = "said [DeliverSub s buf] (node_of N b)"
  obtain so where so: "sock_tab (node_of N b) sk = Some so" "\<not> s_bStop so"
    using *(8) by (auto simp: receives_def split: option.splits)
  have "q = Some Receiving" "m = ?m"
    using turn_receives [OF receives_delivers [OF *(8)] _ _ r(2)] so r(3) by auto
  note turn = quiet_turn [OF *(5) _ _ r(4) [unfolded this], of "[DeliverSub s buf]"]
  have M: "procs M = (procs N)(b := spawn (node_of N b) ?m (procs N b))" "peer M = peer N"
      "wire M = (wire N)((b, sk) := rest)"
    using turn by (simp_all add: sent_bytes_def)
  have "carries M a c b s rest"
    using * so(1) by (intro carriesI [where t = t and sk = sk]) (simp_all add: M)
  moreover have "untouched N M k" if "k \<noteq> b" "k \<noteq> a" for k
    using that *(2) by (auto simp: untouched_def M)
  ultimately show ?thesis using r(1,2) *(4) M(1) by (intro exI [of _ buf] exI [of _ rest]) simp
qed

text \<open>Whatever part of what is on the way can be read.\<close>

lemma carries_reads:
  assumes "carries N a c b s (buf @ rest)" and "buf \<noteq> []"
  shows "\<exists>M. net_reads W b s N M"
proof -
  obtain t sk where "stream_on N a c t b s sk (buf @ rest)" using assms(1) by (rule carriesE)
  note * = stream_onD [OF this]
  obtain so where so: "sock_tab (node_of N b) sk = Some so" "\<not> s_bStop so"
    using *(8) by (auto simp: receives_def split: option.splits)
  have "sock_resume (envs W b) sk Receiving (Some buf) (node_of N b)
      = Inr (Some Receiving, said [DeliverSub s buf] (node_of N b))"
    by (rule turn_receives [OF receives_delivers [OF *(8)] _ so(2) assms(2)]) (simp add: so(1))
  with *(4,5,7) assms(2) show ?thesis unfolding net_reads_def by blast
qed

text \<open>A step in which neither end changes leaves the connection as it is.\<close>

lemma advance_same:
  assumes "peer N q = Some (a, t)" and "procs (advance i P N) a = procs N a"
  shows "wire (advance i P N) q = wire N q"
proof (cases "i = a")
  case True
  then have "state P = node_of N a" using assms(2) by simp
  then show ?thesis using assms(1) True by (simp add: advance_def)
qed (use assms(1) in \<open>simp add: advance_def\<close>)

lemma turn_same:
  assumes "M = socket_turn i x q m (N\<lparr>wire := w\<rparr>)" and "procs M a = procs N a" and "procs M b = procs N b"
    and "peer N (b, sk) = Some (a, t)" and "peer N (a, t) = Some (b, sk)"
    and "threads (procs N b) sk = Some Receiving" and "threads (procs N a) t = Some Receiving"
    and "sock_tab (node_of N b) sk \<noteq> None" and "sock_tab (node_of N a) t \<noteq> None"
  shows "peer M (b, sk) = Some (a, t) \<and> peer M (a, t) = Some (b, sk) \<and> wire M (b, sk) = w (b, sk) \<and> wire M (a, t) = w (a, t)"
proof -
  let ?P = "spawn (node_of N i) m ((procs N i)\<lparr>threads := (threads (procs N i))(x := q)\<rparr>)"
  have procs: "procs M i = ?P" by (simp add: assms(1))
  have on: "q = Some Receiving" if "(i, x) = (b, sk) \<or> (i, x) = (a, t)"
  proof -
    have "threads (procs M i) x = q" using procs that assms(8,9) by auto
    then show ?thesis using that assms(2,3,6,7) by auto
  qed
  then have "peer M (b, sk) = Some (a, t)" "peer M (a, t) = Some (b, sk)"
    using assms(1,4,5) by (auto simp: socket_turn_def Let_def)
  moreover have "wire M = wire (advance i ?P (N\<lparr>wire := w\<rparr>))"
    by (simp add: assms(1) socket_turn_def Let_def)
  then have "wire M (b, sk) = w (b, sk)" "wire M (a, t) = w (a, t)"
    using advance_same [of "N\<lparr>wire := w\<rparr>" "(b, sk)" a t i ?P] advance_same [of "N\<lparr>wire := w\<rparr>" "(a, t)" b sk i ?P] assms(1-5)
    by simp_all
  ultimately show ?thesis by simp
qed

lemma joined_same:
  "q \<notin> {(i, x), (j, t)} \<Longrightarrow> peer (joined i x j t N) q = peer N q \<and> wire (joined i x j t N) q = wire N q"
  by (simp add: joined_def)

lemma carries_same:
  assumes "net_reach W N" and "carries N a c b s w" and "net_step W N M"
    and "procs M a = procs N a" and "procs M b = procs N b"
  shows "carries M a c b s w"
proof -
  obtain t sk where "stream_on N a c t b s sk w" using assms(2) by (rule carriesE)
  note * = stream_onD [OF this]
  obtain so where so: "sock_tab (node_of N b) sk = Some so" "\<not> s_bStop so"
    using *(8) by (auto simp: receives_def split: option.splits)
  have live: "sock_tab (node_of N b) sk \<noteq> None" using so(1) by simp
  note same = turn_same [OF _ assms(4,5) *(2,3,5,6) live *(10)]
  have "peer M (b, sk) = Some (a, t) \<and> peer M (a, t) = Some (b, sk) \<and> wire M (b, sk) = w \<and> wire M (a, t) = []"
    using assms(3)
  proof (cases rule: net_step.cases)
    case (call e i m)
    then show ?thesis using *(2-4,11) advance_same [OF *(2), of i] advance_same [OF *(3), of i] assms(4,5) by simp
  next
    case (started i x q m)
    have "N\<lparr>wire := wire N\<rparr> = N" by simp
    then show ?thesis using same [of i x q m "wire N"] started(1) *(4,11) by simp
  next
    case (accept i x j v t' p goes m)
    have "peer N (j, t') = None" using accept(5) net_peer_socket [OF assms(1), of j t'] net_reach_procs(3) [OF assms(1), of j]
      by (cases "peer N (j, t')") (auto simp: node_wfD)
    then have ne: "(b, sk) \<notin> {(i, x), (j, t')}" "(a, t) \<notin> {(i, x), (j, t')}" using accept(3) *(2,3) by auto
    moreover obtain P where M: "M = joined i x j t' (advance j P N)" using accept(1) by blast
    moreover have "wire (advance j P N) (b, sk) = w" "wire (advance j P N) (a, t) = []"
      using advance_same [OF *(2), of j P] advance_same [OF *(3), of j P] assms(4,5) M *(4,11) by simp_all
    ultimately show ?thesis
      using *(2,3) joined_same [OF ne(1), of "advance j P N"] joined_same [OF ne(2), of "advance j P N"]
      by (simp only: advance_simps)
  next
    case (opened i x q m)
    have "N\<lparr>wire := wire N\<rparr> = N" by simp
    then show ?thesis using same [of i x q m "wire N"] opened(1) *(4,11) by simp
  next
    case (arrives i x buf rest q m)
    have "(i, x) \<noteq> (b, sk)"
    proof
      assume eq: "(i, x) = (b, sk)"
      then have "m = said [DeliverSub s buf] (node_of N b)"
        using turn_receives [OF receives_delivers [OF *(8)] _ _ arrives(4)] so arrives(5) by auto
      then have "node_of M b = said [DeliverSub s buf] (node_of N b)" using arrives(1) eq by simp
      then have "out (node_of M b) = out (node_of N b) @ [DeliverSub s buf]" by simp
      then show False using assms(5) by simp
    qed
    moreover have "(i, x) \<noteq> (a, t)" using arrives(3,4) *(11) by auto
    ultimately show ?thesis using same [OF arrives(1)] *(4,11) by auto
  next
    case (ends i x q m)
    have "N\<lparr>wire := wire N\<rparr> = N" by simp
    then show ?thesis using same [of i x q m "wire N"] ends(1) *(4,11) by simp
  qed
  then show ?thesis using * assms(4,5) by (intro carriesI [where t = t and sk = sk]) simp_all
qed

section \<open>First in, first out\<close>

text \<open>What the subscription \<open>s\<close> of \<open>b\<close> was given since \<open>N\<close>, and what is on the way to it, are the messages.\<close>

definition fifo :: "network \<Rightarrow> network \<Rightarrow> nat \<Rightarrow> addr \<Rightarrow> nat \<Rightarrow> addr \<Rightarrow> string list \<Rightarrow> bool" where
  "fifo N M a c b s msgs \<longleftrightarrow> (\<exists>ds w. out (node_of M b) = out (node_of N b) @ map (DeliverSub s) ds
     \<and> [] \<notin> set ds \<and> carries M a c b s w \<and> concat msgs = concat ds @ w)"

lemma fifo_apart: "fifo N M a c b s msgs \<Longrightarrow> a \<noteq> b"
  by (auto simp: fifo_def dest: carries_apart)

lemma fifo_written:
  assumes "fifo N M a c b s msgs" and "net_call W a (Write c msg) M L"
  shows "fifo N L a c b s (msgs @ [msg])"
proof -
  obtain ds w where w: "out (node_of M b) = out (node_of N b) @ map (DeliverSub s) ds"
      "[] \<notin> set ds" "carries M a c b s w" "concat msgs = concat ds @ w" using assms(1) by (auto simp: fifo_def)
  have "procs L b = procs M b" using assms(2) carries_apart [OF w(3)] by (auto simp: net_call_def)
  then show ?thesis
    using w message_carried [OF w(3) assms(2)] unfolding fifo_def by (intro exI [of _ ds] exI [of _ "w @ msg"]) simp
qed

lemma fifo_read:
  assumes "fifo N M a c b s msgs" and "net_reads W b s M L"
  shows "fifo N L a c b s msgs" and "\<forall>k. k \<noteq> b \<longrightarrow> procs L k = procs M k \<and> (k \<noteq> a \<longrightarrow> untouched M L k)"
proof -
  obtain ds w where w: "out (node_of M b) = out (node_of N b) @ map (DeliverSub s) ds"
      "[] \<notin> set ds" "carries M a c b s w" "concat msgs = concat ds @ w" using assms(1) by (auto simp: fifo_def)
  obtain buf rest where r: "w = buf @ rest" "buf \<noteq> []" "carries L a c b s rest"
      "out (node_of L b) = out (node_of M b) @ [DeliverSub s buf]"
      "\<forall>k. k \<noteq> b \<longrightarrow> procs L k = procs M k \<and> (k \<noteq> a \<longrightarrow> untouched M L k)"
    using part_read [OF w(3) assms(2)] by blast
  show "fifo N L a c b s msgs"
    unfolding fifo_def using w r(1-4) by (intro exI [of _ "ds @ [buf]"] exI [of _ rest]) simp
  show "\<forall>k. k \<noteq> b \<longrightarrow> procs L k = procs M k \<and> (k \<noteq> a \<longrightarrow> untouched M L k)" by (rule r(5))
qed

lemma fifo_same:
  assumes "fifo N M a c b s msgs" and "\<And>w. carries M a c b s w \<Longrightarrow> carries L a c b s w" and "procs L b = procs M b"
  shows "fifo N L a c b s msgs"
  using assms unfolding fifo_def by metis

lemma stream_invariant:
  assumes "net_reach W N" and "distinct (map fst xs)" and "\<forall>(b, s) \<in> set xs. carries N a c b s []"
    and "net_stream W a c xs N msgs M" and "(b, s) \<in> set xs"
  shows "fifo N M a c b s msgs"
  using assms(4,5)
proof (induction arbitrary: b s rule: net_stream.induct)
  case start
  then show ?case using assms(3) by (fastforce simp: fifo_def)
next
  case (written msgs M msg L)
  then show ?case using fifo_written by blast
next
  case (read msgs M x r L)
  note rx = fifo_read [OF read.IH [OF read(2)] read(3)]
  show ?case
  proof (cases "b = x")
    case True
    then show ?thesis using read(2,5) assms(2) rx(1) by (metis eq_key_imp_eq_value)
  next
    case False
    have "carries L a c b s w" if "carries M a c b s w" for w
      using carries_untouched [OF that, of L] rx(2) False fifo_apart [OF read.IH [OF read(2)]] carries_apart [OF that] by auto
    then show ?thesis using fifo_same [OF read.IH [OF read(5)]] rx(2) False by blast
  qed
next
  case (others msgs M L)
  have b: "procs L b = procs M b" "procs L a = procs M a" using others(3,5) by force+
  have reach: "net_reach W M" using net_reach_steps [OF assms(1) net_stream_steps [OF others(1)]] .
  show ?case using fifo_same [OF others.IH [OF others(5)] carries_same [OF reach _ others(2) b(2,1)] b(1)] by blast
qed

text \<open>
  C4: the channel is a FIFO queue for each of its subscribers. The connections of the subscriptions \<open>xs\<close>
  carry the channel, nothing being on the way. Then in every run in which \<open>a\<close> writes any messages to
  the channel, the subscribers read, in pieces cut anywhere, and the other processes do what they
  like, the chunks given to the callback of each subscriber make up an initial part of the
  concatenation of the messages written, in order, and never is an empty chunk delivered; and from
  where the run has come the network can go on so that each has been given all of it. (Where one
  message ends and the next begins is not kept: what was written twice may be read at once.)
\<close>

theorem channel_is_fifo:
  assumes "net_reach W N" and "distinct (map fst xs)" and "\<forall>(b, s) \<in> set xs. carries N a c b s []"
    and "net_stream W a c xs N msgs M"
  shows "(\<forall>(b, s) \<in> set xs. \<exists>ds rest. out (node_of M b) = out (node_of N b) @ map (DeliverSub s) ds
      \<and> [] \<notin> set ds \<and> concat msgs = concat ds @ rest)
    \<and> (\<exists>L. net_steps W M L \<and> (\<forall>(b, s) \<in> set xs. \<exists>ds. out (node_of L b) = out (node_of N b) @ map (DeliverSub s) ds
      \<and> concat ds = concat msgs))"
proof -
  have inv: "\<forall>(b, s) \<in> set xs. \<exists>ds w. out (node_of M b) = out (node_of N b) @ map (DeliverSub s) ds
      \<and> [] \<notin> set ds \<and> carries M a c b s w \<and> concat msgs = concat ds @ w"
    using stream_invariant [OF assms] unfolding fifo_def by blast
  obtain w ds where w: "\<forall>(b, s) \<in> set xs. out (node_of M b) = out (node_of N b) @ map (DeliverSub s) (ds (b, s))
      \<and> carries M a c b s (w (b, s)) \<and> concat msgs = concat (ds (b, s)) @ w (b, s)"
  proof -
    have "\<forall>x. \<exists>d. x \<in> set xs \<longrightarrow> out (node_of M (fst x)) = out (node_of N (fst x)) @ map (DeliverSub (snd x)) (fst d)
        \<and> carries M a c (fst x) (snd x) (snd d) \<and> concat msgs = concat (fst d) @ snd d"
      using inv by fastforce
    then obtain f where "\<forall>x. x \<in> set xs \<longrightarrow> out (node_of M (fst x)) = out (node_of N (fst x)) @ map (DeliverSub (snd x)) (fst (f x))
        \<and> carries M a c (fst x) (snd x) (snd (f x)) \<and> concat msgs = concat (fst (f x)) @ snd (f x)"
      by metis
    then show ?thesis using that [of "fst \<circ> f" "snd \<circ> f"] by fastforce
  qed
  obtain L where L: "net_steps W M L"
      "\<forall>(b, s) \<in> set xs. out (node_of L b) = out (node_of M b) @ delivery s (w (b, s))"
    using streams_read [of xs M a c w W] w assms(2) by fastforce
  have "\<exists>ds. out (node_of L b) = out (node_of N b) @ map (DeliverSub s) ds \<and> concat ds = concat msgs"
    if m: "(b, s) \<in> set xs" for b s
    using bspec [OF w m] bspec [OF L(2) m]
    by (intro exI [of _ "ds (b, s) @ (if w (b, s) = [] then [] else [w (b, s)])"]) (auto simp: delivery_def)
  then show ?thesis using inv L(1) by fast
qed

end
