(* ===== verification/Net_Reply.thy ===== *)
theory Net_Reply
  imports Net_Publish
begin

text \<open>
  The other direction: what the subscribers write to their subscriptions arrives at the callback the
  publisher has set for the channel.
\<close>

section \<open>The callback of the channel\<close>

text \<open>The callback is set; the streams go on.\<close>

lemma callback_set:
  assumes "carries N a c b s w"
  shows "\<exists>M. net_call W a (SetOnMessage c) N M \<and> map_option c_on_message (chan_tab (node_of M a) c) = Some True
    \<and> (\<forall>b s w. carries N a c b s w \<longrightarrow> carries M a c b s w) \<and> (\<forall>k. k \<noteq> a \<longrightarrow> procs M k = procs N k)"
proof -
  let ?A = "node_of N a"
  obtain k where k: "chan_tab ?A c = Some k" using assms
    by (auto elim!: carriesE dest!: stream_onD(9) simp: feeds_def split: option.splits)
  let ?m = "?A\<lparr>chan_tab := (chan_tab ?A)(c \<mapsto> k\<lparr>c_on_message := True\<rparr>)\<rparr>"
  let ?M = "advance a (spawn ?A ?m (procs N a)) N"
  have call: "net_call W a (SetOnMessage c) N ?M" using k by (simp add: net_call_def handle_def)
  have none: "sent_on x ?A ?m = []" for x by (simp add: sent_on_def)
  have wires: "wire ?M = wire N"
    by (intro ext) (simp add: advance_def none split: option.split prod.split)
  have feeds: "feeds ?m c t = feeds ?A c t" for t
    using same_targets [of ?m ?A] by (simp add: feeds_def k)
  have "carries ?M a c b s w" if st: "carries N a c b s w" for b s w
  proof -
    obtain t sk where "stream_on N a c t b s sk w" using st by (rule carriesE)
    note * = stream_onD [OF this]
    have "listening ?m c t" using *(13) listening_same [of ?m t ?A] by simp
    then show ?thesis
      using * by (intro carriesI [where t = t and sk = sk]) (simp_all add: wires feeds)
  qed
  then show ?thesis using call k by (intro exI [of _ ?M]) simp
qed

section \<open>A reply\<close>

lemma reply_run:
  assumes "carries N a c b s w" and "map_option c_on_message (chan_tab (node_of N a) c) = Some True" and "msg \<noteq> []"
  shows "\<exists>N1 M. net_call W b (SubWrite s msg) N N1 \<and> net_step W N1 M \<and> carries M a c b s w
    \<and> node_of M a = said [DeliverChannel c msg] (node_of N a) \<and> carries_on (procs N a) (procs M a)
    \<and> (\<forall>k. k \<noteq> a \<longrightarrow> k \<noteq> b \<longrightarrow> untouched N M k)"
proof -
  obtain t sk where "stream_on N a c t b s sk w" using assms(1) by (rule carriesE)
  note * = stream_onD [OF this]
  let ?A = "node_of N a" and ?B = "node_of N b"
  let ?B1 = "said [Send sk msg] ?B" and ?A1 = "said [DeliverChannel c msg] ?A"
  let ?N1 = "advance b (spawn ?B ?B1 (procs N b)) N"
  have call: "net_call W b (SubWrite s msg) N ?N1"
    using speaks_writes [OF *(12)] by (simp add: net_call_def handle_def)
  have sent: "sent_bytes x [Send sk msg] = (if x = sk then msg else [])" for x by (simp add: sent_bytes_def)
  have wires: "wire ?N1 q = wire N q @ (if q = (a, t) then msg else [])" for q
    using *(2,3) by (auto simp: advance_def sent split: option.split)
  obtain so where so: "sock_tab ?A t = Some so" "\<not> s_bStop so"
    using *(13) by (auto simp: listening_def split: option.splits)
  have at: "threads (procs ?N1 a) t = Some Receiving" "wire ?N1 (a, t) = msg" "node_of ?N1 a = ?A"
    using *(1,6,11) wires by simp_all
  have "thread_received (envs W a) t msg (node_of ?N1 a) = Inr ?A1"
    using listening_delivers [OF *(13) assms(2)] *(1) by simp
  from reads [OF at(1,2) assms(3) this, of so "[DeliverChannel c msg]"] so at(3) obtain M where M: "net_step W ?N1 M"
      "procs M = (procs ?N1)(a := spawn ?A ?A1 (procs ?N1 a))" "peer M = peer N" "wire M = (wire ?N1)((a, t) := [])"
    by (auto simp: sent_bytes_def)
  have same: "wire M q = wire N q" for q using wires *(11) by (cases "q = (a, t)") (simp_all add: M(4))
  have procs: "procs M a = spawn ?A ?A1 (procs N a)" "procs M b = spawn ?B ?B1 (procs N b)"
      "\<forall>k. k \<noteq> a \<longrightarrow> k \<noteq> b \<longrightarrow> procs M k = procs N k"
    using *(1) by (simp_all add: M(2))
  obtain so' where so': "sock_tab ?B sk = Some so'" using *(12) by (auto simp: speaks_def)
  have "carries M a c b s w"
    using * so(1) so' by (intro carriesI [where t = t and sk = sk]) (simp_all add: M(3) same procs)
  moreover have "untouched N M k" if "k \<noteq> a" "k \<noteq> b" for k
    using that procs(3) by (simp add: untouched_def M(3) same)
  moreover have "carries_on (procs N a) (procs M a)"
    by (auto simp: carries_on_def procs intro: goes_on_spawn)
  ultimately show ?thesis
    using call M(1) procs(1) by (intro exI [of _ ?N1] exI [of _ M]) simp
qed

text \<open>The replies \<open>rs\<close>, each a subscription of a process and what the process writes to it.\<close>

fun net_replies :: "world \<Rightarrow> (nat \<times> addr \<times> string) list \<Rightarrow> network \<Rightarrow> network \<Rightarrow> bool" where
  "net_replies W [] N M = net_steps W N M"
| "net_replies W ((b, s, msg) # rs) N M = (\<exists>N1 N2. net_call W b (SubWrite s msg) N N1 \<and> net_steps W N1 N2
     \<and> net_replies W rs N2 M)"

lemma reply_all:
  assumes "\<And>b s. (b, s) \<in> set xs \<Longrightarrow> carries N a c b s []" and "distinct (map fst xs)"
    and "map_option c_on_message (chan_tab (node_of N a) c) = Some True"
    and "\<forall>(b, s, msg) \<in> set rs. (b, s) \<in> set xs \<and> msg \<noteq> []"
  shows "\<exists>M. net_replies W rs N M \<and> (\<forall>(b, s) \<in> set xs. carries M a c b s [])
    \<and> node_of M a = said (map (\<lambda>(b, s, msg). DeliverChannel c msg) rs) (node_of N a)"
  using assms(1,3,4)
proof (induction rs arbitrary: N)
  case Nil
  have "said [] n = n" for n by (simp add: said_def)
  then show ?case using Nil by (intro exI [of _ N]) auto
next
  case (Cons r rs)
  obtain b s msg where r: "r = (b, s, msg)" by (cases r)
  then have m: "(b, s) \<in> set xs" "msg \<noteq> []" using Cons.prems(3) by auto
  obtain N1 N2 where N2: "net_call W b (SubWrite s msg) N N1" "net_step W N1 N2" "carries N2 a c b s []"
      "node_of N2 a = said [DeliverChannel c msg] (node_of N a)" "carries_on (procs N a) (procs N2 a)"
      "\<forall>k. k \<noteq> a \<longrightarrow> k \<noteq> b \<longrightarrow> untouched N N2 k"
    using reply_run [OF Cons.prems(1) [OF m(1)] Cons.prems(2) m(2), of W] by (elim exE conjE) (rule that)
  have "carries N2 a c b' s' []" if m': "(b', s') \<in> set xs" for b' s'
  proof (cases "b' = b")
    case True
    then show ?thesis using m' m(1) assms(2) N2(3) by (metis eq_key_imp_eq_value)
  next
    case False
    have "b' \<noteq> a" using carries_apart [OF Cons.prems(1) [OF m']] by simp
    then show ?thesis
      using carries_untouched [OF Cons.prems(1) [OF m'], of N2] N2(4-6) False by simp
  qed
  from Cons.IH [OF this] obtain M where M: "net_replies W rs N2 M" "\<forall>(b, s) \<in> set xs. carries M a c b s []"
      "node_of M a = said (map (\<lambda>(b, s, msg). DeliverChannel c msg) rs) (node_of N2 a)"
    using N2(4) Cons.prems(2,3) by auto
  have "net_steps W N1 N2" using N2(2) by (rule r_into_rtranclp)
  then have "net_replies W (r # rs) N M" using N2(1) M(1) r by auto
  moreover have "said es (said [e] n) = said (e # es) n" for es e n by (simp add: said_def)
  ultimately show ?case using M(2,3) N2(4) r by (intro exI [of _ M]) (simp del: net_replies.simps)
qed


end
