(* ===== verification/Demo_Publish.thy ===== *)
theory Demo_Publish
  imports Demo_Network Net_Stream Net_Reply
begin

text \<open>
  Two processes on two machines: the second adds the first as a host, they shake hands and read each
  other's host lists; then the first publishes a channel and the second subscribes to it.
\<close>

section \<open>Two machines\<close>

definition far_env :: env where
  "far_env = \<lparr>resolves = (\<lambda>_. True), can_socket = True, can_bind = (\<lambda>_. True),
     rand_value = 7, shm_create = (\<lambda>_ _. []), shm_open = (\<lambda>_ _. []), shm_attach = (\<lambda>_. [])\<rparr>"

definition far_ip :: "nat \<Rightarrow> string" where
  "far_ip i = (if i = 0 then ''10.0.0.1'' else ''10.0.0.2'')"

definition far_world :: world where
  "far_world = \<lparr>envs = (\<lambda>_. far_env), sees = (\<lambda>_ x. if x = far_ip 0 then {0} else if x = far_ip 1 then {1} else {}),
     shown = (\<lambda>_. far_ip)\<rparr>"

definition far_boot :: node where
  "far_boot = booted far_env 12212"

definition far_joined :: node where
  "far_joined = far_boot\<lparr>hosts := [1, 2],
     host_tab := (host_tab far_boot)(2 \<mapsto> connecting_host (far_ip 0) 12212 3),
     sock_tab := [3 \<mapsto> connecting_sock (far_ip 0) 12212 2], next_addr := 4,
     out := [Listen 0 12212, Connect 3 (far_ip 0) 12212]\<rparr>"

definition far_start :: network where
  "far_start = \<lparr>procs = (\<lambda>i. spawn empty_node far_boot no_process), peer = (\<lambda>_. None), wire = (\<lambda>_. [])\<rparr>"

text \<open>The second process has added the first.\<close>

definition far_net :: network where
  "far_net = advance 1 (spawn far_boot far_joined (spawn empty_node far_boot no_process)) far_start"

lemma far_ips [simp]: "c_str (far_ip i) = far_ip i" "localize (far_ip i) = far_ip i"
    "NUL \<notin> set (far_ip i)" "NL \<notin> set (far_ip i)" "CHR '':'' \<notin> set (far_ip i)" "far_ip 0 \<noteq> far_ip (Suc 0)"
    "far_ip i \<noteq> ''localhost''" "''localhost'' \<noteq> far_ip i" "far_ip i \<noteq> ''0.0.0.0''"
  by (simp_all add: far_ip_def c_str_def NUL_def NL_def localize_def)

lemma far_init: "init far_env empty_node = Inr far_boot"
proof -
  have "scan_ports far_env SIGNALING_DEFAULT_PORT (SIGNALING_DEFAULT_PORT + 64) = Inr 12212"
    by (auto simp: scan_ports_Inr_iff server_bind_def far_env_def SIGNALING_DEFAULT_PORT_def)
  from init_booted [OF this] show ?thesis by (simp add: far_boot_def SIGNALING_DEFAULT_PORT_def)
qed

lemma far_boot_wf: "node_wf far_boot"
  unfolding far_boot_def by (rule booted_wf)

lemma far_adds: "handle far_env (AddHost (far_ip 0) 12212) far_boot = Inr far_joined"
proof -
  have wf: "mesh_wf far_boot" using far_boot_wf by (rule node_wfD)
  have find: "mesh_find far_boot (far_ip 0, 12212) = None"
    by (simp add: mesh_find_def host_matches_def far_boot_def booted_def)
  have env: "resolves far_env (c_str (far_ip 0))" "can_socket far_env" by (simp_all add: far_env_def)
  have addrs: "next_addr far_boot = 2" "hosts far_boot = [1]" "sock_tab far_boot = Map.empty" "out far_boot = [Listen 0 12212]"
    by (simp_all add: far_boot_def booted_def empty_node_def)
  have sucs: "Suc 2 = (3::nat)" "Suc 3 = (4::nat)" by simp_all
  have "Host_connect far_env (far_ip 0) 12212 far_boot = Inr (2, far_joined)"
    unfolding Host_connect_result [OF wf env find] addrs sucs
    by (simp add: far_joined_def far_boot_def booted_def empty_node_def)
  moreover have "bInited far_boot" using far_boot_wf by (simp add: node_wf_def)
  ultimately show ?thesis
    using find wf by (simp add: handle_def add_host_def init_def add_host_inited_cases)
qed

lemma far_net_reach: "net_reach far_world far_net"
proof -
  have "net_boot far_world far_start" by (simp add: net_boot_def far_start_def far_world_def far_init)
  then have "net_reach far_world far_start" unfolding net_reach_def by blast
  moreover have "net_call far_world 1 (AddHost (far_ip 0) 12212) far_start far_net"
    by (simp add: net_call_def far_world_def far_start_def far_net_def far_adds)
  ultimately show ?thesis using net_call_step net_reach_step by blast
qed

section \<open>The handshake\<close>

lemmas far_defs = far_joined_def far_boot_def booted_def empty_node_def

lemma far_nodes: "node_of far_net (Suc 0) = far_joined" "node_of far_net 0 = far_boot"
  by (simp_all add: far_net_def far_start_def)

lemma far_wf: "mesh_wf far_joined" "chans_live far_joined" "mesh_wf far_boot" "chans_live far_boot"
  using net_reach_procs(3) [OF far_net_reach, of 0] net_reach_procs(3) [OF far_net_reach, of "Suc 0"]
  by (auto simp: far_nodes node_wfD node_wf_chans)

lemma far_simps [simp]:
  "hosts far_joined = [1, 2]" "hosts far_boot = [1]" "next_addr far_boot = 2" "sock_tab far_boot = Map.empty"
  "sock_tab far_joined = [3 \<mapsto> connecting_sock (far_ip 0) 12212 2]"
  "host_tab far_joined 2 = Some (connecting_host (far_ip 0) 12212 3)"
  "SIGNALING_PORT far_joined = 12212" "SIGNALING_PORT far_boot = 12212" "my_ID far_joined = 7" "my_ID far_boot = 7"
  "channels far_joined = []" "channels far_boot = []" "chan_tab far_joined = Map.empty" "chan_tab far_boot = Map.empty"
  "host_key far_joined (Suc 0) = Some (''localhost'', 12212)" "host_key far_joined 2 = Some (far_ip 0, 12212)"
  "host_key far_boot (Suc 0) = Some (''localhost'', 12212)"
  "server_tab far_boot = [0 \<mapsto> \<lparr>srv_port = 12212, srv_bStop = False, srv_connections = [],
     srv_on_open = AcceptSignaling\<rparr>]" "s_ip (connecting_sock (far_ip i) p h) = far_ip i"
  by (simp_all add: far_defs far_env_def host_key_def connecting_host_def connecting_sock_def)

lemma far_dialled: "dialled far_joined 2 3"
  using far_wf(1,2)
  by (simp add: dialled_def)

lemma far_listens: "listens far_net 0 0"
  using far_wf(3,4)
  by (simp add: listens_def far_nodes int32_def) (simp add: far_net_def far_start_def spawn_def far_defs)

lemma far_world_simps [simp]:
  "envs far_world i = far_env" "shown far_world j = far_ip" "sees far_world i (far_ip 0) = {0}"
  by (simp_all add: far_world_def)

lemma far_dials: "dials far_world far_net 1 2 3 0 0"
proof -
  have "threads (procs far_net 1) 3 = Some Dialling"
    by (simp add: far_net_def far_start_def spawn_def connecting_sock_def attached_sock_def TCPSocket_default_def)
  moreover have "0 \<in> accepting (procs far_net 0)" using far_listens by (simp add: listens_def)
  then have "reaches far_world far_net 1 3 0 0"
    by (simp add: reaches_def far_nodes)
  moreover have "peer far_net (1, 3) = None" by (simp add: far_net_def far_start_def)
  ultimately show ?thesis
    using far_dialled far_listens by (simp add: dials_def far_nodes mesh_find_None_key)
qed

text \<open>Both ends after the handshake, and what the host lists name.\<close>

definition far_server :: node where
  "far_server = now_ready 3 (server_greeted 2 12212 (far_ip 0)
     (accepted_conn 0 (started_sock 0 (far_ip (Suc 0)) 0) far_boot))"

definition far_client :: node where
  "far_client = now_ready 2 (client_told 2 7 12212 (far_ip (Suc 0)) 3 (client_opened 2 3 far_joined))"

lemma far_server_facts:
  "hosts far_server = [1, 3]" "host_key far_server 3 = Some (far_ip (Suc 0), 12212)"
  "host_key far_server 1 = Some (far_ip 0, 12212)" "channels far_server = []"
proof -
  let ?B = "accepted_conn 0 (started_sock 0 (far_ip (Suc 0)) 0) far_boot"
  have B: "next_addr ?B = 3" "s_ip (started_sock 0 (far_ip (Suc 0)) 0) = far_ip (Suc 0)"
    by (simp_all add: accepted_conn_def started_sock_def accepted_sock_def)
  have L: "far_server = now_ready (next_addr ?B) (server_greeted (next_addr far_boot) 12212 (far_ip 0) ?B)"
    by (simp add: far_server_def B)
  show "hosts far_server = [1, 3]" "host_key far_server 3 = Some (far_ip (Suc 0), 12212)"
    "host_key far_server 1 = Some (far_ip 0, 12212)"
    using server_result [OF far_wf(3) refl refl L, unfolded B] by simp_all
  show "channels far_server = []"
    by (simp add: far_server_def now_ready_def server_greeted_def accepted_conn_def Let_def)
qed

lemma far_client_facts:
  "hosts far_client = [1, 2]" "host_key far_client 2 = Some (far_ip 0, 12212)"
  "host_key far_client 1 = Some (far_ip (Suc 0), 12212)" "channels far_client = []"
  using client_result [OF far_dialled refl far_client_def]
  by (simp_all add: far_client_def now_ready_def client_told_def client_opened_def Let_def)

lemma far_list:
  assumes "X \<in> {far_server, far_client}" and "n \<in> {far_server, far_client}"
  shows "list_all printable (ready_hosts X)"
    and "list_all (\<lambda>k. resolves (envs far_world i) (c_str (h_ip k))) (ready_hosts X)" and "can_socket (envs far_world i)"
    and "\<forall>key\<in>set (map (\<lambda>k. (h_ip k, h_port k)) (ready_hosts X)). mesh_find (said os n) key \<noteq> None"
proof -
  have key: "(h_ip k, h_port k) \<in> {(far_ip 0, 12212), (far_ip (Suc 0), 12212)}" if k: "k \<in> set (ready_hosts X)" for k
  proof -
    obtain h where "h \<in> set (hosts X)" "host_key X h = Some (h_ip k, h_port k)"
      using k by (auto simp: ready_hosts_def host_ready_def host_key_def split: option.splits)
    then show ?thesis using assms(1) far_server_facts far_client_facts by auto
  qed
  then show "list_all printable (ready_hosts X)"
    by (fastforce simp: list_all_iff printable_def int32_def)
  show "list_all (\<lambda>k. resolves (envs far_world i) (c_str (h_ip k))) (ready_hosts X)" "can_socket (envs far_world i)"
    by (simp_all add: far_env_def list_all_iff)
  have "mesh_find n key \<noteq> None" if "key \<in> {(far_ip 0, 12212), (far_ip (Suc 0), 12212)}" for key
    using that assms(2) far_server_facts far_client_facts by (auto simp: mesh_find_None_key)
  then show "\<forall>key\<in>set (map (\<lambda>k. (h_ip k, h_port k)) (ready_hosts X)). mesh_find (said os n) key \<noteq> None"
    using key by (auto simp del: insert_iff)
qed

lemma far_says:
  assumes "linked X h s" and "hosts X = [x, h]"
  shows "broadcast_sends X msg = [Send s (frame msg)]"
  using assms by (auto simp: broadcast_sends_def host_ready_def host_sends_def host_link_def elim!: linkedE)

text \<open>The two are linked, and each has read the host list of the other.\<close>

lemma far_two:
  "\<exists>M os os'. net_reach far_world M \<and> linked_up M 1 2 3 0 3 2 \<and> wire M (1, 3) = [] \<and> wire M (0, 2) = []
    \<and> node_of M 0 = said os far_server \<and> node_of M 1 = said os' far_client"
proof -
  let ?B = "accepted_conn 0 (started_sock 0 (far_ip (Suc 0)) 0) far_boot"
  let ?C = far_client and ?A = far_server
  have n: "far_joined = node_of far_net 1" "far_boot = node_of far_net 0" "2 = next_addr far_boot"
    by (simp_all add: far_nodes)
  have B: "next_addr ?B = 3" "?B = accepted_conn 0 (started_sock 0 (shown far_world 0 1) 0) far_boot"
    by (simp_all add: accepted_conn_def)
  have so: "sock_tab far_joined 3 = Some (connecting_sock (far_ip 0) 12212 2)" by simp
  have C: "?C = now_ready 2 (client_told 2 (my_ID far_boot) (SIGNALING_PORT far_boot)
      (localize (shown far_world 0 1)) 3 (client_opened 2 3 far_joined))"
    by (simp add: far_client_def)
  have A: "?A = now_ready (next_addr ?B) (server_greeted 2 (SIGNALING_PORT far_joined)
      (localize (s_ip (connecting_sock (far_ip 0) 12212 2))) ?B)"
    by (simp add: far_server_def B(1))
  obtain M P Q osA osB where M: "net_steps far_world far_net M"
      "snap far_net M 1 P 3 (sent_bytes 2 (osB @ broadcast_sends ?A (host_list ?A)))
        0 Q 2 (sent_bytes 3 (osA @ broadcast_sends ?C (host_list ?C)))"
      "state P = said (osA @ broadcast_sends ?C (host_list ?C)) ?C" "quiet far_joined \<longrightarrow> osA = []"
      "state Q = said (osB @ broadcast_sends ?A (host_list ?A)) ?A" "quiet far_boot \<longrightarrow> osB = []"
      "linked_up M 1 2 3 0 (next_addr ?B) 2"
    using dials_run [OF far_dials n(1,2,3) so B(2) C A] by (elim exE conjE) (rule that)
  have linked: "linked ?A 3 2" "linked ?C 2 3" and recv: "threads P 3 = Some Receiving" "threads Q 2 = Some Receiving"
    using M(2,3,5,7) B(1) by (simp_all add: linked_up_def snap_def)
  have "osA = []" "osB = []" using M(4,6) by (simp_all add: quiet_def)
  then have s1: "snap far_net M 1 P 3 (frame (host_list ?A) @ []) 0 Q 2 (frame (host_list ?C))"
    using M(2) far_says [OF linked(1)] far_says [OF linked(2)] far_server_facts(1) far_client_facts(1) by simp
  have reach: "net_reach far_world M" using net_reach_steps [OF far_net_reach M(1)] .
  have ends: "linked (state P) 2 3" "linked (state Q) 3 2" using linked M(3,5) by simp_all
  have known: "\<forall>key\<in>set (map (\<lambda>k. (h_ip k, h_port k)) (ready_hosts ?A)). mesh_find (state P) key \<noteq> None"
      "\<forall>key\<in>set (map (\<lambda>k. (h_ip k, h_port k)) (ready_hosts ?C)). mesh_find (state Q) key \<noteq> None"
    unfolding M(3,5) by (rule far_list(4); simp)+
  note names = far_list(1-3) [of ?A ?A] far_list(1-3) [of ?C ?C]
  obtain M1 where M1: "net_step far_world M M1" "snap far_net M1 1 P 3 [] 0 Q 2 (frame (host_list ?C))"
    using list_known [OF reach s1 recv(1) ends(1) _ _ _ known(1)] names by auto
  have s2: "snap far_net M1 0 Q 2 (frame (host_list ?C) @ []) 1 P 3 []" using snap_sym [OF M1(2)] by simp
  obtain M2 where M2: "net_step far_world M1 M2" "snap far_net M2 0 Q 2 [] 1 P 3 []"
    using list_known [OF net_reach_step [OF reach M1(1)] s2 recv(2) ends(2) _ _ _ known(2)] names by auto
  have "linked_up M2 1 2 3 0 3 2"
    using M(2,7) M2(2) B(1) by (simp add: linked_up_def snap_def)
  moreover have "wire M2 (1, 3) = []" "wire M2 (0, 2) = []" "node_of M2 0 = state Q" "node_of M2 1 = state P"
    using M2(2) by (simp_all add: snap_def)
  ultimately show ?thesis
    using net_reach_step [OF net_reach_step [OF reach M1(1)] M2(1)] M(3,5) by metis
qed

section \<open>Publish and subscribe\<close>

lemma far_near:
  "\<exists>N. net_reach far_world N \<and> near far_world N 0 1 2 [] \<and> chan_find (node_of N 0) name = None
    \<and> chan_find (node_of N 1) name = None"
proof -
  obtain N os os' where N: "net_reach far_world N" "linked_up N 1 2 3 0 3 2" "wire N (1, 3) = []" "wire N (0, 2) = []"
      "node_of N 0 = said os far_server" "node_of N 1 = said os' far_client"
    using far_two by blast
  obtain k mk where k: "host_tab far_client 2 = Some k" "h_ip k = far_ip 0" "host_tab far_client 1 = Some mk" "h_ip mk = far_ip 1"
    using far_client_facts(2,3) by (auto simp: host_key_def)
  obtain ak where ak: "host_tab far_server 1 = Some ak" "h_ip ak = far_ip 0"
    using far_server_facts(3) by (auto simp: host_key_def)
  have "is_local 2 (said os' far_client) = Inr False"
    using k far_client_facts(1) by (simp add: is_local_def me_def)
  moreover have "scan_ports far_env 10000 20000 = Inr 10000"
    by (auto simp: scan_ports_Inr_iff server_bind_def far_env_def)
  ultimately have "apart far_world N 0 1 2"
    using k ak far_server_facts(1) unfolding apart_def N(5,6) by auto (simp_all add: far_env_def)
  then have "near far_world N 0 1 2 []" using N(2-4) by (auto simp: near_def)
  moreover have "chan_find (node_of N 0) name = None" "chan_find (node_of N 1) name = None"
    using N(5,6) far_server_facts(4) far_client_facts(4) by (simp_all add: chan_find_def)
  ultimately show ?thesis using N(1) by blast
qed

lemma news_ok: "name_ok ''news''"
  by (simp add: name_ok_def NUL_def NL_def)


text \<open>The second process reads the first message in two pieces.\<close>

lemma far_carries:
  "\<exists>N c s. net_reach far_world N \<and> carries N 0 c 1 s [] \<and> writable (node_of N 0) c"
proof -
  obtain N where N: "net_reach far_world N" "near far_world N 0 1 2 []" "chan_find (node_of N 0) ''news'' = None"
      "chan_find (node_of N 1) ''news'' = None"
    using far_near by blast
  have dist: "distinct [1 :: nat]" by simp
  have members: "\<forall>b\<in>set [1]. chan_find (node_of N b) ''news'' = None \<and> (\<exists>h. near far_world N 0 b h [])"
    using N(2,4) by auto
  obtain N1 N2 N3 c xs where N3: "net_call far_world 0 (Publish ''news'') N N1" "net_steps far_world N1 N2"
      "map fst xs = [1]" "net_subscribes far_world ''news'' xs N2 N3" "\<forall>(b, s) \<in> set xs. carries N3 0 c b s []"
      "serving N3 0 c ''news''"
    using published_subscribed [OF N(1) dist news_ok N(3) members] by (elim exE conjE) (rule that)
  obtain s where "xs = [(1, s)]" using N3(3) by (auto simp: map_eq_Cons_conv)
  moreover have "net_reach far_world N3"
    using net_reach_steps [OF net_reach_steps [OF net_reach_step [OF N(1) net_call_step [OF N3(1)]] N3(2)]
        net_subscribes_steps [OF N3(4)]] .
  ultimately show ?thesis using N3(5,6) by (auto simp: serving_def)
qed

theorem channel_is_fifo_witness:
  "\<exists>N M1 M2 L c s. net_reach far_world N \<and> net_stream far_world 0 c [(1, s)] N [''hello''] M1
    \<and> net_stream far_world 0 c [(1, s)] N [''hello''] M2 \<and> net_reads far_world 1 s M1 M2
    \<and> (\<exists>ds rest. out (node_of M2 1) = out (node_of N 1) @ map (DeliverSub s) ds \<and> ''hello'' = concat ds @ rest)
    \<and> net_steps far_world M2 L
    \<and> (\<exists>ds. out (node_of L 1) = out (node_of N 1) @ map (DeliverSub s) ds \<and> concat ds = ''hello'')"
proof -
  obtain N c s where N: "net_reach far_world N" "carries N 0 c 1 s []" "writable (node_of N 0) c"
    using far_carries by blast
  obtain M1 where M1: "net_call far_world 0 (Write c ''hello'') N M1"
    using message_written [OF N(3)] by blast
  have "carries M1 0 c 1 s (''he'' @ ''llo'')" using message_carried [OF N(2) M1] by simp
  from carries_reads [OF this] obtain M2 where M2: "net_reads far_world 1 s M1 M2" by auto
  have run1: "net_stream far_world 0 c [(1, s)] N [''hello''] M1"
    using net_stream.written [OF net_stream.start M1] by simp
  have run2: "net_stream far_world 0 c [(1, s)] N [''hello''] M2"
    using net_stream.read [OF run1 _ M2] by simp
  have "distinct (map fst [(1 :: nat, s)])" "\<forall>(b, s) \<in> set [(1, s)]. carries N 0 c b s []" using N(2) by auto
  from channel_is_fifo [OF N(1) this run2] N(1) run1 run2 M2 show ?thesis
    by simp blast
qed


end
