(* ===== verification/Locks.thy ===== *)
theory Locks
  imports Main
begin

text \<open>
  The mutexes of the process: the recursive ones of mesh.cpp and signaling.cpp and the plain one of
  every TCPSocket. A function is described by what it does to the mutexes and to the two registries,
  \<open>hosts\<close> and \<open>channels\<close>; its tests on data are nondeterministic choices. The threads of a process
  run such descriptions interleaved, instruction by instruction. A thread that an exception ends
  keeps the mutexes it holds, as the code has no scoped locks.
\<close>

section \<open>Mutexes, accesses, code\<close>

datatype mutex = SIGNALING | MESH | SOCKET nat

datatype registry = Hosts | Channels

text \<open>
  \<open>Locked\<close> is the stretch from a LOCK to the UNLOCK of the same function; \<open>Leave\<close> is its end, left
  over while the stretch runs. \<open>SomeSocket\<close> is \<open>TCPSocket::write\<close> on some socket; \<open>Throw\<close> throws a
  \<open>const char*\<close> that the thread of the socket catches at its outermost level.
\<close>

datatype code =
    Skip
  | Read registry
  | Write registry
  | SomeSocket
  | Throw
  | Seq code code
  | Either code code
  | Many code
  | Locked mutex code
  | Leave mutex

text \<open>\<open>PTHREAD_RECURSIVE_MUTEX_INITIALIZER_NP\<close> for the two static ones, a plain mutex in TCPSocket.\<close>

fun recursive :: "mutex \<Rightarrow> bool" where
  "recursive (SOCKET s) = False"
| "recursive _ = True"

text \<open>A thread: the mutexes it holds, innermost first, and what it has left to do.\<close>

type_synonym thread = "mutex list \<times> code list"

text \<open>One instruction of a thread while the other threads hold the mutexes in \<open>M\<close>.\<close>

inductive tstep :: "mutex set \<Rightarrow> thread \<Rightarrow> thread \<Rightarrow> bool" for M where
  skip: "tstep M (h, Skip # k) (h, k)"
| reads: "tstep M (h, Read v # k) (h, k)"
| writes: "tstep M (h, Write v # k) (h, k)"
| socket: "tstep M (h, SomeSocket # k) (h, Locked (SOCKET s) Skip # k)"
| throw: "tstep M (h, Throw # k) (h, [])"
| seq: "tstep M (h, Seq p q # k) (h, p # q # k)"
| left: "tstep M (h, Either p q # k) (h, p # k)"
| right: "tstep M (h, Either p q # k) (h, q # k)"
| stop: "tstep M (h, Many p # k) (h, k)"
| again: "tstep M (h, Many p # k) (h, p # Many p # k)"
| lock: "m \<notin> M \<Longrightarrow> m \<notin> set h \<or> recursive m \<Longrightarrow> tstep M (h, Locked m p # k) (m # h, p # Leave m # k)"
| unlock: "tstep M (h, Leave m # k) (remove1 m h, k)"

inductive_cases tstepE: "tstep M (h, c # k) t"

inductive_simps tstep_locked: "tstep M (h, Locked m p # k) t"

definition held_by_others :: "thread list \<Rightarrow> nat \<Rightarrow> mutex set" where
  "held_by_others s i = {m. \<exists>j<length s. j \<noteq> i \<and> m \<in> set (fst (s ! j))}"

inductive pstep :: "thread list \<Rightarrow> thread list \<Rightarrow> bool" where
  "i < length s \<Longrightarrow> tstep (held_by_others s i) (s ! i) t \<Longrightarrow> pstep s (s[i := t])"

abbreviation runs :: "thread list \<Rightarrow> thread list \<Rightarrow> bool" where
  "runs \<equiv> rtranclp pstep"

definition start :: "code list \<Rightarrow> thread list" where
  "start ps = map (\<lambda>p. ([], [p])) ps"

section \<open>mesh.cpp\<close>

text \<open>What may throw a \<open>const char*\<close>: a host that does not resolve, no free port.\<close>

definition may_throw :: "bool \<Rightarrow> code" where
  "may_throw f = (if f then Either Skip Throw else Skip)"

definition me_code :: code where
  "me_code = Read Hosts"

definition has_host_code :: code where
  "has_host_code = Locked MESH (Seq (Read Hosts) (Many (Read Hosts)))"

definition get_host_code :: code where
  "get_host_code = Locked MESH (Seq (Read Hosts) (Many (Read Hosts)))"

definition send_code :: code where
  "send_code = Either Skip SomeSocket"

definition broadcast_code :: code where
  "broadcast_code = Locked MESH (Seq (Read Hosts)
     (Many (Seq (Read Hosts) (Either Skip (Seq (Read Hosts) send_code)))))"

definition broadcast_hosts_code :: code where
  "broadcast_hosts_code = Locked MESH (Seq (Seq (Read Hosts) (Many (Read Hosts))) broadcast_code)"

definition dump_hosts_code :: code where
  "dump_hosts_code = Locked MESH (Seq (Read Hosts) (Many (Read Hosts)))"

definition is_local_code :: code where
  "is_local_code = Seq me_code (Either Skip me_code)"

definition welcome_code :: code where
  "welcome_code = Either Skip (Seq SomeSocket SomeSocket)"

definition setSocket_code :: "bool \<Rightarrow> code" where
  "setSocket_code bServer = (if bServer then welcome_code else Skip)"

definition Host_loopback_code :: code where
  "Host_loopback_code = Write Hosts"

definition Host_connect_code :: "bool \<Rightarrow> code" where
  "Host_connect_code f = Seq has_host_code (Seq (Either Skip (Write Hosts))
     (Seq (setSocket_code False) (may_throw f)))"

definition Host_incoming_code :: code where
  "Host_incoming_code = Seq has_host_code (Seq (Either Skip (Write Hosts)) (setSocket_code True))"

text \<open>\<open>add_host\<close> behind its call of \<open>init\<close>; \<open>init\<close> calls it when \<open>bInited\<close> is set already.\<close>

definition add_host_inited_code :: "bool \<Rightarrow> code" where
  "add_host_inited_code f = Locked MESH (Seq has_host_code (Either Skip (Host_connect_code f)))"

definition init_code :: "bool \<Rightarrow> code" where
  "init_code f = Either Skip (Locked MESH (Either Skip
     (Seq (may_throw f) (Seq Host_loopback_code (Either Skip (add_host_inited_code f))))))"

definition add_host_code :: "bool \<Rightarrow> code" where
  "add_host_code f = Seq (init_code f) (add_host_inited_code f)"

definition uninit_code :: code where
  "uninit_code = Locked MESH Skip"

section \<open>channel.h, channel.cpp, signaling.cpp\<close>

definition get_channel_code :: code where
  "get_channel_code = Seq (Read Channels) (Many (Read Channels))"

definition get_or_create_channel_code :: code where
  "get_or_create_channel_code = Seq get_channel_code (Either Skip (Write Channels))"

text \<open>
  \<open>connect\<close>: the request to the publisher, or one connection per subscription. Closing a
  subscription takes no mutex and touches no registry.
\<close>

definition connect_code :: "bool \<Rightarrow> code" where
  "connect_code f = Either Skip (Seq me_code (Either Skip
     (Seq is_local_code (Either send_code (Many (may_throw f))))))"

definition setPublisher_code :: "bool \<Rightarrow> code" where
  "setPublisher_code f = Either Skip (connect_code f)"

definition tostring_code :: code where
  "tostring_code = me_code"

definition channel_publish_code :: "bool \<Rightarrow> code" where
  "channel_publish_code f = Seq me_code (Either Skip
     (Seq me_code (Seq (setPublisher_code f) (Seq tostring_code broadcast_code))))"

definition offer_tcp_code :: "bool \<Rightarrow> code" where
  "offer_tcp_code f = Seq (Either Skip (may_throw f)) send_code"

definition broadcast_published_code :: code where
  "broadcast_published_code = Seq (Read Channels)
     (Many (Seq (Read Channels) (Seq me_code (Either Skip (Seq tostring_code broadcast_code)))))"

definition close_all_channels_code :: "bool \<Rightarrow> code" where
  "close_all_channels_code f = Seq (Read Channels) (Many (Seq (Read Channels) (Either Skip (setPublisher_code f))))"

definition apply_publish_code :: "bool \<Rightarrow> code" where
  "apply_publish_code f = Seq get_or_create_channel_code (Either (setPublisher_code f)
     (Either Skip (Seq get_host_code (Either Skip (setPublisher_code f)))))"

definition digest_message_code :: "bool \<Rightarrow> code" where
  "digest_message_code f = Locked SIGNALING (Either (apply_publish_code f) (Either Skip
     (Seq get_channel_code (Either Skip
       (Either (setPublisher_code f) (Either (offer_tcp_code f) (Either send_code (Many (may_throw f)))))))))"

definition on_host_open_code :: code where
  "on_host_open_code = Locked SIGNALING broadcast_published_code"

definition on_host_close_code :: "bool \<Rightarrow> code" where
  "on_host_close_code f = Locked SIGNALING (close_all_channels_code f)"

definition dump_channels_code :: code where
  "dump_channels_code = Seq (Read Channels) (Many (Seq (Read Channels) tostring_code))"

section \<open>What the threads run\<close>

text \<open>The branch of \<open>Host::on_receive\<close> for CONNECTED, and all of them.\<close>

definition connected_code :: code where
  "connected_code = Seq has_host_code (Seq (Either Skip (Write Hosts)) (Seq on_host_open_code broadcast_hosts_code))"

definition on_receive_code :: "bool \<Rightarrow> code" where
  "on_receive_code f = Either (Seq (Locked MESH Skip) send_code)
     (Either (Seq me_code me_code) (Either connected_code
     (Either Skip (Either (add_host_code f) (digest_message_code f)))))"

definition incoming_code :: code where
  "incoming_code = Either Skip (Locked MESH (Seq get_host_code
     (Either (Seq Host_incoming_code send_code)
     (Either (Seq (setSocket_code True) (Either Skip send_code)) Skip))))"

definition publish_code :: "bool \<Rightarrow> code" where
  "publish_code f = Seq get_or_create_channel_code (channel_publish_code f)"

definition subscribe_code :: "bool \<Rightarrow> code" where
  "subscribe_code f = Seq get_or_create_channel_code (Seq me_code (connect_code f))"

definition write_code :: code where
  "write_code = Many (Either Skip SomeSocket)"

definition mesh_entries :: "bool \<Rightarrow> code list" where
  "mesh_entries f = [has_host_code, get_host_code, broadcast_code, broadcast_hosts_code, dump_hosts_code,
     add_host_code f, incoming_code, uninit_code, welcome_code]"

definition signaling_entries :: "bool \<Rightarrow> code list" where
  "signaling_entries f = [digest_message_code f, on_host_open_code, on_host_close_code f]"

definition all_entries :: "bool \<Rightarrow> code list" where
  "all_entries f = mesh_entries f @ signaling_entries f
     @ [on_receive_code f, publish_code f, subscribe_code f, write_code, dump_channels_code]"

lemmas code_defs = may_throw_def me_code_def has_host_code_def get_host_code_def send_code_def
  broadcast_code_def broadcast_hosts_code_def dump_hosts_code_def is_local_code_def welcome_code_def
  setSocket_code_def Host_loopback_code_def Host_connect_code_def Host_incoming_code_def
  add_host_inited_code_def init_code_def add_host_code_def uninit_code_def get_channel_code_def
  get_or_create_channel_code_def connect_code_def setPublisher_code_def tostring_code_def
  channel_publish_code_def offer_tcp_code_def broadcast_published_code_def close_all_channels_code_def
  apply_publish_code_def digest_message_code_def on_host_open_code_def on_host_close_code_def
  dump_channels_code_def connected_code_def on_receive_code_def incoming_code_def publish_code_def
  subscribe_code_def write_code_def

section \<open>Static disciplines\<close>

text \<open>
  A discipline says, for the mutexes held so far, which one may be locked next and which registry may
  be touched, and whether throwing is allowed.
\<close>

record discipline =
  may_lock :: "mutex list \<Rightarrow> mutex \<Rightarrow> bool"
  may_use :: "mutex list \<Rightarrow> registry \<Rightarrow> bool"
  throws :: bool

fun obeys :: "discipline \<Rightarrow> mutex list \<Rightarrow> code \<Rightarrow> bool" where
  "obeys D h Skip = True"
| "obeys D h (Read v) = may_use D h v"
| "obeys D h (Write v) = may_use D h v"
| "obeys D h SomeSocket = (\<forall>s. may_lock D h (SOCKET s))"
| "obeys D h Throw = throws D"
| "obeys D h (Seq p q) = (obeys D h p \<and> obeys D h q)"
| "obeys D h (Either p q) = (obeys D h p \<and> obeys D h q)"
| "obeys D h (Many p) = obeys D h p"
| "obeys D h (Locked m p) = (may_lock D h m \<and> obeys D (m # h) p)"
| "obeys D h (Leave m) = False"

fun obeys_all :: "discipline \<Rightarrow> mutex list \<Rightarrow> code list \<Rightarrow> bool" where
  "obeys_all D h [] = (throws D \<or> h = [])"
| "obeys_all D h (c # k) = (case c of
     Leave m \<Rightarrow> h \<noteq> [] \<and> hd h = m \<and> obeys_all D (tl h) k
   | _ \<Rightarrow> obeys D h c \<and> obeys_all D h k)"

definition disciplined :: "discipline \<Rightarrow> thread list \<Rightarrow> bool" where
  "disciplined D s \<longleftrightarrow> (\<forall>i<length s. obeys_all D (fst (s ! i)) (snd (s ! i)))"

text \<open>No mutex is held by two threads.\<close>

definition exclusive :: "thread list \<Rightarrow> bool" where
  "exclusive s \<longleftrightarrow> (\<forall>i<length s. set (fst (s ! i)) \<inter> held_by_others s i = {})"

lemma obeys_all_Cons [simp]:
  "obeys D h c \<Longrightarrow> obeys_all D h (c # k) = obeys_all D h k"
  by (cases c) simp_all

lemma obeys_all_Leave [simp]:
  "obeys_all D h (Leave m # k) \<longleftrightarrow> h \<noteq> [] \<and> hd h = m \<and> obeys_all D (tl h) k"
  by simp

lemma obeys_all_head: "obeys_all D h (c # k) \<Longrightarrow> obeys D h c \<or> (\<exists>m. c = Leave m)"
  by (cases c) simp_all

declare obeys_all.simps(2) [simp del]

lemma obeys_all_step:
  assumes "tstep M (h, k) (h', k')" and "obeys_all D h k"
  shows "obeys_all D h' k'"
  using assms(1)
proof (cases rule: tstep.cases)
  case (throw k)
  then show ?thesis using assms(2) obeys_all_head [OF assms(2) [unfolded throw]] by simp
next
  case (unlock m)
  then show ?thesis using assms(2) by (auto simp: neq_Nil_conv)
qed (use assms(2) obeys_all_head [of D h] in \<open>force+\<close>)

lemma disciplined_step: "pstep s s' \<Longrightarrow> disciplined D s \<Longrightarrow> disciplined D s'"
proof (induction rule: pstep.induct)
  case (1 i s t)
  then show ?case
    using obeys_all_step [of "held_by_others s i" "fst (s ! i)" "snd (s ! i)" "fst t" "snd t" D]
    by (auto simp: disciplined_def nth_list_update)
qed

lemma tstep_holds: "tstep M t t' \<Longrightarrow> set (fst t') \<subseteq> set (fst t) \<union> - M"
  by (cases rule: tstep.cases) (auto dest: notin_set_remove1 set_mp [OF set_remove1_subset])

lemma exclusive_iff:
  "exclusive s \<longleftrightarrow> (\<forall>i<length s. \<forall>j<length s. j \<noteq> i \<longrightarrow> set (fst (s ! i)) \<inter> set (fst (s ! j)) = {})"
  by (auto simp: exclusive_def held_by_others_def)

lemma exclusive_step: "pstep s s' \<Longrightarrow> exclusive s \<Longrightarrow> exclusive s'"
proof (induction rule: pstep.induct)
  case (1 i s t)
  have "set (fst t) \<inter> set (fst (s ! j)) = {}" if "j < length s" "j \<noteq> i" for j
  proof -
    have "set (fst (s ! j)) \<subseteq> held_by_others s i" using that by (auto simp: held_by_others_def)
    moreover have "set (fst (s ! i)) \<inter> set (fst (s ! j)) = {}"
      using 1(1,3) that by (simp add: exclusive_iff)
    ultimately show ?thesis using tstep_holds [OF 1(2)] by blast
  qed
  moreover have "set (fst (s ! a)) \<inter> set (fst (s ! b)) = {}"
    if "a < length s" "b < length s" "a \<noteq> b" for a b
    using 1(3) that by (simp add: exclusive_iff)
  ultimately show ?case using 1(1) unfolding exclusive_iff
    by (simp add: nth_list_update Int_commute)
qed

lemma runs_keep: "runs s s' \<Longrightarrow> disciplined D s \<and> exclusive s \<Longrightarrow> disciplined D s' \<and> exclusive s'"
  by (induction rule: rtranclp_induct) (auto intro: disciplined_step exclusive_step)

lemma start_ok: "\<forall>p\<in>set ps. obeys D [] p \<Longrightarrow> disciplined D (start ps) \<and> exclusive (start ps)"
  by (auto simp: disciplined_def exclusive_def start_def held_by_others_def)

lemma runs_disciplined:
  assumes "\<forall>p\<in>set ps. obeys D [] p" and "runs (start ps) s"
  shows "disciplined D s" and "exclusive s"
  using runs_keep [OF assms(2)] start_ok [OF assms(1)] by auto

section \<open>No deadlock\<close>

text \<open>
  The order of the mutexes is signaling, mesh, socket: a thread that holds some locks a later one, or
  once more one it holds and that is recursive.
\<close>

fun rank :: "mutex \<Rightarrow> nat" where
  "rank SIGNALING = 0"
| "rank MESH = 1"
| "rank (SOCKET s) = 2"

text \<open>Two sockets are not ordered: no thread may hold the mutexes of both.\<close>

instantiation mutex :: order
begin

definition less_mutex :: "mutex \<Rightarrow> mutex \<Rightarrow> bool" where
  "less_mutex x y \<longleftrightarrow> rank x < rank y"

definition less_eq_mutex :: "mutex \<Rightarrow> mutex \<Rightarrow> bool" where
  "less_eq_mutex x y \<longleftrightarrow> x = y \<or> rank x < rank (y :: mutex)"

instance
  by standard (auto simp: less_mutex_def less_eq_mutex_def)

end

definition ranked :: discipline where
  "ranked = \<lparr>may_lock = (\<lambda>h m. (m \<in> set h \<and> recursive m) \<or> (\<forall>x\<in>set h. x < m)),
     may_use = (\<lambda>_ _. True), throws = False\<rparr>"

lemma ranked_simps [simp]:
  "may_lock ranked h m \<longleftrightarrow> (m \<in> set h \<and> recursive m) \<or> (\<forall>x\<in>set h. rank x < rank m)"
  "may_use ranked h v" "\<not> throws ranked"
  by (simp_all add: ranked_def less_mutex_def)

lemma entries_ranked: "p \<in> set (all_entries False) \<Longrightarrow> obeys ranked [] p"
  by (auto simp: all_entries_def mesh_entries_def signaling_entries_def code_defs)

text \<open>What is left to run gets smaller on the way out of every construct.\<close>

fun weight :: "code \<Rightarrow> nat" where
  "weight (Seq p q) = Suc (weight p + weight q)"
| "weight (Either p q) = Suc (weight p + weight q)"
| "weight (Locked m p) = Suc (Suc (weight p))"
| "weight SomeSocket = 4"
| "weight _ = 1"

definition weight_of :: "thread \<Rightarrow> nat" where
  "weight_of t = sum_list (map weight (snd t))"

definition finished :: "thread list \<Rightarrow> bool" where
  "finished s \<longleftrightarrow> (\<forall>t\<in>set s. snd t = [])"

text \<open>A thread that is not waiting for a mutex can step towards its end.\<close>

lemma unblocked_steps:
  assumes "\<And>m p. c = Locked m p \<Longrightarrow> m \<notin> M \<and> (m \<notin> set h \<or> recursive m)"
  shows "\<exists>t. tstep M (h, c # k) t \<and> weight_of t < weight_of (h, c # k)"
proof (cases c)
  case (Locked m p)
  then have "tstep M (h, c # k) (m # h, p # Leave m # k)" using assms by (auto intro: tstep.lock)
  then show ?thesis using Locked by (force simp: weight_of_def)
next
  case SomeSocket
  then have "tstep M (h, c # k) (h, Locked (SOCKET 0) Skip # k)" by (auto intro: tstep.socket)
  then show ?thesis using SomeSocket by (force simp: weight_of_def)
next
  case (Seq p q)
  then have "tstep M (h, c # k) (h, p # q # k)" by (auto intro: tstep.seq)
  then show ?thesis using Seq by (force simp: weight_of_def)
next
  case (Either p q)
  then have "tstep M (h, c # k) (h, p # k)" by (auto intro: tstep.left)
  then show ?thesis using Either by (force simp: weight_of_def)
next
  case Throw
  then have "tstep M (h, c # k) (h, [])" by (auto intro: tstep.throw)
  then show ?thesis using Throw by (force simp: weight_of_def)
next
  case (Leave m)
  then have "tstep M (h, c # k) (remove1 m h, k)" by (auto intro: tstep.unlock)
  then show ?thesis using Leave by (force simp: weight_of_def)
next
  case (Many p)
  then have "tstep M (h, c # k) (h, k)" by (auto intro: tstep.stop)
  then show ?thesis using Many by (force simp: weight_of_def)
qed (use tstep.skip [of M h k] tstep.reads [of M h _ k] tstep.writes [of M h _ k] in \<open>force simp: weight_of_def\<close>)+

definition blocked :: "thread list \<Rightarrow> nat \<Rightarrow> bool" where
  "blocked s i \<longleftrightarrow> \<not> (\<exists>t. tstep (held_by_others s i) (s ! i) t \<and> weight_of t < weight_of (s ! i))"

text \<open>
  In the ranked discipline a blocked thread waits for a mutex another one holds, above all it holds
  itself; that other thread has not finished.
\<close>

lemma blocked_waits:
  assumes "disciplined ranked s" and "exclusive s" and "i < length s" and "snd (s ! i) \<noteq> []" and "blocked s i"
  shows "\<exists>m p k. snd (s ! i) = Locked m p # k \<and> (\<forall>x\<in>set (fst (s ! i)). rank x < rank m)
    \<and> (\<exists>j<length s. m \<in> set (fst (s ! j)) \<and> snd (s ! j) \<noteq> [])"
proof -
  let ?h = "fst (s ! i)"
  obtain c k where ck: "snd (s ! i) = c # k" using assms(4) by (cases "snd (s ! i)") auto
  then have t: "s ! i = (?h, c # k)" by (metis prod.collapse)
  then have "\<not> (\<exists>t. tstep (held_by_others s i) (?h, c # k) t \<and> weight_of t < weight_of (?h, c # k))"
    using assms(5) unfolding blocked_def by metis
  then obtain m p where c: "c = Locked m p" and m: "m \<in> held_by_others s i \<or> m \<in> set ?h \<and> \<not> recursive m"
    using unblocked_steps [of c "held_by_others s i" ?h k] by blast
  have "obeys_all ranked ?h (c # k)" using assms(1,3) ck by (metis disciplined_def)
  then have o: "(m \<in> set ?h \<and> recursive m) \<or> (\<forall>x\<in>set ?h. rank x < rank m)"
    using obeys_all_head [of ranked ?h c k] c by auto
  then have m': "m \<in> held_by_others s i" using m by auto
  then have "m \<notin> set ?h" using assms(2,3) by (auto simp: exclusive_def)
  moreover obtain j where j: "j < length s" "m \<in> set (fst (s ! j))"
    using m' by (auto simp: held_by_others_def)
  moreover have "snd (s ! j) \<noteq> []"
  proof
    assume "snd (s ! j) = []"
    then have "obeys_all ranked (fst (s ! j)) []" using assms(1) j(1) by (metis disciplined_def)
    with j(2) show False by simp
  qed
  ultimately show ?thesis using ck c o by blast
qed

lemma some_unblocked:
  assumes "disciplined ranked s" and "exclusive s" and "\<not> finished s"
  shows "\<exists>i<length s. \<not> blocked s i"
proof (rule ccontr)
  assume all: "\<not> ?thesis"
  let ?W = "{i. i < length s \<and> snd (s ! i) \<noteq> []}"
  let ?r = "\<lambda>i. case snd (s ! i) of Locked m p # _ \<Rightarrow> rank m | _ \<Rightarrow> 0"
  obtain a where "a < length s" "snd (s ! a) \<noteq> []"
    using assms(3) by (metis finished_def in_set_conv_nth)
  then have W: "finite ?W" "?W \<noteq> {}" by auto
  have top: "Max (?r ` ?W) \<in> ?r ` ?W" using W by (intro Max_in) auto
  then obtain i where i: "i \<in> ?W" "?r i = Max (?r ` ?W)" by auto
  obtain m p k j where m: "snd (s ! i) = Locked m p # k" and j: "j \<in> ?W" "m \<in> set (fst (s ! j))"
    using blocked_waits [OF assms(1,2), of i] i(1) all by blast
  obtain m' p' k' where m': "snd (s ! j) = Locked m' p' # k'" "\<forall>x\<in>set (fst (s ! j)). rank x < rank m'"
    using blocked_waits [OF assms(1,2), of j] j(1) all by blast
  have "?r j \<le> ?r i" unfolding i(2) using W(1) j(1) by (intro Max_ge) auto
  with m m' j(2) show False by auto
qed

lemma weight_update:
  "i < length s \<Longrightarrow> weight_of t < weight_of (s ! i)
    \<Longrightarrow> sum_list (map weight_of (s[i := t])) < sum_list (map weight_of s)"
  by (induction s arbitrary: i) (auto simp: less_Suc_eq_0_disj split: nat.splits)

lemma can_finish:
  assumes "disciplined ranked s" and "exclusive s"
  shows "\<exists>s'. runs s s' \<and> finished s'"
  using assms
proof (induction "sum_list (map weight_of s)" arbitrary: s rule: less_induct)
  case less
  show ?case
  proof (cases "finished s")
    case False
    obtain i t where i: "i < length s" "tstep (held_by_others s i) (s ! i) t" "weight_of t < weight_of (s ! i)"
      using some_unblocked [OF less.prems False] by (auto simp: blocked_def)
    then have p: "pstep s (s[i := t])" by (intro pstep.intros)
    obtain s' where "runs (s[i := t]) s'" "finished s'"
      using less.hyps [OF weight_update [OF i(1,3)] disciplined_step [OF p less.prems(1)]
          exclusive_step [OF p less.prems(2)]] by blast
    with p show ?thesis by (blast intro: converse_rtranclp_into_rtranclp)
  qed auto
qed

text \<open>
  C13: the mutexes cannot deadlock. Whatever entry points of the library any number of threads run,
  and however they are interleaved, as long as no connection attempt throws there is always a way on
  in which all of them return and no mutex is left locked.
\<close>

theorem locks_no_deadlock:
  assumes "set ps \<subseteq> set (all_entries False)" and "runs (start ps) s"
  shows "\<exists>s'. runs s s' \<and> finished s' \<and> (\<forall>t\<in>set s'. fst t = [])"
proof -
  have ps: "\<forall>p\<in>set ps. obeys ranked [] p" using assms(1) entries_ranked by blast
  obtain s' where s': "runs s s'" "finished s'"
    using can_finish [OF runs_disciplined [OF ps assms(2)]] by blast
  have "disciplined ranked s'"
    using runs_disciplined(1) [OF ps] assms(2) s'(1) rtranclp_trans by metis
  then have "fst t = []" if "t \<in> set s'" for t
  proof -
    obtain i where "i < length s'" "s' ! i = t" using \<open>t \<in> set s'\<close> by (auto simp: in_set_conv_nth)
    then have "obeys_all ranked (fst t) (snd t)" using \<open>disciplined ranked s'\<close> by (auto simp: disciplined_def)
    moreover have "snd t = []" using s'(2) that by (simp add: finished_def)
    ultimately show ?thesis by simp
  qed
  with s' show ?thesis by blast
qed

theorem locks_no_deadlock_witness:
  "\<exists>s'. runs (start [on_receive_code False, publish_code False, incoming_code]) s' \<and> finished s'"
  using locks_no_deadlock [of "[on_receive_code False, publish_code False, incoming_code]",
      OF _ rtranclp.rtrancl_refl]
  by (auto simp: all_entries_def mesh_entries_def)

section \<open>Races on the registries\<close>

text \<open>Two threads are about to touch a registry, one of them to change it.\<close>

fun next_use :: "code list \<Rightarrow> registry option" where
  "next_use (Read v # k) = Some v"
| "next_use (Write v # k) = Some v"
| "next_use _ = None"

fun next_write :: "code list \<Rightarrow> registry option" where
  "next_write (Write v # k) = Some v"
| "next_write _ = None"

definition race :: "registry \<Rightarrow> thread list \<Rightarrow> bool" where
  "race v s \<longleftrightarrow> (\<exists>i<length s. \<exists>j<length s. i \<noteq> j \<and> next_write (snd (s ! i)) = Some v
     \<and> next_use (snd (s ! j)) = Some v)"

definition guards :: "mutex \<Rightarrow> registry \<Rightarrow> discipline" where
  "guards m v = \<lparr>may_lock = (\<lambda>_ _. True), may_use = (\<lambda>h w. w = v \<longrightarrow> m \<in> set h), throws = True\<rparr>"

lemma next_use_obeys:
  "obeys_all D h k \<Longrightarrow> next_use k = Some v \<Longrightarrow> may_use D h v"
  by (cases k rule: next_use.cases) (auto dest: obeys_all_head)

lemma next_write_use: "next_write k = Some v \<Longrightarrow> next_use k = Some v"
  by (cases k rule: next_write.cases) auto

lemma guarded_no_race:
  assumes "\<forall>p\<in>set ps. obeys (guards m v) [] p" and "runs (start ps) s"
  shows "\<not> race v s"
proof
  assume "race v s"
  then obtain i j where ij: "i < length s" "j < length s" "i \<noteq> j" "next_use (snd (s ! i)) = Some v"
      "next_use (snd (s ! j)) = Some v"
    by (auto simp: race_def dest: next_write_use)
  note ok = runs_disciplined [OF assms]
  have "m \<in> set (fst (s ! a))" if "a < length s" "next_use (snd (s ! a)) = Some v" for a
    using next_use_obeys [of "guards m v" "fst (s ! a)" "snd (s ! a)" v] ok(1) that
    by (simp add: disciplined_def guards_def)
  from this [OF ij(1,4)] this [OF ij(2,5)]
  have "m \<in> set (fst (s ! i)) \<inter> set (fst (s ! j))" by simp
  moreover have "set (fst (s ! i)) \<inter> set (fst (s ! j)) = {}"
    using ok(2) ij(1-3) unfolding exclusive_iff by metis
  ultimately show False by simp
qed

text \<open>
  C18: the mutex of signaling.cpp protects the channel registry among the threads that dispatch
  messages, open and close hosts, and the mutex of mesh.cpp the host registry among those that look
  hosts up, add them, broadcast, list them and take connections in: in no interleaving two of them
  meet at the registry, also when some of them are ended by an exception.
\<close>

theorem registries_guarded:
  assumes "set ps \<subseteq> set (signaling_entries f)" and "runs (start ps) s"
    and "set qs \<subseteq> set (mesh_entries f)" and "runs (start qs) u"
  shows "\<not> race Channels s \<and> \<not> race Hosts u"
proof
  have "obeys (guards SIGNALING Channels) [] p" if "p \<in> set (signaling_entries f)" for p
    using that by (auto simp: signaling_entries_def code_defs guards_def)
  with assms(1) have "\<forall>p\<in>set ps. obeys (guards SIGNALING Channels) [] p" by blast
  from guarded_no_race [OF this assms(2)] show "\<not> race Channels s" .
next
  have "obeys (guards MESH Hosts) [] p" if "p \<in> set (mesh_entries f)" for p
    using that by (auto simp: mesh_entries_def code_defs guards_def)
  with assms(3) have "\<forall>p\<in>set qs. obeys (guards MESH Hosts) [] p" by blast
  from guarded_no_race [OF this assms(4)] show "\<not> race Hosts u" .
qed

theorem registries_guarded_witness:
  "\<exists>s u. runs (start [digest_message_code True, on_host_open_code]) s \<and> \<not> race Channels s
    \<and> runs (start [add_host_code True, incoming_code]) u \<and> \<not> race Hosts u"
  using registries_guarded [of "[digest_message_code True, on_host_open_code]" True _
      "[add_host_code True, incoming_code]", OF _ rtranclp.rtrancl_refl _ rtranclp.rtrancl_refl]
  by (auto simp: signaling_entries_def mesh_entries_def)

section \<open>Runs of one thread\<close>

text \<open>
  A scheduler for a thread nobody else is in the way of: one boolean per instruction, the choice at
  \<open>Either\<close> (first) and \<open>Many\<close> (once more).
\<close>

fun texec :: "bool list \<Rightarrow> thread \<Rightarrow> thread option" where
  "texec [] t = Some t"
| "texec (b # bs) (h, []) = None"
| "texec (b # bs) (h, c # k) =
     (case c of
        Skip \<Rightarrow> texec bs (h, k)
      | Read v \<Rightarrow> texec bs (h, k)
      | Write v \<Rightarrow> texec bs (h, k)
      | SomeSocket \<Rightarrow> texec bs (h, Locked (SOCKET 0) Skip # k)
      | Throw \<Rightarrow> texec bs (h, [])
      | Seq p q \<Rightarrow> texec bs (h, p # q # k)
      | Either p q \<Rightarrow> texec bs (h, (if b then p else q) # k)
      | Many p \<Rightarrow> texec bs (h, if b then p # Many p # k else k)
      | Locked m p \<Rightarrow> if m \<in> set h \<and> \<not> recursive m then None else texec bs (m # h, p # Leave m # k)
      | Leave m \<Rightarrow> texec bs (remove1 m h, k))"

lemma texec_sound: "texec bs t = Some t' \<Longrightarrow> rtranclp (tstep {}) t t'"
proof (induction bs t rule: texec.induct)
  case (3 b bs h c k)
  obtain u where "tstep {} (h, c # k) u" "texec bs u = Some t'" "rtranclp (tstep {}) u t'"
  proof (cases c)
    case (Locked m p)
    then show ?thesis using 3 that [of "(m # h, p # Leave m # k)"]
      by (auto intro: tstep.lock split: if_splits)
  next
    case (Either p q)
    then show ?thesis using 3 that [of "(h, (if b then p else q) # k)"]
      by (cases b) (auto intro: tstep.left tstep.right)
  next
    case (Many p)
    then show ?thesis using 3 that [of "(h, if b then p # Many p # k else k)"]
      by (cases b) (auto intro: tstep.stop tstep.again)
  qed (use 3 in \<open>auto intro: that tstep.intros\<close>)
  then show ?case by (blast intro: converse_rtranclp_into_rtranclp)
qed auto

lemma solo_runs:
  assumes "rtranclp (tstep M) t t'" and "i < length s" and "s ! i = t" and "held_by_others s i = M"
  shows "runs s (s[i := t'])"
  using assms(1)
proof (induction rule: rtranclp_induct)
  case (step u v)
  have "held_by_others (s[i := u]) i = M" using assms(2,4) by (auto simp: held_by_others_def)
  then have "pstep (s[i := u]) ((s[i := u])[i := v])"
    using assms(2) step.hyps(2) by (intro pstep.intros) simp_all
  with step.IH show ?case by (simp add: rtranclp.rtrancl_into_rtrancl)
qed (simp add: assms(3) [symmetric])

lemma solo_exec:
  assumes "texec bs (s ! i) = Some t" and "i < length s" and "\<forall>j<length s. j \<noteq> i \<longrightarrow> fst (s ! j) = []"
  shows "runs s (s[i := t])"
proof -
  have "held_by_others s i = {}" using assms(3) by (auto simp: held_by_others_def)
  from solo_runs [OF texec_sound [OF assms(1)] assms(2) refl this] show ?thesis .
qed

lemma two_threads_meet:
  assumes "texec bs ([], [p]) = Some ([], k)" and "texec cs ([], [q]) = Some t"
    and "next_write k = Some v" and "next_use (snd t) = Some v"
  shows "\<exists>s. runs (start [p, q]) s \<and> race v s"
proof -
  have "runs [([], [p]), ([], [q])] ([([], [p]), ([], [q])][0 := ([], k)])"
    by (rule solo_exec) (use assms(1) in \<open>auto simp: nth_Cons split: nat.splits\<close>)
  moreover have "runs [([], k), ([], [q])] ([([], k), ([], [q])][1 := t])"
    by (rule solo_exec) (use assms(2) in \<open>auto simp: nth_Cons less_Suc_eq split: nat.splits\<close>)
  ultimately have "runs (start [p, q]) [([], k), t]"
    by (simp add: start_def)
  moreover have "race v [([], k), t]"
    unfolding race_def using assms(3,4) by (intro exI [of _ 0] conjI exI [of _ 1]) simp_all
  ultimately show ?thesis by blast
qed

text \<open>
  C40: the registries are not protected everywhere. The application's publish adds a channel without
  the mutex the message dispatch holds while it walks the same vector, and a host that answers
  CONNECTED is added to the host registry outside the mutex under which another thread broadcasts
  the list.
\<close>

theorem registries_race:
  "(\<exists>s. runs (start [publish_code f, digest_message_code f]) s \<and> race Channels s)
   \<and> (\<exists>s. runs (start [on_receive_code f, broadcast_hosts_code]) s \<and> race Hosts s)"
proof
  have p: "texec [True, True, True, True, False, False] ([], [publish_code f]) =
      Some ([], [Write Channels, channel_publish_code f])"
    by (simp add: publish_code_def get_or_create_channel_code_def get_channel_code_def)
  obtain t where "texec [True, True, True, True, True] ([], [digest_message_code f]) = Some t"
      "next_use (snd t) = Some Channels"
    by (simp add: digest_message_code_def apply_publish_code_def get_or_create_channel_code_def get_channel_code_def)
  from two_threads_meet [OF p this(1) _ this(2)]
  show "\<exists>s. runs (start [publish_code f, digest_message_code f]) s \<and> race Channels s" by simp
  have q: "texec [False, False, True, True, True, True, True, False, True, True, False] ([], [on_receive_code f]) =
      Some ([], [Write Hosts, Seq on_host_open_code broadcast_hosts_code])"
    by (simp add: on_receive_code_def connected_code_def has_host_code_def)
  obtain u where "texec [True, True, True] ([], [broadcast_hosts_code]) = Some u"
      "next_use (snd u) = Some Hosts"
    by (simp add: broadcast_hosts_code_def)
  from two_threads_meet [OF q this(1) _ this(2)]
  show "\<exists>s. runs (start [on_receive_code f, broadcast_hosts_code]) s \<and> race Hosts s" by simp
qed

section \<open>A mutex that is never released\<close>

text \<open>A thread that has ended with a mutex keeps it, and who wants it waits for ever.\<close>

definition stuck :: "mutex \<Rightarrow> nat \<Rightarrow> nat \<Rightarrow> code \<Rightarrow> thread list \<Rightarrow> bool" where
  "stuck m i j p s \<longleftrightarrow> i < length s \<and> j < length s \<and> i \<noteq> j \<and> snd (s ! i) = [] \<and> m \<in> set (fst (s ! i))
     \<and> s ! j = ([], [Locked m p])"

lemma stuck_step: "pstep s s' \<Longrightarrow> stuck m i j p s \<Longrightarrow> stuck m i j p s'"
proof (induction rule: pstep.induct)
  case (1 a s t)
  have "a \<noteq> i" using 1 by (cases "s ! i") (auto simp: stuck_def elim: tstep.cases)
  moreover have "a \<noteq> j"
  proof
    assume a: "a = j"
    have "m \<in> held_by_others s j" using 1(3) by (auto simp: stuck_def held_by_others_def)
    with 1(2,3) show False by (simp add: a stuck_def tstep_locked)
  qed
  ultimately show ?case using 1(3) by (simp add: stuck_def)
qed

lemma stuck_runs: "runs s s' \<Longrightarrow> stuck m i j p s \<Longrightarrow> stuck m i j p s'"
  by (induction rule: rtranclp_induct) (auto intro: stuck_step)

text \<open>
  C32: a connection attempt that throws inside \<open>add_host\<close> leaves the mutex of the mesh locked: its
  thread may end so that every thread that was about to lock it, whatever for, never gets any
  further, whatever the others do.
\<close>

theorem failed_add_host_blocks_mesh:
  assumes "i < length ps" and "j < length ps" and "i \<noteq> j"
    and "ps ! i = add_host_code True" and "ps ! j = Locked MESH p"
  shows "\<exists>s. runs (start ps) s \<and> (\<forall>s'. runs s s' \<longrightarrow> s' ! j = ([], [Locked MESH p]))"
proof -
  have nth: "start ps ! a = ([], [ps ! a])" if "a < length ps" for a
    using that by (simp add: start_def)
  have len: "length (start ps) = length ps" by (simp add: start_def)
  have "texec [True, True, True, True, True, True, True, True, False, True, False, True, True, True, True,
      False, True, True, True, True, True, True, False, True] ([], [add_host_code True]) = Some ([MESH], [])"
    by (simp add: add_host_code_def init_code_def add_host_inited_code_def has_host_code_def
        Host_connect_code_def setSocket_code_def may_throw_def)
  then have "texec [True, True, True, True, True, True, True, True, False, True, False, True, True, True, True,
      False, True, True, True, True, True, True, False, True] (start ps ! i) = Some ([MESH], [])"
    by (simp only: nth [OF assms(1)] assms(4))
  then have "runs (start ps) ((start ps)[i := ([MESH], [])])"
    by (rule solo_exec) (simp_all add: len nth assms(1))
  moreover have "stuck MESH i j p ((start ps)[i := ([MESH], [])])"
    using assms by (simp add: stuck_def len nth)
  ultimately show ?thesis using stuck_runs unfolding stuck_def by blast
qed

theorem failed_add_host_blocks_mesh_witness:
  "\<exists>s. runs (start [add_host_code True, broadcast_hosts_code]) s
    \<and> \<not> (\<exists>s'. runs s s' \<and> s' ! 1 \<noteq> ([], [broadcast_hosts_code]))"
  using failed_add_host_blocks_mesh [of 0 "[add_host_code True, broadcast_hosts_code]" 1]
  by (auto simp: broadcast_hosts_code_def)

end
