(* ===== verification/Shm_Handoff.thy ===== *)
theory Shm_Handoff
  imports Prelude
begin

text \<open>
  src/utils/shm.cpp, the hand-off between the threads of SHMServer and SHMClient: \<open>write\<close> waits for
  the write semaphore, copies into the segment and posts the read semaphore; \<open>read\<close> waits for the
  read semaphore, passes the segment to \<open>on_receive\<close> and posts the write semaphore. Both classes
  have the same two methods on the same two semaphores, so any number of threads of either side run
  them. The copies are modelled byte by byte, with every interleaving: mutual exclusion is a
  theorem, not an assumption. Shown: at most one thread is in the segment, the reader is never
  handed a torn image, images are neither lost nor duplicated (the segment is a one-place buffer),
  and a waiting reader and a waiting writer never block each other.
\<close>

section \<open>Threads\<close>

type_synonym tid = nat

text \<open>Where a thread is: outside, waiting in \<open>write\<close>, copying, before the post, and so for \<open>read\<close>.\<close>

datatype pc =
    Idle
  | WaitWrite string
  | Copying string nat
  | PostRead
  | WaitRead
  | Reading string
  | PostWrite

text \<open>
  The segment, the two semaphores, the threads, and two logs: the messages that were copied in and
  the images passed to \<open>on_receive\<close>.
\<close>

record handoff =
  seg :: string
  semRead :: nat
  semWrite :: nat
  pcs :: "tid \<Rightarrow> pc"
  written :: "string list"
  received :: "string list"

definition goto :: "tid \<Rightarrow> pc \<Rightarrow> handoff \<Rightarrow> handoff" where
  "goto t p s = s\<lparr>pcs := (pcs s)(t := p)\<rparr>"

text \<open>One instruction of \<open>write(buf, len)\<close>; None when the thread is blocked.\<close>

fun write_step :: "tid \<Rightarrow> pc \<Rightarrow> handoff \<Rightarrow> handoff res option" where
  "write_step t (WaitWrite msg) s =
     (if semWrite s = 0 then None
      else Some (Inr (goto t (Copying msg 0) (s\<lparr>semWrite := semWrite s - 1\<rparr>))))"
| "write_step t (Copying msg i) s =
     (if i = length msg then Some (Inr (goto t PostRead (s\<lparr>written := written s @ [msg]\<rparr>)))
      else if i < length (seg s)
      then Some (Inr (goto t (Copying msg (Suc i)) (s\<lparr>seg := (seg s)[i := msg ! i]\<rparr>)))
      else Some (Inl OutOfBounds))"
| "write_step t PostRead s = Some (Inr (goto t Idle (s\<lparr>semRead := Suc (semRead s)\<rparr>)))"
| "write_step t _ s = None"

text \<open>One instruction of \<open>read()\<close>: \<open>on_receive\<close> looks at all \<open>bufsize\<close> bytes.\<close>

fun read_step :: "tid \<Rightarrow> pc \<Rightarrow> handoff \<Rightarrow> handoff res option" where
  "read_step t WaitRead s =
     (if semRead s = 0 then None
      else Some (Inr (goto t (Reading []) (s\<lparr>semRead := semRead s - 1\<rparr>))))"
| "read_step t (Reading acc) s =
     (if length acc < length (seg s)
      then Some (Inr (goto t (Reading (acc @ [seg s ! length acc])) s))
      else Some (Inr (goto t PostWrite (s\<lparr>received := received s @ [acc]\<rparr>))))"
| "read_step t PostWrite s = Some (Inr (goto t Idle (s\<lparr>semWrite := Suc (semWrite s)\<rparr>)))"
| "read_step t _ s = None"

text \<open>\<open>write()\<close> without arguments is the same with nothing to copy.\<close>

datatype action = CallWrite tid string | CallRead tid | Run tid

fun hand_step :: "action \<Rightarrow> handoff \<Rightarrow> handoff res option" where
  "hand_step (CallWrite t msg) s = (if pcs s t = Idle then Some (Inr (goto t (WaitWrite msg) s)) else None)"
| "hand_step (CallRead t) s = (if pcs s t = Idle then Some (Inr (goto t WaitRead s)) else None)"
| "hand_step (Run t) s =
     (case write_step t (pcs s t) s of Some r \<Rightarrow> Some r | None \<Rightarrow> read_step t (pcs s t) s)"

definition handoff_init :: "string \<Rightarrow> handoff" where
  "handoff_init m = \<lparr>seg = m, semRead = 0, semWrite = 1, pcs = (\<lambda>_. Idle), written = [], received = []\<rparr>"

inductive handoff_reach :: "string \<Rightarrow> handoff \<Rightarrow> bool" for m where
  init: "handoff_reach m (handoff_init m)"
| step: "handoff_reach m s \<Longrightarrow> hand_step a s = Some (Inr s') \<Longrightarrow> handoff_reach m s'"

section \<open>What the segment should hold\<close>

definition overlay :: "string \<Rightarrow> string \<Rightarrow> string" where
  "overlay m msg = msg @ drop (length msg) m"

text \<open>The image after all messages, and the images after each of them.\<close>

definition image_after :: "string \<Rightarrow> string list \<Rightarrow> string" where
  "image_after m msgs = foldl overlay m msgs"

fun images :: "string \<Rightarrow> string list \<Rightarrow> string list" where
  "images m [] = []"
| "images m (x # xs) = overlay m x # images (overlay m x) xs"

lemma images_snoc: "images m (xs @ [x]) = images m xs @ [overlay (image_after m xs) x]"
  by (induction xs arbitrary: m) (simp_all add: image_after_def)

lemma image_after_snoc: "image_after m (xs @ [x]) = overlay (image_after m xs) x"
  by (simp add: image_after_def)

lemma length_images [simp]: "length (images m xs) = length xs"
  by (induction xs arbitrary: m) simp_all

section \<open>The invariant\<close>

definition holding :: "pc \<Rightarrow> bool" where
  "holding p = (case p of Copying _ _ \<Rightarrow> True | PostRead \<Rightarrow> True | Reading _ \<Rightarrow> True | PostWrite \<Rightarrow> True
     | _ \<Rightarrow> False)"

lemma holding_simps [simp]:
  "\<not> holding Idle" "\<not> holding (WaitWrite msg)" "\<not> holding WaitRead" "holding (Copying msg i)"
  "holding PostRead" "holding (Reading acc)" "holding PostWrite"
  by (simp_all add: holding_def)

definition nobody :: "handoff \<Rightarrow> bool" where
  "nobody s \<longleftrightarrow> (\<forall>t. \<not> holding (pcs s t))"

definition only :: "handoff \<Rightarrow> tid \<Rightarrow> pc \<Rightarrow> bool" where
  "only s t p \<longleftrightarrow> pcs s t = p \<and> semRead s = 0 \<and> semWrite s = 0 \<and> (\<forall>u. u \<noteq> t \<longrightarrow> \<not> holding (pcs s u))"

text \<open>The six phases of the segment; \<open>full\<close> when an image waits to be taken.\<close>

definition all_taken :: "string \<Rightarrow> handoff \<Rightarrow> bool" where
  "all_taken m s \<longleftrightarrow> images m (written s) = received s"

definition one_waits :: "string \<Rightarrow> handoff \<Rightarrow> bool" where
  "one_waits m s \<longleftrightarrow> images m (written s) = received s @ [seg s] \<and> seg s = image_after m (written s)"

inductive phase :: "string \<Rightarrow> handoff \<Rightarrow> bool" for m s where
  empty: "nobody s \<Longrightarrow> semWrite s = 1 \<Longrightarrow> semRead s = 0 \<Longrightarrow> seg s = image_after m (written s) \<Longrightarrow>
    all_taken m s \<Longrightarrow> phase m s"
| copying: "only s t (Copying msg i) \<Longrightarrow> i \<le> length msg \<Longrightarrow> i \<le> length (seg s) \<Longrightarrow>
    seg s = take i msg @ drop i (image_after m (written s)) \<Longrightarrow> all_taken m s \<Longrightarrow> phase m s"
| copied: "only s t PostRead \<Longrightarrow> one_waits m s \<Longrightarrow> phase m s"
| full: "nobody s \<Longrightarrow> semWrite s = 0 \<Longrightarrow> semRead s = 1 \<Longrightarrow> one_waits m s \<Longrightarrow> phase m s"
| reading: "only s t (Reading acc) \<Longrightarrow> one_waits m s \<Longrightarrow> acc = take (length acc) (seg s) \<Longrightarrow> phase m s"
| read: "only s t PostWrite \<Longrightarrow> seg s = image_after m (written s) \<Longrightarrow> all_taken m s \<Longrightarrow> phase m s"

lemma goto_simps [simp]:
  "seg (goto t p s) = seg s" "semRead (goto t p s) = semRead s" "semWrite (goto t p s) = semWrite s"
  "written (goto t p s) = written s" "received (goto t p s) = received s"
  "pcs (goto t p s) = (pcs s)(t := p)"
  by (simp_all add: goto_def)

lemma nobody_goto [simp]: "nobody s \<Longrightarrow> nobody (goto t p s) \<longleftrightarrow> \<not> holding p"
  by (auto simp: nobody_def)

lemma only_goto_other:
  "only s t p \<Longrightarrow> \<not> holding (pcs s u) \<Longrightarrow> holding p \<Longrightarrow> \<not> holding q \<Longrightarrow> only (goto u q s) t p"
  by (auto simp: only_def)

lemma only_goto_same [simp]: "only s t p \<Longrightarrow> only (goto t q s) t q"
  by (simp add: only_def)

lemma logs_frame [simp]:
  "all_taken m (goto t p s) = all_taken m s" "one_waits m (goto t p s) = one_waits m s"
  by (simp_all add: all_taken_def one_waits_def)

lemma phase_quiet:
  assumes "phase m s" and "\<not> holding (pcs s t)" and "\<not> holding p"
  shows "phase m (goto t p s)"
  using assms(1)
proof cases
  case (copying u msg i)
  then show ?thesis using assms by (intro phase.copying [of _ u msg i]) (simp_all add: only_goto_other)
next
  case (copied u)
  then show ?thesis using assms by (intro phase.copied [of _ u]) (simp_all add: only_goto_other)
next
  case (reading u acc)
  then show ?thesis using assms by (intro phase.reading [of _ u acc]) (simp_all add: only_goto_other)
next
  case (read u)
  then show ?thesis using assms by (intro phase.read [of _ u]) (simp_all add: only_goto_other)
qed (use assms in \<open>auto intro: phase.empty phase.full\<close>)

lemma only_sem: "only s t p \<Longrightarrow> semWrite s = 0 \<and> semRead s = 0"
  by (simp add: only_def)

lemma phase_semWrite:
  "phase m s \<Longrightarrow> semWrite s \<noteq> 0 \<Longrightarrow> nobody s \<and> semWrite s = 1 \<and> semRead s = 0
     \<and> seg s = image_after m (written s) \<and> all_taken m s"
  by (cases rule: phase.cases) (auto dest: only_sem)

lemma phase_semRead:
  "phase m s \<Longrightarrow> semRead s \<noteq> 0 \<Longrightarrow> nobody s \<and> semRead s = 1 \<and> semWrite s = 0 \<and> one_waits m s"
  by (cases rule: phase.cases) (auto dest: only_sem)

lemma only_enter:
  "nobody s \<Longrightarrow> semWrite s' = 0 \<Longrightarrow> semRead s' = 0 \<Longrightarrow> pcs s' = (pcs s)(t := p) \<Longrightarrow> only s' t p"
  by (simp add: only_def nobody_def)

lemma enter_write:
  assumes "phase m s" and "semWrite s \<noteq> 0"
  shows "phase m (goto t (Copying msg 0) (s\<lparr>semWrite := semWrite s - 1\<rparr>))"
proof -
  note e = phase_semWrite [OF assms]
  show ?thesis
    using e by (intro phase.copying [of _ t msg 0] only_enter [of s]) (simp_all add: all_taken_def)
qed

lemma enter_read:
  assumes "phase m s" and "semRead s \<noteq> 0"
  shows "phase m (goto t (Reading []) (s\<lparr>semRead := semRead s - 1\<rparr>))"
proof -
  note e = phase_semRead [OF assms]
  show ?thesis
    using e by (intro phase.reading [of _ t "[]"] only_enter [of s]) (simp_all add: one_waits_def)
qed

lemma nobodyD: "nobody s \<Longrightarrow> \<not> holding (pcs s t)"
  by (simp add: nobody_def)

lemma only_holder: "only s u p \<Longrightarrow> holding (pcs s t) \<Longrightarrow> t = u \<and> pcs s t = p"
  by (auto simp: only_def)

lemma only_here: "only s u p \<Longrightarrow> holding (pcs s t) \<Longrightarrow> only s t (pcs s t)"
  using only_holder [of s u p t] by metis

lemma phase_only:
  "phase m s \<Longrightarrow> holding (pcs s t) \<Longrightarrow> only s t (pcs s t)"
  by (cases rule: phase.cases) (auto dest: nobodyD [of _ t] intro: only_here)

lemma phase_at_Copying:
  "phase m s \<Longrightarrow> pcs s t = Copying msg i \<Longrightarrow> i \<le> length msg \<and> i \<le> length (seg s)
     \<and> seg s = take i msg @ drop i (image_after m (written s)) \<and> all_taken m s"
  by (cases rule: phase.cases) (auto dest: nobodyD [of _ t] only_holder [of _ _ _ t])

lemma phase_at_PostRead: "phase m s \<Longrightarrow> pcs s t = PostRead \<Longrightarrow> one_waits m s"
  by (cases rule: phase.cases) (auto dest: nobodyD [of _ t] only_holder [of _ _ _ t])

lemma phase_at_Reading:
  "phase m s \<Longrightarrow> pcs s t = Reading acc \<Longrightarrow> one_waits m s \<and> acc = take (length acc) (seg s)"
  by (cases rule: phase.cases) (auto dest: nobodyD [of _ t] only_holder [of _ _ _ t])

lemma phase_at_PostWrite:
  "phase m s \<Longrightarrow> pcs s t = PostWrite \<Longrightarrow> seg s = image_after m (written s) \<and> all_taken m s"
  by (cases rule: phase.cases) (auto dest: nobodyD [of _ t] only_holder [of _ _ _ t])

lemma only_mem [simp]:
  "only (s\<lparr>seg := x\<rparr>) t p = only s t p" "only (s\<lparr>written := w\<rparr>) t p = only s t p"
  "only (s\<lparr>received := r\<rparr>) t p = only s t p"
  by (simp_all add: only_def)

lemma nobody_leaves:
  "only s t p \<Longrightarrow> pcs s' = (pcs s)(t := Idle) \<Longrightarrow> nobody s'"
  by (auto simp: only_def nobody_def)

lemma copy_byte:
  assumes "i < length msg" and "i < length base"
  shows "(take i msg @ drop i base)[i := msg ! i] = take (Suc i) msg @ drop (Suc i) base"
  using assms by (simp add: list_update_append take_Suc_conv_app_nth Cons_nth_drop_Suc [symmetric] min_def)

lemma phase_write_step:
  assumes "phase m s" and "write_step t (pcs s t) s = Some (Inr s')"
  shows "phase m s'"
  using assms(2)
proof (cases "pcs s t")
  case (WaitWrite msg)
  with assms enter_write [OF assms(1)] show ?thesis by (auto split: if_splits)
next
  case (Copying msg i)
  note at = phase_at_Copying [OF assms(1) Copying]
  have only: "only s t (Copying msg i)" using phase_only [OF assms(1), of t] Copying by simp
  show ?thesis
  proof (cases "i = length msg")
    case True
    have "one_waits m (s\<lparr>written := written s @ [msg]\<rparr>)"
      using at True by (simp add: one_waits_def all_taken_def images_snoc image_after_snoc overlay_def)
    moreover have "s' = goto t PostRead (s\<lparr>written := written s @ [msg]\<rparr>)"
      using assms(2) Copying True by simp
    ultimately show ?thesis using only by (intro phase.copied [of _ t]) simp_all
  next
    case False
    let ?base = "image_after m (written s)"
    have i: "i < length (seg s)" and s': "s' = goto t (Copying msg (Suc i)) (s\<lparr>seg := (seg s)[i := msg ! i]\<rparr>)"
      using assms(2) Copying False by (auto split: if_splits)
    have len: "length (seg s) = i + (length ?base - i)" using at by simp
    have "(seg s)[i := msg ! i] = take (Suc i) msg @ drop (Suc i) ?base"
      using at False i len copy_byte [of i msg ?base] by (metis le_neq_implies_less less_add_same_cancel1 zero_less_diff)
    then show ?thesis
      unfolding s' using at only False i
      by (intro phase.copying [of _ t msg "Suc i"]) (simp_all add: all_taken_def)
  qed
next
  case PostRead
  have only: "only s t PostRead" using phase_only [OF assms(1), of t] PostRead by simp
  have s': "s' = goto t Idle (s\<lparr>semRead := Suc (semRead s)\<rparr>)" using assms(2) PostRead by simp
  show ?thesis
    unfolding s' using phase_at_PostRead [OF assms(1) PostRead] only nobody_leaves [OF only]
    by (intro phase.full) (simp_all add: one_waits_def only_def)
qed (use assms in simp_all)

lemma phase_read_step:
  assumes "phase m s" and "read_step t (pcs s t) s = Some (Inr s')"
  shows "phase m s'"
  using assms(2)
proof (cases "pcs s t")
  case WaitRead
  with assms enter_read [OF assms(1)] show ?thesis by (auto split: if_splits)
next
  case (Reading acc)
  note at = phase_at_Reading [OF assms(1) Reading]
  have only: "only s t (Reading acc)" using phase_only [OF assms(1), of t] Reading by simp
  show ?thesis
  proof (cases "length acc < length (seg s)")
    case True
    then have s': "s' = goto t (Reading (acc @ [seg s ! length acc])) s" using assms(2) Reading by simp
    show ?thesis
      unfolding s' using at only True
      by (intro phase.reading [of _ t "acc @ [seg s ! length acc]"])
         (simp_all add: take_Suc_conv_app_nth)
  next
    case False
    then have acc: "acc = seg s" using at by simp
    have s': "s' = goto t PostWrite (s\<lparr>received := received s @ [acc]\<rparr>)"
      using assms(2) Reading False by simp
    show ?thesis
      unfolding s' using at only acc
      by (intro phase.read [of _ t]) (simp_all add: one_waits_def all_taken_def)
  qed
next
  case PostWrite
  have only: "only s t PostWrite" using phase_only [OF assms(1), of t] PostWrite by simp
  have s': "s' = goto t Idle (s\<lparr>semWrite := Suc (semWrite s)\<rparr>)" using assms(2) PostWrite by simp
  show ?thesis
    unfolding s' using phase_at_PostWrite [OF assms(1) PostWrite] only nobody_leaves [OF only]
    by (intro phase.empty) (simp_all add: all_taken_def only_def)
qed (use assms in simp_all)

lemma phase_hand_step:
  assumes "phase m s" and "hand_step a s = Some (Inr s')"
  shows "phase m s'"
  using assms(2)
proof (cases a)
  case (Run t)
  with assms show ?thesis by (auto split: option.splits dest: phase_write_step phase_read_step)
qed (use assms in \<open>auto split: if_splits intro: phase_quiet\<close>)

lemma handoff_reach_phase: "handoff_reach m s \<Longrightarrow> phase m s"
proof (induction rule: handoff_reach.induct)
  case init
  show ?case by (rule phase.empty) (simp_all add: handoff_init_def nobody_def image_after_def all_taken_def)
qed (rule phase_hand_step)



section \<open>A run\<close>

text \<open>One message written and read over a segment of two bytes.\<close>

fun run_actions :: "action list \<Rightarrow> handoff \<Rightarrow> handoff option" where
  "run_actions [] s = Some s"
| "run_actions (a # as) s = (case hand_step a s of Some (Inr s') \<Rightarrow> run_actions as s' | _ \<Rightarrow> None)"

lemma run_actions_reach: "handoff_reach m s \<Longrightarrow> run_actions as s = Some s' \<Longrightarrow> handoff_reach m s'"
  by (induction as arbitrary: s)
     (auto split: option.splits sum.splits intro: handoff_reach.step)

definition demo_run :: "action list" where
  "demo_run = [CallWrite 0 ''a'', CallRead 1, Run 0, Run 0]"

lemma demo_reach:
  "\<exists>s. run_actions demo_run (handoff_init ''xy'') = Some s \<and> handoff_reach ''xy'' s
    \<and> pcs s 0 = Copying ''a'' 1 \<and> pcs s 1 = WaitRead"
proof -
  obtain s where "run_actions demo_run (handoff_init ''xy'') = Some s" "pcs s 0 = Copying ''a'' 1" "pcs s 1 = WaitRead"
    by (simp add: demo_run_def handoff_init_def goto_def)
  then show ?thesis using run_actions_reach handoff_reach.init by blast
qed


definition demo_full :: "action list" where
  "demo_full = demo_run @ [Run 0, Run 0, Run 1, Run 1, Run 1, Run 1, Run 1]"

lemma demo_full_reach:
  "\<exists>s. run_actions demo_full (handoff_init ''xy'') = Some s \<and> handoff_reach ''xy'' s
    \<and> received s = [''ay''] \<and> written s = [''a''] \<and> semWrite s = 1"
proof -
  obtain s where "run_actions demo_full (handoff_init ''xy'') = Some s" "received s = [''ay'']"
      "written s = [''a'']" "semWrite s = 1"
    by (simp add: demo_full_def demo_run_def handoff_init_def goto_def)
  then show ?thesis using run_actions_reach handoff_reach.init by blast
qed

lemma demo_wait_reach:
  "\<exists>s. handoff_reach ''xy'' s \<and> pcs s 0 = WaitWrite ''a'' \<and> pcs s 1 = WaitRead"
proof -
  obtain s where "run_actions [CallWrite 0 ''a'', CallRead 1] (handoff_init ''xy'') = Some s"
      "pcs s 0 = WaitWrite ''a''" "pcs s 1 = WaitRead"
    by (simp add: handoff_init_def goto_def)
  then show ?thesis using run_actions_reach handoff_reach.init by blast
qed

section \<open>What the hand-off guarantees\<close>

text \<open>C21: at most one thread is between the two semaphore operations, whatever the interleaving.\<close>

theorem shm_mutual_exclusion:
  assumes "handoff_reach m s" and "holding (pcs s t)" and "holding (pcs s u)"
  shows "t = u"
  using phase_only [OF handoff_reach_phase [OF assms(1)] assms(2)] assms(3) only_holder by blast

theorem shm_mutual_exclusion_witness:
  "\<exists>s. handoff_reach ''xy'' s \<and> {u. holding (pcs s u)} = {0}"
proof -
  obtain s where s: "handoff_reach ''xy'' s" "pcs s 0 = Copying ''a'' 1" using demo_reach by blast
  have "u = 0" if "holding (pcs s u)" for u
    using that s by (intro shm_mutual_exclusion [OF s(1)]) simp_all
  then show ?thesis using s by (intro exI [of _ s]) auto
qed

text \<open>
  C14: the images handed to the reader are the images after each message, in order, each once and
  none torn; at most one is still to be taken. An image is the whole segment: a message shorter
  than the one before it arrives with the tail of its predecessor.
\<close>

theorem shm_delivery:
  assumes "handoff_reach m s"
  shows "\<exists>rest. images m (written s) = received s @ rest \<and> length rest + semWrite s \<le> 1"
  using handoff_reach_phase [OF assms]
  by (cases rule: phase.cases) (auto simp: all_taken_def one_waits_def only_def)

theorem shm_delivery_witness:
  "\<exists>s. handoff_reach ''xy'' s \<and> images ''xy'' (written s) = received s \<and> received s = [''ay'']"
proof -
  obtain s where s: "handoff_reach ''xy'' s" "received s = [''ay'']" "semWrite s = 1"
    using demo_full_reach by blast
  with shm_delivery [OF s(1)] show ?thesis by auto
qed

lemma Run_waiting: "pcs s t = WaitWrite msg \<Longrightarrow> semWrite s \<noteq> 0 \<Longrightarrow> hand_step (Run t) s \<noteq> None"
  "pcs s t = WaitRead \<Longrightarrow> semRead s \<noteq> 0 \<Longrightarrow> hand_step (Run t) s \<noteq> None"
  by simp_all

lemma Run_holding: "holding (pcs s t) \<Longrightarrow> hand_step (Run t) s \<noteq> None"
  by (cases "pcs s t") simp_all

lemma only_runs: "only s t p \<Longrightarrow> holding p \<Longrightarrow> \<exists>v. hand_step (Run v) s \<noteq> None"
  using Run_holding [of s t] by (auto simp: only_def simp del: hand_step.simps)

text \<open>
  C33: no deadlock. When one thread waits to write and another to read, some thread can go on.
\<close>

theorem shm_no_deadlock:
  assumes "handoff_reach m s" and "pcs s t = WaitWrite msg" and "pcs s u = WaitRead"
  shows "\<exists>v. hand_step (Run v) s \<noteq> None"
  using handoff_reach_phase [OF assms(1)]
proof cases
  case empty
  then show ?thesis using assms(2) by (intro exI [of _ t] Run_waiting(1)) simp_all
next
  case full
  then show ?thesis using assms(3) by (intro exI [of _ u] Run_waiting(2)) simp_all
qed (rule only_runs, assumption, simp)+

theorem shm_no_deadlock_witness:
  "\<exists>s v. handoff_reach ''xy'' s \<and> hand_step (Run v) s \<noteq> None"
proof -
  obtain s where s: "handoff_reach ''xy'' s" "pcs s 0 = WaitWrite ''a''" "pcs s 1 = WaitRead"
    using demo_wait_reach by blast
  from shm_no_deadlock [OF s] s(1) show ?thesis by blast
qed

text \<open>
  The abstract view: a one-place buffer. A step of a thread puts an image into the empty buffer,
  takes the image out, or is invisible.
\<close>

definition slot :: "string \<Rightarrow> handoff \<Rightarrow> string option" where
  "slot m s = (if length (received s) < length (written s) then Some (seg s) else None)"

inductive slot_step :: "string option \<times> string list \<Rightarrow> string option \<times> string list \<Rightarrow> bool" where
  stutter: "slot_step x x"
| put: "slot_step (None, d) (Some i, d)"
| take: "slot_step (Some i, d) (None, d @ [i])"

inductive_simps slot_step_simps: "slot_step (x, d) (y, e)"

definition buffer_view :: "string \<Rightarrow> handoff \<Rightarrow> string option \<times> string list" where
  "buffer_view m s = (slot m s, received s)"

lemma taken_len: "all_taken m s \<Longrightarrow> length (received s) = length (written s)"
  unfolding all_taken_def using length_images by metis

lemma waits_len: "one_waits m s \<Longrightarrow> length (written s) = Suc (length (received s))"
  unfolding one_waits_def by (metis length_append_singleton length_images)

text \<open>
  C22: refinement. Every call and every instruction of any thread is a step of a one-place buffer,
  which takes an image only when it is empty and gives it away only once, or leaves it unchanged.
\<close>

theorem shm_refines_one_place_buffer:
  assumes "handoff_reach m s" and "hand_step a s = Some (Inr s')"
  shows "slot_step (buffer_view m s) (buffer_view m s')"
proof (cases a)
  case (Run t)
  have ph: "phase m s" using handoff_reach_phase [OF assms(1)] .
  show ?thesis
  proof (cases "pcs s t")
    case (Copying msg i)
    with assms(2) Run taken_len [of m s] phase_at_Copying [OF ph Copying] show ?thesis
      by (auto simp: buffer_view_def slot_def slot_step_simps split: if_splits)
  next
    case (Reading acc)
    with assms(2) Run waits_len [of m s] phase_at_Reading [OF ph Reading] show ?thesis
      by (auto simp: buffer_view_def slot_def slot_step_simps split: if_splits)
  qed (use assms(2) Run in \<open>auto simp: buffer_view_def slot_def slot_step_simps split: if_splits\<close>)
qed (use assms(2) in \<open>auto simp: buffer_view_def slot_def slot_step_simps split: if_splits\<close>)

theorem shm_refines_one_place_buffer_witness:
  "slot_step (buffer_view ''xy'' (handoff_init ''xy''))
     (buffer_view ''xy'' (goto 0 (WaitWrite ''a'') (handoff_init ''xy'')))"
  by (rule shm_refines_one_place_buffer [OF handoff_reach.init, of "CallWrite 0 ''a''"])
     (simp add: handoff_init_def)

text \<open>
  A write that does not fit the segment runs past its end: the thread that copies it faults
  exactly when it has filled the segment.
\<close>

theorem shm_write_overrun:
  assumes "handoff_reach m s"
  shows "hand_step (Run t) s = Some (Inl e) \<longleftrightarrow>
    e = OutOfBounds \<and> (\<exists>msg. pcs s t = Copying msg (length (seg s)) \<and> length (seg s) < length msg)"
proof (cases "pcs s t")
  case (Copying msg i)
  with phase_at_Copying [OF handoff_reach_phase [OF assms] Copying] show ?thesis by auto
qed (auto split: if_splits)


theorem shm_write_overrun_witness:
  "\<exists>s. handoff_reach ''x'' s \<and> hand_step (Run 0) s = Some (Inl OutOfBounds)"
proof -
  obtain s where s: "run_actions [CallWrite 0 ''ab'', Run 0, Run 0] (handoff_init ''x'') = Some s"
      "pcs s 0 = Copying ''ab'' 1" "seg s = ''a''"
    by (simp add: handoff_init_def goto_def)
  have "handoff_reach ''x'' s" using run_actions_reach [OF handoff_reach.init s(1)] .
  with shm_write_overrun [OF this, of 0 OutOfBounds] s(2,3) show ?thesis by auto
qed

end
