(* ===== verification/Transports.thy ===== *)
theory Transports
  imports Handlers Shm_Segment
begin

text \<open>
  src/protocols: transport descriptions and their text form, the factories of clients and servers,
  the search for a port in the port files, and the pipe, SHM, TCP and RTC endpoints. Shown: a
  description is read back from its text form (and which host names break that), the port search
  returns the first port that is free or already the channel's and returns it again, and what the
  pipe reader hands to its callback.
\<close>

section \<open>Transport descriptions (protocols.h)\<close>

datatype EndPointType = INPUT | OUTPUT | BOTH

record transport_description =
  td_valid :: bool
  td_protocol :: string
  td_local :: bool
  td_ip :: string
  td_port :: int
  td_channel :: string
  td_type :: EndPointType

definition TransportDescription :: "string \<Rightarrow> string \<Rightarrow> transport_description" where
  "TransportDescription channel desc =
     (let protocol = str_to_lower (str_before desc ''://'');
          url = str_after desc ''://'';
          ip = str_before (str_before url '':'') ''/'';
          port = (if str_has url '':'' then atoi (str_after url '':'') else 0);
          details = str_after url ''/'';
          type = (if str_has details ''in'' then INPUT
                  else if str_has details ''out'' then OUTPUT else BOTH);
          islocal = (protocol = ''shm'') in
      \<lparr>td_valid = True, td_protocol = protocol, td_local = islocal,
       td_ip = (if \<not> islocal \<and> ip = [] then ''localhost'' else ip), td_port = port,
       td_channel = channel, td_type = type\<rparr>)"

definition INVALID_TRANSPORT_DESCRIPTION :: "string \<Rightarrow> transport_description" where
  "INVALID_TRANSPORT_DESCRIPTION channel =
     \<lparr>td_valid = False, td_protocol = [], td_local = False, td_ip = [], td_port = 0,
      td_channel = channel, td_type = BOTH\<rparr>"

definition td_to_string :: "transport_description \<Rightarrow> string" where
  "td_to_string td =
     (if \<not> td_valid td then []
      else td_protocol td @ ''://'' @ td_ip td
        @ (if td_port td \<noteq> 0 then '':'' @ show_int (td_port td) else [])
        @ (case td_type td of BOTH \<Rightarrow> [] | INPUT \<Rightarrow> ''/input'' | OUTPUT \<Rightarrow> ''/output''))"

section \<open>A free port (tcp.h)\<close>

text \<open>
  The port files under /tmp/.libpubsub/ports, by port: the name of the channel a port belongs to.
  \<open>fgets\<close> reads at most 511 bytes up to and with the first newline; at the end of the file it leaves
  the buffer as it was.
\<close>

type_synonym port_files = "int \<rightharpoonup> string"

fun upto_newline :: "string \<Rightarrow> string" where
  "upto_newline [] = []"
| "upto_newline (c # cs) = (if c = NL then [c] else c # upto_newline cs)"

definition fgets511 :: "string \<Rightarrow> string \<Rightarrow> string" where
  "fgets511 buf s = (if s = [] then buf else take 511 (upto_newline s))"

text \<open>The loop has no bound: None when it never ends.\<close>

partial_function (option) find_port :: "port_files \<Rightarrow> string \<Rightarrow> string \<Rightarrow> int \<Rightarrow> int option" where
  "find_port ports channel buf i =
     (case ports i of
        None \<Rightarrow> Some i
      | Some s \<Rightarrow>
          (let buf = fgets511 buf s in
           if c_str buf = channel then Some i else find_port ports channel buf (i + 1)))"

definition get_free_port :: "int \<Rightarrow> string \<Rightarrow> string \<Rightarrow> port_files \<Rightarrow> (int \<times> port_files) option" where
  "get_free_port firstPort channel garbage ports =
     map_option (\<lambda>i. (i, ports(i \<mapsto> channel))) (find_port ports channel garbage firstPort)"

section \<open>Pipes (pipe.cpp)\<close>

definition pipe_path :: "string \<Rightarrow> string" where
  "pipe_path channel = ''/tmp/'' @ channel @ ''.pub''"

text \<open>
  One turn of the reader: \<open>read\<close> overwrites the start of the buffer, its count is ignored, and the
  whole buffer goes to \<open>on_receive\<close>. Arguments: buffer, bytes in the fifo.
\<close>

definition pipe_read :: "string \<Rightarrow> string \<Rightarrow> string \<times> string" where
  "pipe_read buf content =
     (take (length buf) content @ drop (length content) buf, drop (length buf) content)"

fun pipe_reader :: "nat \<Rightarrow> string \<Rightarrow> string \<Rightarrow> string list" where
  "pipe_reader 0 buf content = []"
| "pipe_reader (Suc k) buf content =
     (case pipe_read buf content of (buf, content) \<Rightarrow> buf # pipe_reader k buf content)"

definition pipe_send :: "string \<Rightarrow> string \<Rightarrow> string" where
  "pipe_send content buf = content @ buf"

section \<open>The factories (protocols.cpp)\<close>

datatype endpoint =
    EndServerTCP addr
  | EndClientTCP addr
  | EndServerSHM shm_end bool
  | EndClientSHM shm_end bool
  | EndServerPipe string bool nat
  | EndClientPipe string bool nat
  | EndServerRTC

text \<open>The sockets of the process, its shared memory, the port files and the fifos.\<close>

record proto_state =
  p_node :: node
  p_shm :: shm_os
  p_ports :: port_files
  p_fifos :: "string \<rightharpoonup> string"

text \<open>What the operating system decides beyond sockets: which fifos open, and indeterminate memory.\<close>

record proto_env = env +
  opens :: "string \<Rightarrow> bool"
  garbage_size :: nat
  garbage_line :: string

definition ClientTCP :: "env \<Rightarrow> string \<Rightarrow> int \<Rightarrow> node \<Rightarrow> (addr \<times> node) res" where
  "ClientTCP E ip port n =
     bindE (new_TCPSocket_connect E ip port n) (\<lambda>(s, n).
     bindE (upd_sock s (\<lambda>so. so\<lparr>s_bReconnect := False, s_on_close := CloseClientTCP\<rparr>) n) (\<lambda>n.
     Inr (s, n)))"

definition ServerTCP :: "env \<Rightarrow> int \<Rightarrow> node \<Rightarrow> (addr \<times> node) res" where
  "ServerTCP E port n = TCPServer_port E port n"

definition ServerTCP_send :: "addr \<Rightarrow> string \<Rightarrow> node \<Rightarrow> node res" where
  "ServerTCP_send v buf n = server_broadcast v buf n"

definition ClientTCP_send :: "addr \<Rightarrow> string \<Rightarrow> node \<Rightarrow> node res" where
  "ClientTCP_send s buf n = sock_write_buf s buf n"

text \<open>The input side opens the fifo in its thread, where a failure is only printed.\<close>

definition ServerPipe :: "proto_env \<Rightarrow> string \<Rightarrow> bool \<Rightarrow> nat \<Rightarrow> proto_state \<Rightarrow> (endpoint \<times> proto_state) res" where
  "ServerPipe E channel isInput bufsize w =
     (let path = pipe_path channel;
          w = (if p_fifos w path = None then w\<lparr>p_fifos := (p_fifos w)(path \<mapsto> [])\<rparr> else w) in
      if \<not> isInput \<and> \<not> opens E path then Inl (Thrown (''Cannot open output file'' @ [NL]))
      else Inr (EndServerPipe path isInput bufsize, w))"

definition ClientPipe :: "proto_env \<Rightarrow> string \<Rightarrow> bool \<Rightarrow> nat \<Rightarrow> proto_state \<Rightarrow> (endpoint \<times> proto_state) res" where
  "ClientPipe E channel isInput bufsize w =
     (if \<not> opens E (pipe_path channel) then Inl (Thrown (''Cannot open fifo'' @ [NL]))
      else Inr (EndClientPipe (pipe_path channel) isInput bufsize, w))"

definition ClientRTC :: "'a res" where
  "ClientRTC = Inl (Thrown ''Not Implemented'')"

text \<open>The size arguments are the description's port, converted to \<open>size_t\<close>.\<close>

definition to_size :: "int \<Rightarrow> nat" where
  "to_size i = nat (i mod 2 ^ 64)"

definition create_client ::
  "proto_env \<Rightarrow> transport_description \<Rightarrow> proto_state \<Rightarrow> (endpoint option \<times> proto_state) res" where
  "create_client E td w =
     (if td_protocol td = ''tcp'' then
        bindE (ClientTCP (env.truncate E) (c_str (td_ip td)) (td_port td) (p_node w)) (\<lambda>(s, n).
        Inr (Some (EndClientTCP s), w\<lparr>p_node := n\<rparr>))
      else if td_protocol td = ''shm'' then
        bindE (SHMClient_ctor (garbage_size E) (c_str (td_channel td)) (p_shm w)) (\<lambda>(e, os).
        Inr (Some (EndClientSHM e (td_type td = OUTPUT)), w\<lparr>p_shm := os\<rparr>))
      else if td_protocol td = ''pipe'' then
        bindE (ClientPipe E (c_str (td_channel td)) (td_type td = OUTPUT) (to_size (td_port td)) w)
          (\<lambda>(e, w). Inr (Some e, w))
      else if td_protocol td = ''rtc'' then ClientRTC
      else Inr (None, w))"

text \<open>A TCP server without a port looks for one and stores it; None when the search never ends.\<close>

definition create_server ::
  "proto_env \<Rightarrow> transport_description \<Rightarrow> proto_state
     \<Rightarrow> (endpoint option \<times> transport_description \<times> proto_state) res option" where
  "create_server E td w =
     (if td_protocol td = ''tcp'' then
        (case (if td_port td \<noteq> 0 then Some (td_port td, p_ports w)
               else get_free_port 10001 (c_str (td_channel td)) (garbage_line E) (p_ports w)) of
           None \<Rightarrow> None
         | Some (port, ports) \<Rightarrow>
             Some (bindE (ServerTCP (env.truncate E) port (p_node w)) (\<lambda>(v, n).
               Inr (Some (EndServerTCP v), td\<lparr>td_port := port\<rparr>, w\<lparr>p_node := n, p_ports := ports\<rparr>))))
      else if td_protocol td = ''shm'' then
        (case SHMServer_ctor (c_str (td_channel td)) (to_size (td_port td)) (p_shm w) of
           (e, os) \<Rightarrow> Some (Inr (Some (EndServerSHM e (td_type td = INPUT)), td, w\<lparr>p_shm := os\<rparr>)))
      else if td_protocol td = ''pipe'' then
        Some (bindE (ServerPipe E (c_str (td_channel td)) (td_type td = INPUT) (to_size (td_port td)) w)
          (\<lambda>(e, w). Inr (Some e, td, w)))
      else if td_protocol td = ''rtc'' then Some (Inr (Some EndServerRTC, td, w))
      else Some (Inr (None, td, w)))"

section \<open>Reading back a description\<close>

text \<open>
  The descriptions that survive: a lower-case protocol without colon, an address without colon or
  slash, and, where no direction is given, an address the parser does not take for one.
\<close>

definition td_ok :: "transport_description \<Rightarrow> bool" where
  "td_ok td \<longleftrightarrow> td_valid td \<and> str_to_lower (td_protocol td) = td_protocol td
     \<and> CHR '':'' \<notin> set (td_protocol td) \<and> CHR '':'' \<notin> set (td_ip td) \<and> CHR ''/'' \<notin> set (td_ip td)
     \<and> td_local td = (td_protocol td = ''shm'') \<and> (td_local td \<or> td_ip td \<noteq> []) \<and> int32 (td_port td)
     \<and> (td_type td \<noteq> BOTH \<or> \<not> str_has (td_ip td) ''in'' \<and> \<not> str_has (td_ip td) ''out'')"

definition url_of :: "transport_description \<Rightarrow> string" where
  "url_of td = td_ip td @ (if td_port td \<noteq> 0 then '':'' @ show_int (td_port td) else [])
     @ (case td_type td of BOTH \<Rightarrow> [] | INPUT \<Rightarrow> ''/input'' | OUTPUT \<Rightarrow> ''/output'')"

lemma td_string_cuts:
  assumes "td_ok td"
  shows "str_before (td_to_string td) ''://'' = td_protocol td"
    "str_after (td_to_string td) ''://'' = url_of td"
proof -
  have "td_to_string td = td_protocol td @ ''://'' @ url_of td"
    using assms by (simp add: td_to_string_def url_of_def td_ok_def)
  then show "str_before (td_to_string td) ''://'' = td_protocol td"
    "str_after (td_to_string td) ''://'' = url_of td"
    using assms str_before_hd_notin [of "''://''" "td_protocol td" "url_of td"]
      str_after_hd_notin [of "''://''" "td_protocol td" "url_of td"]
    by (simp_all add: td_ok_def)
qed

lemma url_port_part:
  assumes "td_ok td"
  shows "str_before (str_before (url_of td) '':'') ''/'' = td_ip td"
    "(if str_has (url_of td) '':'' then atoi (str_after (url_of td) '':'') else 0) = td_port td"
proof -
  let ?t = "case td_type td of BOTH \<Rightarrow> [] | INPUT \<Rightarrow> ''/input'' | OUTPUT \<Rightarrow> ''/output''"
  have t: "CHR '':'' \<notin> set ?t" "?t = [] \<or> \<not> isdigit (hd ?t)" "?t = [] \<or> (\<exists>r. ?t = CHR ''/'' # r)"
    by (auto simp: isdigit_def split: EndPointType.splits)
  note td = assms [unfolded td_ok_def]
  have "str_before (str_before (url_of td) '':'') ''/'' = td_ip td
    \<and> (if str_has (url_of td) '':'' then atoi (str_after (url_of td) '':'') else 0) = td_port td"
  proof (cases "td_port td = 0")
    case True
    then have url: "url_of td = td_ip td @ ?t" by (simp add: url_of_def)
    then have "CHR '':'' \<notin> set (url_of td)" using td t(1) by auto
    with t(3) td True show ?thesis by (auto simp: url str_has_def)
  next
    case False
    then have url: "url_of td = td_ip td @ CHR '':'' # show_int (td_port td) @ ?t"
      by (simp add: url_of_def)
    with td t(2) show ?thesis by (simp add: str_has_def atoi_show_int_append)
  qed
  then show "str_before (str_before (url_of td) '':'') ''/'' = td_ip td"
    "(if str_has (url_of td) '':'' then atoi (str_after (url_of td) '':'') else 0) = td_port td"
    by blast+
qed

lemma str_has_append_suffix:
  assumes "p \<noteq> []" and "last p \<notin> set ys"
  shows "str_has (xs @ ys) p \<longleftrightarrow> str_has xs p"
proof
  assume "str_has (xs @ ys) p"
  then obtain us vs where eq: "xs @ ys = (us @ p) @ vs" by (auto simp: str_has_iff)
  then consider (in_xs) zs where "xs = (us @ p) @ zs" | (cross) zs where "us @ p = xs @ zs" "zs @ vs = ys" "zs \<noteq> []"
    by (auto simp: append_eq_append_conv2) (metis append_Nil2 append_is_Nil_conv)+
  then show "str_has xs p"
  proof cases
    case cross
    have "last (us @ p) = last zs" using cross(1,3) by simp
    then have "last p \<in> set ys" using assms(1) cross(2,3) by auto
    with assms(2) show ?thesis by simp
  qed (auto simp: str_has_iff)
next
  assume "str_has xs p"
  then obtain us vs where "xs = us @ p @ vs" by (auto simp: str_has_iff)
  then have "xs @ ys = us @ p @ (vs @ ys)" by simp
  then show "str_has (xs @ ys) p" unfolding str_has_iff by blast
qed

lemma show_int_no_letters [simp]: "CHR ''n'' \<notin> set (show_int i)" "CHR ''t'' \<notin> set (show_int i)"
  by (auto dest!: show_int_chars simp: isdigit_def)

lemma url_type_part:
  assumes "td_ok td"
  shows "(if str_has (str_after (url_of td) ''/'') ''in'' then INPUT
     else if str_has (str_after (url_of td) ''/'') ''out'' then OUTPUT else BOTH) = td_type td"
proof -
  let ?q = "td_ip td @ (if td_port td \<noteq> 0 then '':'' @ show_int (td_port td) else [])"
  note td = assms [unfolded td_ok_def]
  have slash: "CHR ''/'' \<notin> set ?q" using td by simp
  have cut: "str_after (?q @ CHR ''/'' # r) ''/'' = r" for r using slash by (rule str_after_char)
  show ?thesis
  proof (cases "td_type td")
    case INPUT
    then have "url_of td = ?q @ CHR ''/'' # ''input''" by (simp add: url_of_def)
    then have "str_after (url_of td) ''/'' = ''input''" by (simp only: cut)
    with INPUT show ?thesis by (simp add: str_has_def)
  next
    case OUTPUT
    then have "url_of td = ?q @ CHR ''/'' # ''output''" by (simp add: url_of_def)
    then have "str_after (url_of td) ''/'' = ''output''" by (simp only: cut)
    with OUTPUT show ?thesis by (simp add: str_has_def)
  next
    case BOTH
    then have url: "url_of td = ?q" by (simp add: url_of_def)
    have "str_after (url_of td) ''/'' = ?q" unfolding url using slash by (rule str_after_char_None)
    moreover have "\<not> str_has ?q ''in''" "\<not> str_has ?q ''out''"
      using BOTH td by (auto simp: str_has_append_suffix)
    ultimately show ?thesis using BOTH by simp
  qed
qed


definition demo_td :: transport_description where
  "demo_td = \<lparr>td_valid = True, td_protocol = ''tcp'', td_local = False, td_ip = ''0.0.0.0'',
     td_port = 1234, td_channel = ''A'', td_type = OUTPUT\<rparr>"


text \<open>
  A description that names no direction is nevertheless taken for an input when the letters
  "in" occur anywhere in its address.
\<close>

theorem address_taken_for_direction:
  assumes "CHR '':'' \<notin> set protocol" and "CHR ''/'' \<notin> set url" and "str_has url ''in''"
  shows "td_type (TransportDescription channel (protocol @ ''://'' @ url)) = INPUT"
  using assms str_after_hd_notin [of "''://''" protocol url]
  by (simp add: TransportDescription_def Let_def)

theorem address_taken_for_direction_witness:
  "td_type (TransportDescription ''A'' (''tcp'' @ ''://'' @ ''main:80'')) = INPUT"
  by (rule address_taken_for_direction) (simp_all add: str_has_def)

section \<open>The port search\<close>

text \<open>A port is the channel's or free; a channel name that a port file can hold.\<close>

definition port_matches :: "port_files \<Rightarrow> string \<Rightarrow> int \<Rightarrow> bool" where
  "port_matches ports channel i =
     (case ports i of None \<Rightarrow> True | Some s \<Rightarrow> c_str (take 511 (upto_newline s)) = channel)"

definition port_name_ok :: "string \<Rightarrow> bool" where
  "port_name_ok channel \<longleftrightarrow> channel \<noteq> [] \<and> NUL \<notin> set channel \<and> NL \<notin> set channel \<and> length channel \<le> 511"

lemma upto_newline_id [simp]: "NL \<notin> set s \<Longrightarrow> upto_newline s = s"
  by (induction s) auto

lemma find_port_least:
  assumes "finite (dom ports)" and "[] \<notin> ran ports"
  shows "\<exists>p. find_port ports channel buf i = Some p \<and> i \<le> p \<and> port_matches ports channel p
    \<and> (\<forall>q. i \<le> q \<and> q < p \<longrightarrow> \<not> port_matches ports channel q)"
  using assms
proof (induction "card {k \<in> dom ports. i \<le> k}" arbitrary: i buf rule: less_induct)
  case less
  show ?case
  proof (cases "port_matches ports channel i")
    case True
    then have "find_port ports channel buf i = Some i"
      using less.prems(2) by (subst find_port.simps)
        (auto simp: port_matches_def fgets511_def Let_def ran_def split: option.splits)
    with True show ?thesis by (intro exI [of _ i]) auto
  next
    case False
    then obtain s where s: "ports i = Some s" "c_str (take 511 (upto_newline s)) \<noteq> channel" "s \<noteq> []"
      using less.prems(2) by (auto simp: port_matches_def ran_def split: option.splits)
    let ?buf = "take 511 (upto_newline s)"
    have step: "find_port ports channel buf i = find_port ports channel ?buf (i + 1)"
      using s by (subst find_port.simps) (simp add: fgets511_def Let_def)
    have "i \<in> {k \<in> dom ports. i \<le> k}" "i \<notin> {k \<in> dom ports. i + 1 \<le> k}" using s(1) by auto
    moreover have "{k \<in> dom ports. i + 1 \<le> k} \<subseteq> {k \<in> dom ports. i \<le> k}" by auto
    ultimately have "{k \<in> dom ports. i + 1 \<le> k} \<subset> {k \<in> dom ports. i \<le> k}" by blast
    then have "card {k \<in> dom ports. i + 1 \<le> k} < card {k \<in> dom ports. i \<le> k}"
      using less.prems(1) by (intro psubset_card_mono) auto
    from less.hyps [OF this less.prems, of ?buf] obtain p where
      p: "find_port ports channel ?buf (i + 1) = Some p" "i + 1 \<le> p" "port_matches ports channel p"
        "\<forall>q. i + 1 \<le> q \<and> q < p \<longrightarrow> \<not> port_matches ports channel q" by blast
    moreover have "\<not> port_matches ports channel q" if "i \<le> q" "q < p" for q
      using that p(4) False by (cases "q = i") auto
    ultimately show ?thesis using step by (intro exI [of _ p]) auto
  qed
qed

lemma find_port_unique:
  assumes "finite (dom ports)" and "[] \<notin> ran ports" and "port_matches ports channel p" and "i \<le> p"
    and "\<forall>q. i \<le> q \<and> q < p \<longrightarrow> \<not> port_matches ports channel q"
  shows "find_port ports channel buf i = Some p"
proof -
  obtain r where r: "find_port ports channel buf i = Some r" "i \<le> r" "port_matches ports channel r"
      "\<forall>q. i \<le> q \<and> q < r \<longrightarrow> \<not> port_matches ports channel q"
    using find_port_least [OF assms(1,2)] by blast
  then have "r = p" using assms(3-5) by (metis linorder_neqE)
  with r(1) show ?thesis by simp
qed

text \<open>
  Over finitely many non-empty port files the search ends: it returns the least port from the
  first that is free or already the channel's, records the channel there, and a second search
  returns the same port and changes nothing.
\<close>

theorem get_free_port_least_and_stable:
  assumes "finite (dom ports)" and "[] \<notin> ran ports" and "port_name_ok channel"
  shows "\<exists>p. get_free_port firstPort channel garbage ports = Some (p, ports(p \<mapsto> channel))
    \<and> firstPort \<le> p \<and> port_matches ports channel p
    \<and> {q. firstPort \<le> q \<and> q < p \<and> port_matches ports channel q} = {}
    \<and> get_free_port firstPort channel garbage' (ports(p \<mapsto> channel)) = Some (p, ports(p \<mapsto> channel))"
proof -
  obtain p where p: "find_port ports channel garbage firstPort = Some p" "firstPort \<le> p"
      "port_matches ports channel p"
      "\<forall>q. firstPort \<le> q \<and> q < p \<longrightarrow> \<not> port_matches ports channel q"
    using find_port_least [OF assms(1,2)] by blast
  let ?ports = "ports(p \<mapsto> channel)"
  have own: "port_matches ?ports channel p"
    using assms(3) by (simp add: port_matches_def port_name_ok_def)
  have "[] \<notin> ran ?ports" using assms(2,3) by (auto simp: ran_def port_name_ok_def)
  moreover have "\<not> port_matches ?ports channel q" if "firstPort \<le> q" "q < p" for q
    using p(4) that by (simp add: port_matches_def)
  ultimately have "find_port ?ports channel garbage' firstPort = Some p"
    using assms(1) own p(2) by (intro find_port_unique) auto
  with p show ?thesis by (intro exI [of _ p]) (auto simp: get_free_port_def)
qed

theorem get_free_port_least_and_stable_witness:
  "\<exists>p. get_free_port 10001 ''B'' [] [10001 \<mapsto> ''A''] = Some (p, [10001 \<mapsto> ''A'', p \<mapsto> ''B'']) \<and> 10001 \<le> p"
proof -
  have "finite (dom [10001::int \<mapsto> ''A''])" "[] \<notin> ran [10001::int \<mapsto> ''A'']" "port_name_ok ''B''"
    by (simp_all add: port_name_ok_def NUL_def NL_def)
  from get_free_port_least_and_stable [OF this, of 10001 "[]"] show ?thesis by blast
qed

section \<open>Pipes\<close>

text \<open>
  What fills whole buffers arrives unchanged; the last, incomplete piece arrives padded with
  what the buffer held before, and is then passed on again on every turn.
\<close>

theorem pipe_reader_delivers:
  assumes "length content = k * length buf"
  shows "concat (pipe_reader k buf content) = content"
  using assms
proof (induction k arbitrary: buf content)
  case (Suc k)
  let ?b = "length buf"
  have len: "?b \<le> length content" using Suc.prems by simp
  then have turn: "pipe_read buf content = (take ?b content, drop ?b content)"
    by (simp add: pipe_read_def)
  have "concat (pipe_reader k (take ?b content) (drop ?b content)) = drop ?b content"
    using Suc.prems len by (intro Suc.IH) simp
  then show ?case by (simp add: turn)
qed simp

theorem pipe_reader_delivers_witness:
  "concat (pipe_reader 2 ''..'' ''abcd'') = ''abcd''"
  by (rule pipe_reader_delivers) simp

text \<open>At the end of the data the reader passes its whole old buffer on, again and again.\<close>

theorem pipe_reader_repeats:
  assumes "length content \<le> length buf"
  shows "pipe_reader k buf content = replicate k (content @ drop (length content) buf)"
proof (cases k)
  case (Suc j)
  have idle: "pipe_reader j b [] = replicate j b" for j b
    by (induction j) (simp_all add: pipe_read_def)
  show ?thesis using Suc assms by (simp add: pipe_read_def idle)
qed simp

theorem pipe_reader_repeats_witness:
  "pipe_reader 3 ''xyz'' ''a'' = [''ayz'', ''ayz'', ''ayz'']"
  using pipe_reader_repeats [of "''a''" "''xyz''" 3] by (simp add: numeral_3_eq_3)

section \<open>TCP endpoints\<close>

lemma send_to_all:
  "list_all (\<lambda>s. sock_tab n s \<noteq> None) ss \<Longrightarrow>
   foldE (\<lambda>s. sock_write_buf s buf) ss n = Inr (n\<lparr>out := out n @ map (\<lambda>s. Send s buf) ss\<rparr>)"
  by (induction ss arbitrary: n) (auto simp: sock_write_buf_def)

text \<open>
  A server sends to every connection it holds, in order and once each.
\<close>

theorem ServerTCP_send_all:
  assumes "server_tab n v = Some sv" and "list_all (\<lambda>s. sock_tab n s \<noteq> None) (srv_connections sv)"
  shows "ServerTCP_send v buf n = Inr (n\<lparr>out := out n @ map (\<lambda>s. Send s buf) (srv_connections sv)\<rparr>)"
  using assms send_to_all by (simp add: ServerTCP_send_def server_broadcast_def)

text \<open>
  When the connection of a ClientTCP ends, its socket thread calls an empty function: the
  exception is not one the thread catches.
\<close>

theorem ClientTCP_close_throws:
  assumes "ClientTCP E ip port n = Inr (s, m)"
  shows "thread_closed E' s m = Inl (Thrown ''std::bad_function_call'')"
  using assms
  by (auto simp: ClientTCP_def new_TCPSocket_connect_def new_TCPSocket_def sock_connect_def
      thread_closed_def split: if_splits)

text \<open>
  The factory gives a TCP server without a port the first port that is free or already its
  channel's, stores it in the description and the port file, and listens on it.
\<close>

theorem create_server_finds_port:
  assumes "td_protocol td = ''tcp''" and "td_port td = 0" and "finite (dom (p_ports w))"
    and "[] \<notin> ran (p_ports w)" and "can_socket E" and "\<And>p. can_bind E p"
  shows "\<exists>p w'. create_server E td w =
      Some (Inr (Some (EndServerTCP (next_addr (p_node w))), td\<lparr>td_port := p\<rparr>, w'))
    \<and> 10001 \<le> p \<and> port_matches (p_ports w) (c_str (td_channel td)) p
    \<and> p_ports w' p = Some (c_str (td_channel td))
    \<and> map_option srv_port (server_tab (p_node w') (next_addr (p_node w))) = Some p"
proof -
  obtain p where p: "find_port (p_ports w) (c_str (td_channel td)) (garbage_line E) 10001 = Some p"
      "10001 \<le> p" "port_matches (p_ports w) (c_str (td_channel td)) p"
    using find_port_least [OF assms(3,4)] by blast
  then show ?thesis
    using assms(1,2,5,6)
    by (intro exI [of _ p])
       (simp add: create_server_def get_free_port_def ServerTCP_def TCPServer_port_def server_bind_def
        new_server_def env.defs)
qed

definition demo_proto_env :: proto_env where
  "demo_proto_env = \<lparr>resolves = (\<lambda>_. True), can_socket = True, can_bind = (\<lambda>_. True), rand_value = 7,
     shm_create = (\<lambda>_ _. []), shm_open = (\<lambda>_ _. []), shm_attach = (\<lambda>_. []),
     opens = (\<lambda>_. True), garbage_size = 0, garbage_line = []\<rparr>"

definition demo_proto_state :: proto_state where
  "demo_proto_state = \<lparr>p_node = empty_node, p_shm = empty_os, p_ports = [10001 \<mapsto> ''A''], p_fifos = Map.empty\<rparr>"

theorem create_server_finds_port_witness:
  "\<exists>p w'. create_server demo_proto_env (demo_td\<lparr>td_port := 0\<rparr>) demo_proto_state =
      Some (Inr (Some (EndServerTCP 0), demo_td\<lparr>td_port := p\<rparr>, w')) \<and> 10001 \<le> p"
  using create_server_finds_port [of "demo_td\<lparr>td_port := 0\<rparr>" demo_proto_state demo_proto_env]
  by (auto simp: demo_td_def demo_proto_state_def demo_proto_env_def empty_node_def)

definition demo_server_node :: node where
  "demo_server_node = empty_node\<lparr>
     sock_tab := [1 \<mapsto> TCPSocket_default, 2 \<mapsto> TCPSocket_default],
     server_tab := [0 \<mapsto> \<lparr>srv_port = 10001, srv_bStop = False, srv_connections = [1, 2], srv_on_open = AcceptNone\<rparr>],
     next_addr := 3\<rparr>"

theorem ServerTCP_send_all_witness:
  "ServerTCP_send 0 ''hi'' demo_server_node =
    Inr (demo_server_node\<lparr>out := [Send 1 ''hi'', Send 2 ''hi'']\<rparr>)"
  using ServerTCP_send_all [of demo_server_node 0 "\<lparr>srv_port = 10001, srv_bStop = False,
      srv_connections = [1, 2], srv_on_open = AcceptNone\<rparr>" "''hi''"]
  by (simp add: demo_server_node_def empty_node_def)

theorem ClientTCP_close_throws_witness:
  "\<exists>s m. ClientTCP (env.truncate demo_proto_env) ''h'' 80 empty_node = Inr (s, m)
    \<and> thread_closed (env.truncate demo_proto_env) s m = Inl (Thrown ''std::bad_function_call'')"
proof -
  obtain s m where "ClientTCP (env.truncate demo_proto_env) ''h'' 80 empty_node = Inr (s, m)"
    by (simp add: ClientTCP_def new_TCPSocket_connect_def new_TCPSocket_def sock_connect_def
        demo_proto_env_def env.defs)
  with ClientTCP_close_throws [OF this] show ?thesis by blast
qed

end
