(* ===== verification/Endpoints.thy ===== *)
theory Endpoints
  imports Transports
begin

text \<open>
  What the two ends of a transport do once the factories of src/protocols made them: \<open>send\<close> of every
  endpoint class, the turns of the reader threads, and \<open>on_receive\<close>. Shown: which of the two ends of a
  description reads, that the shared memory ends exchange every message that fits, that a TCP client
  gets what its server sends, that a TCP server never passes on what its clients send, and that closing
  it through the interface does not close it.
\<close>

section \<open>Shared memory ends (protocols/shm.h, utils/shm.cpp)\<close>

text \<open>
  A whole \<open>write(buf, len)\<close> and a whole \<open>read()\<close> of an end whose segment still has its name, run
  without interruption; None when the thread waits. The client maps \<open>bufsize\<close> bytes, the server four
  more.
\<close>

definition shm_end_write :: "nat \<Rightarrow> shm_end \<Rightarrow> string \<Rightarrow> shm_os \<Rightarrow> shm_os res option" where
  "shm_end_write mapped e msg os =
     (if sem_value os (e_semWrite e) = 0 then None
      else Some (bindE (live (segments os) (seg_path (e_name e))) (\<lambda>s.
        if mapped < length msg \<or> length s < length msg then Inl OutOfBounds
        else Inr (os\<lparr>segments := (segments os)(seg_path (e_name e) \<mapsto> overlay s msg),
            sem_value := (sem_value os)(e_semWrite e := sem_value os (e_semWrite e) - 1,
              e_semRead e := Suc (sem_value os (e_semRead e)))\<rparr>))))"

definition shm_end_read :: "shm_end \<Rightarrow> shm_os \<Rightarrow> (string \<times> shm_os) res option" where
  "shm_end_read e os =
     (if sem_value os (e_semRead e) = 0 then None
      else Some (bindE (live (segments os) (seg_path (e_name e))) (\<lambda>s.
        Inr (take (e_bufsize e) s,
          os\<lparr>sem_value := (sem_value os)(e_semRead e := sem_value os (e_semRead e) - 1,
              e_semWrite e := Suc (sem_value os (e_semWrite e)))\<rparr>))))"

text \<open>\<open>read(buf, len)\<close> copies \<open>len\<close> bytes instead of calling \<open>on_receive\<close>.\<close>

definition shm_end_read_into :: "nat \<Rightarrow> shm_end \<Rightarrow> nat \<Rightarrow> shm_os \<Rightarrow> (string \<times> shm_os) res option" where
  "shm_end_read_into mapped e len os =
     (if sem_value os (e_semRead e) = 0 then None
      else Some (bindE (live (segments os) (seg_path (e_name e))) (\<lambda>s.
        if mapped < len then Inl OutOfBounds
        else Inr (take len s,
          os\<lparr>sem_value := (sem_value os)(e_semRead e := sem_value os (e_semRead e) - 1,
              e_semWrite e := Suc (sem_value os (e_semWrite e)))\<rparr>))))"

definition ServerSHM_read_into :: "shm_end \<Rightarrow> nat \<Rightarrow> shm_os \<Rightarrow> (string \<times> shm_os) res option" where
  "ServerSHM_read_into e len os = shm_end_read_into (e_bufsize e + 4) e len os"

definition ClientSHM_read_into :: "shm_end \<Rightarrow> nat \<Rightarrow> shm_os \<Rightarrow> (string \<times> shm_os) res option" where
  "ClientSHM_read_into e len os = shm_end_read_into (e_bufsize e) e len os"

definition ServerSHM_send :: "shm_end \<Rightarrow> string \<Rightarrow> shm_os \<Rightarrow> shm_os res option" where
  "ServerSHM_send e buf os = shm_end_write (e_bufsize e + 4) e buf os"

definition ClientSHM_send :: "shm_end \<Rightarrow> string \<Rightarrow> shm_os \<Rightarrow> shm_os res option" where
  "ClientSHM_send e buf os = shm_end_write (e_bufsize e) e buf os"

text \<open>
  \<open>on_receive\<close> of every endpoint class: the callback runs when one was set. The list is what it is
  called with.
\<close>

definition endpoint_on_receive :: "bool \<Rightarrow> string \<Rightarrow> string list" where
  "endpoint_on_receive cb buf = (if cb then [buf] else [])"

section \<open>The other endpoints\<close>

text \<open>\<open>write\<close> on a descriptor that was opened for reading fails, and nobody looks at its result.\<close>

definition ServerPipe_send :: "string \<Rightarrow> bool \<Rightarrow> string \<Rightarrow> proto_state \<Rightarrow> proto_state" where
  "ServerPipe_send path isInput buf w =
     (if isInput then w
      else w\<lparr>p_fifos := (p_fifos w)(path := map_option (\<lambda>c. pipe_send c buf) (p_fifos w path))\<rparr>)"

definition ClientPipe_send :: "string \<Rightarrow> bool \<Rightarrow> string \<Rightarrow> proto_state \<Rightarrow> proto_state" where
  "ClientPipe_send path isInput buf w =
     (if isInput then w
      else w\<lparr>p_fifos := (p_fifos w)(path := map_option (\<lambda>c. pipe_send c buf) (p_fifos w path))\<rparr>)"

definition ServerRTC_send :: "string \<Rightarrow> proto_state \<Rightarrow> proto_state" where
  "ServerRTC_send buf w = w"

definition ClientRTC_send :: "string \<Rightarrow> 'a res" where
  "ClientRTC_send buf = Inl (Thrown ''Not Implemented'')"

text \<open>The virtual \<open>send\<close>; None when it waits for the semaphore.\<close>

definition proto_send :: "endpoint \<Rightarrow> string \<Rightarrow> proto_state \<Rightarrow> proto_state res option" where
  "proto_send ep buf w =
     (case ep of
        EndServerTCP v \<Rightarrow> Some (bindE (ServerTCP_send v buf (p_node w)) (\<lambda>n. Inr (w\<lparr>p_node := n\<rparr>)))
      | EndClientTCP s \<Rightarrow> Some (bindE (ClientTCP_send s buf (p_node w)) (\<lambda>n. Inr (w\<lparr>p_node := n\<rparr>)))
      | EndServerSHM e r \<Rightarrow>
          map_option (\<lambda>x. bindE x (\<lambda>os. Inr (w\<lparr>p_shm := os\<rparr>))) (ServerSHM_send e buf (p_shm w))
      | EndClientSHM e r \<Rightarrow>
          map_option (\<lambda>x. bindE x (\<lambda>os. Inr (w\<lparr>p_shm := os\<rparr>))) (ClientSHM_send e buf (p_shm w))
      | EndServerPipe path r sz \<Rightarrow> Some (Inr (ServerPipe_send path r buf w))
      | EndClientPipe path r sz \<Rightarrow> Some (Inr (ClientPipe_send path r buf w))
      | EndServerRTC \<Rightarrow> Some (Inr (ServerRTC_send buf w)))"

text \<open>A turn of the reader thread of a shared memory end; an end that is no input has no thread.\<close>

fun shm_turn :: "bool \<Rightarrow> endpoint \<Rightarrow> proto_state \<Rightarrow> (string list \<times> proto_state) res option" where
  "shm_turn cb (EndServerSHM e True) w = map_option (\<lambda>x. bindE x (\<lambda>(m, os).
     Inr (endpoint_on_receive cb m, w\<lparr>p_shm := os\<rparr>))) (shm_end_read e (p_shm w))"
| "shm_turn cb (EndClientSHM e True) w = map_option (\<lambda>x. bindE x (\<lambda>(m, os).
     Inr (endpoint_on_receive cb m, w\<lparr>p_shm := os\<rparr>))) (shm_end_read e (p_shm w))"
| "shm_turn cb _ w = None"

text \<open>
  What the thread of a ClientTCP passes to \<open>on_receive\<close>, which this class overrides; it never sets
  \<open>cbRecv\<close>.
\<close>

definition client_received :: "bool \<Rightarrow> addr \<Rightarrow> string \<Rightarrow> node \<Rightarrow> string list res" where
  "client_received cb s buf n =
     bindE (live (sock_tab n) s) (\<lambda>so.
     Inr (concat (map (endpoint_on_receive cb) (if s_bLinebuffer so then recv_chunks buf else [buf]))))"

text \<open>
  \<open>close\<close> called through the interface: no endpoint class overrides the empty ones of Client and Server;
  the \<open>close\<close> of a TCPServer or TCPSocket base is another function. Conversion of a description to
  \<open>bool\<close>. The WebRTC server neither starts nor stops anything.
\<close>

definition Client_close :: "endpoint \<Rightarrow> proto_state \<Rightarrow> proto_state" where
  "Client_close ep w = w"

definition Server_close :: "endpoint \<Rightarrow> proto_state \<Rightarrow> proto_state" where
  "Server_close ep w = w"

definition td_bool :: "transport_description \<Rightarrow> bool" where
  "td_bool td = td_valid td"

definition ServerRTC :: "string \<Rightarrow> bool \<Rightarrow> int \<Rightarrow> proto_state \<Rightarrow> endpoint \<times> proto_state" where
  "ServerRTC channel isInput port w = (EndServerRTC, w)"

definition ServerRTC_dtor :: "proto_state \<Rightarrow> proto_state" where
  "ServerRTC_dtor w = w"

text \<open>
  So a server that was made from a description and closed again still listens: the port stays taken
  and the next connection is accepted and entered in its list.
\<close>

theorem closed_server_accepts:
  assumes "create_server E td w = Some (Inr (Some (EndServerTCP v), td', w1))"
  shows "\<exists>m. server_accept v ip port (p_node (Server_close (EndServerTCP v) w1)) = Inr m
    \<and> map_option srv_connections (server_tab m v) = Some [next_addr (p_node w1)]"
proof -
  obtain sv where "server_tab (p_node w1) v = Some sv" "srv_connections sv = []" "srv_on_open sv = AcceptNone"
    using assms
    by (auto simp: create_server_def ServerTCP_def TCPServer_port_def new_server_def server_bind_def ServerPipe_def Let_def
        split: if_splits option.splits sum.splits prod.splits)
  then show ?thesis
    by (simp add: Server_close_def server_accept_def new_TCPSocket_fd_def run_accept_cb_def)
qed

section \<open>Who reads\<close>

fun reads :: "endpoint \<Rightarrow> bool" where
  "reads (EndServerSHM e r) = r"
| "reads (EndClientSHM e r) = r"
| "reads (EndServerPipe p r sz) = r"
| "reads (EndClientPipe p r sz) = r"
| "reads _ = True"

text \<open>
  Of the two ends the factories make from one description of a shared memory or pipe transport
  exactly one reads, the server for an input and the client for an output; for a description that
  names no direction neither does.
\<close>

theorem one_end_reads:
  assumes "td_protocol td = ''shm'' \<or> td_protocol td = ''pipe''"
    and "create_server E td w = Some (Inr (Some sv, td', w1))" and "create_client E td' w1 = Inr (Some cl, w2)"
  shows "reads sv = (td_type td = INPUT) \<and> reads cl = (td_type td = OUTPUT)"
proof (cases "td_protocol td = ''shm''")
  case True
  then show ?thesis
    using assms(2,3) by (auto simp: create_server_def create_client_def split: prod.splits)
next
  case False
  then have "td_protocol td = ''pipe''" using assms(1) by simp
  then show ?thesis
    using assms(2,3)
    by (auto simp: create_server_def create_client_def ServerPipe_def ClientPipe_def Let_def split: if_splits)
qed

theorem one_end_reads_witness:
  "\<exists>td' w1 sv. create_server demo_proto_env (demo_td\<lparr>td_protocol := ''pipe'', td_type := INPUT\<rparr>) demo_proto_state
     = Some (Inr (Some sv, td', w1)) \<and> reads sv"
proof -
  let ?td = "demo_td\<lparr>td_protocol := ''pipe'', td_type := INPUT\<rparr>"
  obtain sv w1 cl w2 where "create_server demo_proto_env ?td demo_proto_state = Some (Inr (Some sv, ?td, w1))"
      "create_client demo_proto_env ?td w1 = Inr (Some cl, w2)"
    by (simp add: create_server_def create_client_def ServerPipe_def ClientPipe_def demo_proto_env_def Let_def demo_td_def)
  with one_end_reads [OF _ this] show ?thesis by (auto simp: demo_td_def)
qed

section \<open>Shared memory: every message that fits arrives\<close>

text \<open>Send, let the other end take its turn, and again for the next message.\<close>

fun shm_exchange :: "endpoint \<Rightarrow> endpoint \<Rightarrow> string list \<Rightarrow> proto_state \<Rightarrow> (string list \<times> proto_state) res option" where
  "shm_exchange a b [] w = Some (Inr ([], w))"
| "shm_exchange a b (m # ms) w =
     (case proto_send a m w of
        Some (Inr w) \<Rightarrow>
          (case shm_turn True b w of
             Some (Inr (got, w)) \<Rightarrow>
               (case shm_exchange a b ms w of
                  Some (Inr (rest, w)) \<Rightarrow> Some (Inr (got @ rest, w))
                | r \<Rightarrow> r)
           | Some (Inl f) \<Rightarrow> Some (Inl f)
           | None \<Rightarrow> None)
      | Some (Inl f) \<Rightarrow> Some (Inl f)
      | None \<Rightarrow> None)"

text \<open>Both ends on the same live segment, with the semaphores of an empty hand-off.\<close>

definition shm_pair :: "shm_end \<Rightarrow> string \<Rightarrow> shm_os \<Rightarrow> bool" where
  "shm_pair e m os \<longleftrightarrow> e_semRead e \<noteq> e_semWrite e \<and> sem_value os (e_semRead e) = 0
     \<and> sem_value os (e_semWrite e) = 1
     \<and> (case segments os (seg_path (e_name e)) of None \<Rightarrow> False
        | Some s \<Rightarrow> length s = e_bufsize e + 4 \<and> take (e_bufsize e) s = m)"

lemma take_overlay: "length msg \<le> k \<Longrightarrow> k \<le> length s \<Longrightarrow> take k (overlay s msg) = overlay (take k s) msg"
  by (simp add: overlay_def take_drop)

definition shm_writer :: "shm_end \<Rightarrow> endpoint \<Rightarrow> bool" where
  "shm_writer e a \<longleftrightarrow> (\<exists>r. a = EndServerSHM e r \<or> a = EndClientSHM e r)"

lemma exchange_one:
  assumes "shm_pair e m (p_shm w)" and "shm_writer e a" and "b = EndServerSHM e True \<or> b = EndClientSHM e True"
    and "length msg \<le> e_bufsize e"
  shows "\<exists>w1 w2. proto_send a msg w = Some (Inr w1) \<and> shm_turn True b w1 = Some (Inr ([overlay m msg], w2))
    \<and> shm_pair e (overlay m msg) (p_shm w2)"
proof -
  obtain s where s: "segments (p_shm w) (seg_path (e_name e)) = Some s" "length s = e_bufsize e + 4"
      "take (e_bufsize e) s = m"
    using assms(1) by (auto simp: shm_pair_def split: option.splits)
  have sem: "e_semRead e \<noteq> e_semWrite e" "sem_value (p_shm w) (e_semRead e) = 0"
      "sem_value (p_shm w) (e_semWrite e) = 1"
    using assms(1) by (simp_all add: shm_pair_def)
  have len: "length (overlay s msg) = e_bufsize e + 4" using s(2) assms(4) by (simp add: overlay_def)
  have over: "take (e_bufsize e) (overlay s msg) = overlay m msg"
    using take_overlay [OF assms(4), of s] s by simp
  show ?thesis
    using assms(2,3,4) s(1,2) sem len over
    by (auto simp: shm_writer_def proto_send_def ServerSHM_send_def ClientSHM_send_def shm_end_write_def
        shm_end_read_def endpoint_on_receive_def shm_pair_def)
qed

lemma exchange_all:
  assumes "shm_pair e m (p_shm w)" and "shm_writer e a" and "b = EndServerSHM e True \<or> b = EndClientSHM e True"
    and "\<forall>msg\<in>set ms. length msg \<le> e_bufsize e"
  shows "\<exists>w'. shm_exchange a b ms w = Some (Inr (images m ms, w'))"
  using assms
proof (induction ms arbitrary: m w)
  case (Cons msg ms)
  obtain w1 w2 where w: "proto_send a msg w = Some (Inr w1)"
      "shm_turn True b w1 = Some (Inr ([overlay m msg], w2))" "shm_pair e (overlay m msg) (p_shm w2)"
    using exchange_one [OF Cons.prems(1-3), of msg] Cons.prems(4) by auto
  then show ?case using Cons.IH [OF w(3) Cons.prems(2,3)] Cons.prems(4) by auto
qed simp


text \<open>
  \<open>read(buf, len)\<close> with the length of the message returns the message itself, without the bytes of
  older ones behind it, and gives the segment back.
\<close>

lemma send_read_into:
  assumes "shm_pair e m os" and "length msg \<le> e_bufsize e"
  shows "\<exists>os1 os2. ServerSHM_send e msg os = Some (Inr os1)
    \<and> ClientSHM_read_into e (length msg) os1 = Some (Inr (msg, os2)) \<and> shm_pair e (overlay m msg) os2"
proof -
  obtain s where s: "segments os (seg_path (e_name e)) = Some s" "length s = e_bufsize e + 4"
      "take (e_bufsize e) s = m"
    using assms(1) by (auto simp: shm_pair_def split: option.splits)
  have "length (overlay s msg) = e_bufsize e + 4" "take (length msg) (overlay s msg) = msg"
      "take (e_bufsize e) (overlay s msg) = overlay m msg"
    using s assms(2) take_overlay [OF assms(2), of s] by (simp_all add: overlay_def)
  then show ?thesis
    using assms s
    by (auto simp: ServerSHM_send_def ClientSHM_read_into_def shm_end_write_def shm_end_read_into_def shm_pair_def)
qed

text \<open>
  Direct memory access: the message is stored through \<open>get_mem\<close>, then \<open>write()\<close> waits and posts without
  copying. When the write semaphore is up this is the copying \<open>write\<close>; when it is not, the store has
  changed what the reader is still to be given.
\<close>

definition mem_store :: "nat \<Rightarrow> shm_end \<Rightarrow> string \<Rightarrow> shm_os \<Rightarrow> shm_os res" where
  "mem_store mapped e msg os =
     bindE (get_mem e os) (\<lambda>s.
     if mapped < length msg \<or> length s < length msg then Inl OutOfBounds
     else Inr (os\<lparr>segments := (segments os)(seg_path (e_name e) \<mapsto> overlay s msg)\<rparr>))"

definition shm_end_write_dma :: "shm_end \<Rightarrow> shm_os \<Rightarrow> shm_os option" where
  "shm_end_write_dma e os =
     (if sem_value os (e_semWrite e) = 0 then None
      else Some (os\<lparr>sem_value := (sem_value os)(e_semWrite e := sem_value os (e_semWrite e) - 1,
              e_semRead e := Suc (sem_value os (e_semRead e)))\<rparr>))"

theorem dma_write_is_copy_when_free:
  assumes "mem_store mapped e msg os = Inr os1"
  shows "if 0 < sem_value os (e_semWrite e)
    then map_option Inr (shm_end_write_dma e os1) = shm_end_write mapped e msg os
    else shm_end_write mapped e msg os = None \<and> get_mem e os1 = bindE (get_mem e os) (\<lambda>s. Inr (overlay s msg))"
  using assms
  by (auto simp: mem_store_def get_mem_def shm_end_write_def shm_end_write_dma_def bindE_eq_Inr_iff split: if_splits)

definition demo_shm_td :: transport_description where
  "demo_shm_td = \<lparr>td_valid = True, td_protocol = ''shm'', td_local = True, td_ip = [], td_port = 2,
     td_channel = ''c'', td_type = OUTPUT\<rparr>"


section \<open>TCP: one way only\<close>

text \<open>
  C37: over TCP data flows from the server to its clients only. What the server sends reaches every
  connection it accepted, the last one included, and the callback of the client that dialled; what
  arrives on an accepted connection goes to no callback and changes nothing, because the
  \<open>on_receive\<close> of ServerTCP overrides no method of the sockets that receive.
\<close>

theorem tcp_one_way:
  assumes "server_tab A v = Some sv" and "srv_on_open sv = AcceptNone"
    and "list_all (\<lambda>s. sock_tab A s \<noteq> None) (srv_connections sv)" and "ClientTCP E ip port B = Inr (s, B1)"
  shows "\<exists>A1 A2. server_accept v ip' port' A = Inr A1 \<and> ServerTCP_send v buf A1 = Inr A2
    \<and> out A2 = out A1 @ map (\<lambda>s. Send s buf) (srv_connections sv @ [next_addr A])
    \<and> client_received cb s buf B1 = Inr (if cb then [buf] else [])
    \<and> thread_received E' (next_addr A) reply A2 = Inr A2"
proof -
  let ?sk = "next_addr A"
  obtain A1 where A1: "server_accept v ip' port' A = Inr A1"
      "server_tab A1 v = Some (sv\<lparr>srv_connections := srv_connections sv @ [?sk]\<rparr>)"
      "map_option s_cbRecv (sock_tab A1 ?sk) = Some RecvNone"
      "map_option s_bLinebuffer (sock_tab A1 ?sk) = Some False"
      "\<forall>x. sock_tab A x \<noteq> None \<longrightarrow> sock_tab A1 x \<noteq> None"
    using assms(1,2)
    by (simp add: server_accept_def new_TCPSocket_fd_def run_accept_cb_def TCPSocket_default_def)
  have "list_all (\<lambda>s. sock_tab A1 s \<noteq> None) (srv_connections sv @ [?sk])"
    using A1(3,5) assms(3) by (auto simp: list_all_iff)
  then have send: "ServerTCP_send v buf A1 = Inr (A1\<lparr>out := out A1 @ map (\<lambda>s. Send s buf) (srv_connections sv @ [?sk])\<rparr>)"
    using send_to_all [of A1 _ buf] A1(2) by (simp add: ServerTCP_send_def server_broadcast_def)
  have "client_received cb s buf B1 = Inr (if cb then [buf] else [])"
    using assms(4)
    by (auto simp: ClientTCP_def new_TCPSocket_connect_def new_TCPSocket_def sock_connect_def client_received_def
        endpoint_on_receive_def TCPSocket_default_def split: if_splits)
  moreover have "thread_received E' ?sk reply (A1\<lparr>out := x\<rparr>) = Inr (A1\<lparr>out := x\<rparr>)" for x
    using A1(3,4) by (auto simp: thread_received_def run_recv_cb_def)
  ultimately show ?thesis using A1(1) send by auto
qed

theorem tcp_one_way_witness:
  "\<exists>A1 A2. server_accept 0 ''h'' 5 demo_server_node = Inr A1 \<and> ServerTCP_send 0 ''hi'' A1 = Inr A2
    \<and> thread_received (env.truncate demo_proto_env) 3 ''x'' A2 = Inr A2"
proof -
  obtain s m where c: "ClientTCP (env.truncate demo_proto_env) ''h'' 80 empty_node = Inr (s, m)"
    by (simp add: ClientTCP_def new_TCPSocket_connect_def new_TCPSocket_def sock_connect_def
        demo_proto_env_def env.defs)
  from tcp_one_way [OF _ _ _ c, of demo_server_node 0 "\<lparr>srv_port = 10001, srv_bStop = False,
      srv_connections = [1, 2], srv_on_open = AcceptNone\<rparr>" "''h''" 5 "''hi''" True
      "env.truncate demo_proto_env" "''x''"]
  show ?thesis by (auto simp: demo_server_node_def empty_node_def)
qed

theorem closed_server_accepts_witness:
  "\<exists>w1 m. create_server demo_proto_env (demo_td\<lparr>td_port := 8000\<rparr>) demo_proto_state =
      Some (Inr (Some (EndServerTCP 0), demo_td\<lparr>td_port := 8000\<rparr>, w1))
    \<and> server_accept 0 ''127.0.0.1'' 5 (p_node (Server_close (EndServerTCP 0) w1)) = Inr m"
proof -
  obtain w1 where w1: "create_server demo_proto_env (demo_td\<lparr>td_port := 8000\<rparr>) demo_proto_state =
      Some (Inr (Some (EndServerTCP 0), demo_td\<lparr>td_port := 8000\<rparr>, w1))"
    by (simp add: create_server_def ServerTCP_def TCPServer_port_def server_bind_def new_server_def env.defs
        demo_td_def demo_proto_env_def demo_proto_state_def empty_node_def)
  show ?thesis using w1 closed_server_accepts [OF w1, of "''127.0.0.1''" 5] by blast
qed

end
