(* ===== verification/Websocket.thy ===== *)
theory Websocket
  imports CLib
begin

text \<open>
  src/utils/websocket.cpp: the callback that ties a session of libwebsockets to a peer object, the
  buffer \<open>send\<close> builds, and the server object with the thread that runs its loop. libwebsockets
  itself and \<open>createPeer\<close>, which the sources only declare, are parameters. Shown: a session that is established, receives and is closed in this order reaches
  one peer with its messages and frees it; a receive after the close uses the freed peer; \<open>send\<close>
  stays inside its buffer and hands over exactly the message; the loop returns after the turn in
  which the server is closed; the last server constructed creates the peers of all.
\<close>

section \<open>Sessions\<close>

text \<open>
  The storage cell libwebsockets keeps per session (\<open>user\<close>), holding a pointer to the peer; the peers
  that are alive; the messages passed to \<open>onMessage\<close>.
\<close>

record ws_state =
  ws_server :: bool
  ws_user :: "nat \<Rightarrow> nat option"
  ws_peers :: "nat set"
  ws_messages :: "(nat \<times> string) list"

datatype ws_reason = LWS_ESTABLISHED | LWS_RECEIVE | LWS_CLOSED | LWS_OTHER

text \<open>\<open>user\<close> is None for a null pointer. \<open>createPeer\<close> gives the address of the new peer of a session.\<close>

definition callback_websocket ::
  "(nat \<Rightarrow> nat) \<Rightarrow> nat option \<Rightarrow> ws_reason \<Rightarrow> string \<Rightarrow> ws_state \<Rightarrow> ws_state res" where
  "callback_websocket createPeer user reason msg w =
     (let peer = Option.bind user (ws_user w) in
      case reason of
        LWS_ESTABLISHED \<Rightarrow>
          (case user of
             None \<Rightarrow> Inl NullDeref
           | Some u \<Rightarrow>
               if \<not> ws_server w then Inl NullDeref
               else Inr (w\<lparr>ws_user := (ws_user w)(u := Some (createPeer u)),
                           ws_peers := insert (createPeer u) (ws_peers w)\<rparr>))
      | LWS_RECEIVE \<Rightarrow>
          (case peer of
             None \<Rightarrow> Inl NullDeref
           | Some p \<Rightarrow>
               if p \<in> ws_peers w then Inr (w\<lparr>ws_messages := ws_messages w @ [(p, msg)]\<rparr>)
               else Inl UseAfterFree)
      | LWS_CLOSED \<Rightarrow>
          (case peer of
             None \<Rightarrow> Inr w
           | Some p \<Rightarrow>
               if p \<in> ws_peers w then Inr (w\<lparr>ws_peers := ws_peers w - {p}\<rparr>) else Inl UseAfterFree)
      | LWS_OTHER \<Rightarrow> Inr w)"

text \<open>The other protocol: no session of it has a peer.\<close>

definition callback_http :: "nat option \<Rightarrow> ws_reason \<Rightarrow> string \<Rightarrow> ws_state \<Rightarrow> ws_state res" where
  "callback_http user reason msg w = Inr w"

lemma receive_all:
  assumes "ws_user w u = Some p" and "p \<in> ws_peers w"
  shows "foldE (callback_websocket createPeer (Some u) LWS_RECEIVE) ms w =
    Inr (w\<lparr>ws_messages := ws_messages w @ map (Pair p) ms\<rparr>)"
  using assms
  by (induction ms arbitrary: w) (simp_all add: callback_websocket_def)

text \<open>
  A session gets one peer, the peer gets the messages in order, and closing frees it; the
  session's cell still points to it, so a later receive uses freed memory.
\<close>

theorem websocket_session:
  assumes "ws_server w" and "createPeer u \<notin> ws_peers w"
  shows "\<exists>w1 w2 w3. callback_websocket createPeer (Some u) LWS_ESTABLISHED [] w = Inr w1
    \<and> foldE (callback_websocket createPeer (Some u) LWS_RECEIVE) ms w1 = Inr w2
    \<and> ws_messages w2 = ws_messages w @ map (Pair (createPeer u)) ms
    \<and> callback_websocket createPeer (Some u) LWS_CLOSED [] w2 = Inr w3 \<and> ws_peers w3 = ws_peers w
    \<and> callback_websocket createPeer (Some u) LWS_RECEIVE m w3 = Inl UseAfterFree"
proof -
  let ?w1 = "w\<lparr>ws_user := (ws_user w)(u := Some (createPeer u)),
              ws_peers := insert (createPeer u) (ws_peers w)\<rparr>"
  have "callback_websocket createPeer (Some u) LWS_ESTABLISHED [] w = Inr ?w1"
    using assms(1) by (simp add: callback_websocket_def)
  moreover have "foldE (callback_websocket createPeer (Some u) LWS_RECEIVE) ms ?w1 =
      Inr (?w1\<lparr>ws_messages := ws_messages ?w1 @ map (Pair (createPeer u)) ms\<rparr>)"
    by (rule receive_all) simp_all
  ultimately show ?thesis using assms(2) by (simp add: callback_websocket_def)
qed

theorem websocket_session_witness:
  "\<exists>w3. callback_websocket (\<lambda>u. 40 + u) (Some 1) LWS_RECEIVE ''x'' w3 = Inl UseAfterFree \<and> ws_peers w3 = {}"
  using websocket_session
    [of "\<lparr>ws_server = True, ws_user = (\<lambda>_. None), ws_peers = {}, ws_messages = []\<rparr>" "\<lambda>u. 40 + u" 1
      "[''a'']" "''x''"]
  by auto

section \<open>Sending\<close>

text \<open>\<open>memcpy\<close> to an offset of a buffer.\<close>

definition memcpy_at :: "nat \<Rightarrow> string \<Rightarrow> string \<Rightarrow> string res" where
  "memcpy_at off dst src =
     (if off + length src \<le> length dst
      then Inr (take off dst @ src @ drop (off + length src) dst) else Inl OutOfBounds)"

text \<open>The padding sizes are constants of libwebsockets; \<open>fresh\<close> is the new buffer's content.\<close>

definition ws_send :: "nat \<Rightarrow> nat \<Rightarrow> (nat \<Rightarrow> string) \<Rightarrow> string \<Rightarrow> string res" where
  "ws_send pre post fresh msg =
     (let len = length (c_str msg) in
      bindE (memcpy_at pre (fresh (pre + len + post)) (c_str msg)) (\<lambda>buf.
      Inr (take len (drop pre buf))))"

text \<open>For all padding sizes the payload given to the library is the C string itself.\<close>

theorem ws_send_payload:
  assumes "\<And>k. length (fresh k) = k"
  shows "ws_send pre post fresh msg = Inr (c_str msg)"
  using assms by (simp add: ws_send_def memcpy_at_def Let_def)

theorem ws_send_payload_witness:
  "ws_send 16 4 (\<lambda>k. replicate k NUL) ''hello'' = Inr (c_str ''hello'')"
  by (rule ws_send_payload) simp

section \<open>The server\<close>

text \<open>
  The servers of the process by address: which are to quit, which have a context of the library, and
  the one the global variable \<open>curWebSocketServer\<close> points to.
\<close>

record ws_process =
  ws_cur :: "nat option"
  ws_bQuit :: "nat \<Rightarrow> bool"
  ws_context :: "nat \<Rightarrow> bool"

text \<open>
  What the constructor tells the library: the port, the table of protocols with the bytes of session
  storage each asks for (a pointer to the peer for pub-sub), and that no user or group is set.
\<close>

datatype ws_callback = CallbackHttp | CallbackWebsocket

definition protocols :: "(string \<times> ws_callback \<times> nat) list" where
  "protocols = [(''http-only'', CallbackHttp, 0), (''pub-sub'', CallbackWebsocket, 8)]"

record ws_info =
  info_port :: int
  info_protocols :: "(string \<times> ws_callback \<times> nat) list"
  info_gid :: int
  info_uid :: int

text \<open>The constructor; None when the context cannot be created and the process exits.\<close>

definition IWebSocketServer :: "(ws_info \<Rightarrow> bool) \<Rightarrow> nat \<Rightarrow> int \<Rightarrow> ws_process \<Rightarrow> ws_process option" where
  "IWebSocketServer create_context this port p =
     (let p = p\<lparr>ws_cur := Some this, ws_bQuit := (ws_bQuit p)(this := False)\<rparr>;
          info = \<lparr>info_port = port, info_protocols = protocols, info_gid = -1, info_uid = -1\<rparr> in
      if create_context info then Some (p\<lparr>ws_context := (ws_context p)(this := True)\<rparr>) else None)"

definition ws_close :: "nat \<Rightarrow> ws_process \<Rightarrow> ws_process" where
  "ws_close this p = p\<lparr>ws_bQuit := (ws_bQuit p)(this := True)\<rparr>"

text \<open>
  The loop of \<open>run\<close>: what the library does in turn \<open>i\<close>, its callbacks and the other threads included, is
  the parameter \<open>service\<close>. None when the loop never ends.
\<close>

partial_function (option) ws_run ::
  "(nat \<Rightarrow> ws_process \<Rightarrow> ws_process res) \<Rightarrow> nat \<Rightarrow> nat \<Rightarrow> ws_process \<Rightarrow> ws_process res option" where
  "ws_run service this i p =
     (if ws_bQuit p this then Some (Inr (p\<lparr>ws_context := (ws_context p)(this := False)\<rparr>))
      else case service i p of
        Inl f \<Rightarrow> Some (Inl f)
      | Inr p \<Rightarrow> ws_run service this (Suc i) p)"

text \<open>
  \<open>start\<close>: the thread runs the loop; a \<open>const char*\<close> it throws ends the process with status 1, any other
  exception the thread ends it at once.
\<close>

datatype ws_thread = Ended ws_process | Exited int | Crashed fault

definition ws_start ::
  "(nat \<Rightarrow> ws_process \<Rightarrow> ws_process res) \<Rightarrow> nat \<Rightarrow> ws_process \<Rightarrow> ws_thread option" where
  "ws_start service this p =
     map_option (\<lambda>r. case r of
         Inr q \<Rightarrow> Ended q
       | Inl f \<Rightarrow> (case f of Thrown e \<Rightarrow> if take 5 e = ''std::'' then Crashed f else Exited 1 | _ \<Rightarrow> Crashed f))
       (ws_run service this 0 p)"

text \<open>The destructor; the member \<open>thread\<close> must not be destroyed while it runs.\<close>

definition IWebSocketServer_dtor :: "bool \<Rightarrow> nat \<Rightarrow> ws_process \<Rightarrow> ws_process res" where
  "IWebSocketServer_dtor started this p =
     (let p = ws_close this p in if started then Inl (Thrown ''std::terminate'') else Inr p)"

text \<open>The server \<open>callback_websocket\<close> asks for a peer, whichever context the session is on.\<close>

definition creating_server :: "ws_process \<Rightarrow> nat res" where
  "creating_server p = deref (ws_cur p)"

lemma ws_run_turns:
  assumes "foldE service [i..<i + k] p = Inr q" and "ws_bQuit q this"
    and "\<And>j u. j < k \<Longrightarrow> foldE service [i..<i + j] p = Inr u \<Longrightarrow> \<not> ws_bQuit u this"
  shows "ws_run service this i p = Some (Inr (q\<lparr>ws_context := (ws_context q)(this := False)\<rparr>))"
  using assms
proof (induction k arbitrary: i p)
  case 0
  then show ?case by (subst ws_run.simps) simp
next
  case (Suc k)
  have range: "[i..<i + Suc j] = i # [Suc i..<Suc i + j]" for j
    by (simp add: upt_conv_Cons)
  obtain u where u: "service i p = Inr u" "foldE service [Suc i..<Suc i + k] u = Inr q"
    using Suc.prems(1) range [of k] by auto
  have "\<not> ws_bQuit v this" if "j < k" "foldE service [Suc i..<Suc i + j] u = Inr v" for j v
  proof (rule Suc.prems(3) [of "Suc j"])
    show "foldE service [i..<i + Suc j] p = Inr v" unfolding range using that(2) u(1) by simp
  qed (use that(1) in simp)
  from Suc.IH [OF u(2) Suc.prems(2) this]
  have rest: "ws_run service this (Suc i) u = Some (Inr (q\<lparr>ws_context := (ws_context q)(this := False)\<rparr>))" .
  have "\<not> ws_bQuit p this" using Suc.prems(3) [of 0 p] by simp
  then show ?case unfolding ws_run.simps [of service this i p] u(1) sum.case rest by (simp only: if_False)
qed

text \<open>
  The server's thread serves turn after turn and returns right after the first turn in which the
  server was closed, with the effects of all turns up to then and its context destroyed.
\<close>

theorem websocket_run_returns:
  assumes "foldE service [0..<k] p = Inr q" and "ws_bQuit q this"
    and "\<And>j u. j < k \<Longrightarrow> foldE service [0..<j] p = Inr u \<Longrightarrow> \<not> ws_bQuit u this"
  shows "\<exists>r. ws_run service this 0 p = Some (Inr r) \<and> \<not> ws_context r this \<and> ws_cur r = ws_cur q
    \<and> (\<forall>s. s \<noteq> this \<longrightarrow> ws_context r s = ws_context q s)"
  using ws_run_turns [of service 0 k p q this] assms by simp

text \<open>A turn that throws a message ends the process with status 1, whatever was served before.\<close>

lemma ws_run_throws:
  assumes "foldE service [i..<i + k] p = Inr q" and "\<not> ws_bQuit q this" and "service (i + k) q = Inl f"
    and "\<And>j u. j < k \<Longrightarrow> foldE service [i..<i + j] p = Inr u \<Longrightarrow> \<not> ws_bQuit u this"
  shows "ws_run service this i p = Some (Inl f)"
  using assms
proof (induction k arbitrary: i p)
  case 0
  then show ?case by (subst ws_run.simps) simp
next
  case (Suc k)
  have range: "[i..<i + Suc j] = i # [Suc i..<Suc i + j]" for j by (simp add: upt_conv_Cons)
  obtain u where u: "service i p = Inr u" "foldE service [Suc i..<Suc i + k] u = Inr q"
    using Suc.prems(1) range [of k] by auto
  have next_turn: "service (Suc i + k) q = Inl f" using Suc.prems(3) by simp
  have "\<not> ws_bQuit v this" if "j < k" "foldE service [Suc i..<Suc i + j] u = Inr v" for j v
  proof (rule Suc.prems(4) [of "Suc j"])
    show "foldE service [i..<i + Suc j] p = Inr v" unfolding range using that(2) u(1) by simp
  qed (use that(1) in simp)
  from Suc.IH [OF u(2) Suc.prems(2) next_turn this] have "ws_run service this (Suc i) u = Some (Inl f)" .
  moreover have "\<not> ws_bQuit p this" using Suc.prems(4) [of 0 p] by simp
  ultimately show ?case unfolding ws_run.simps [of service this i p] u(1) sum.case by (simp only: if_False)
qed

theorem websocket_exception_exits:
  assumes "foldE service [0..<k] p = Inr q" and "\<not> ws_bQuit q this"
    and "service k q = Inl (Thrown e)" and "take 5 e \<noteq> ''std::''"
    and "\<And>j u. j < k \<Longrightarrow> foldE service [0..<j] p = Inr u \<Longrightarrow> \<not> ws_bQuit u this"
  shows "ws_start service this p = Some (Exited 1)"
  using ws_run_throws [of service 0 k p q this "Thrown e"] assms by (simp add: ws_start_def)

theorem websocket_run_returns_witness:
  "\<exists>r. ws_run (\<lambda>i p. Inr (if i = 2 then ws_close 0 p else p)) 0 0
      \<lparr>ws_cur = Some 0, ws_bQuit = (\<lambda>_. False), ws_context = (\<lambda>_. True)\<rparr> = Some (Inr r) \<and> \<not> ws_context r 0"
proof -
  let ?service = "\<lambda>i p. Inr (if i = (2::nat) then ws_close 0 p else p) :: ws_process res"
  let ?p = "\<lparr>ws_cur = Some 0, ws_bQuit = (\<lambda>_. False), ws_context = (\<lambda>_. True)\<rparr>"
  have upt: "[0..<0] = []" "[0..<1] = [0]" "[0..<2] = [0, 1]" "[0..<3] = [0, 1, 2::nat]"
    by (simp_all add: upt_rec)
  have run: "foldE ?service [0..<3] ?p = Inr (ws_close 0 ?p)" unfolding upt by simp
  have quit: "ws_bQuit (ws_close 0 ?p) 0" by (simp add: ws_close_def)
  have never: "\<not> ws_bQuit u 0" if j: "j < 3" and u: "foldE ?service [0..<j] ?p = Inr u" for j u
  proof -
    from j consider "j = 0" | "j = 1" | "j = 2" by linarith
    then have "foldE ?service [0..<j] ?p = Inr ?p" by cases (simp_all only: upt, simp_all)
    with u show ?thesis by auto
  qed
  obtain r where "ws_run ?service 0 0 ?p = Some (Inr r)" "\<not> ws_context r 0"
    using websocket_run_returns [OF run quit] never by blast
  then show ?thesis by blast
qed

text \<open>
  A second server takes over the sessions of the first: peers of sessions on the first server's
  context are created by the one constructed last.
\<close>

theorem last_server_creates_peers:
  assumes "IWebSocketServer cc a porta p = Some q" and "IWebSocketServer cc b portb q = Some r"
  shows "creating_server r = Inr b \<and> ws_context r a"
  using assms by (auto simp: IWebSocketServer_def creating_server_def Let_def split: if_splits)

theorem last_server_creates_peers_witness:
  "\<exists>q r. IWebSocketServer (\<lambda>_. True) 0 80 \<lparr>ws_cur = None, ws_bQuit = (\<lambda>_. False), ws_context = (\<lambda>_. False)\<rparr> = Some q
    \<and> IWebSocketServer (\<lambda>_. True) 1 81 q = Some r \<and> creating_server r = Inr 1 \<and> ws_context r 0"
proof -
  obtain q r where "IWebSocketServer (\<lambda>_. True) 0 80
        \<lparr>ws_cur = None, ws_bQuit = (\<lambda>_. False), ws_context = (\<lambda>_. False)\<rparr> = Some q"
      "IWebSocketServer (\<lambda>_. True) 1 81 q = Some r"
    by (simp add: IWebSocketServer_def Let_def)
  with last_server_creates_peers [OF this] show ?thesis by blast
qed

end
