(* ===== verification/Spec2Isabelle.thy ===== *)
theory Spec2Isabelle
  imports Demo_Runs Demo_Publish Locks Endpoints Websocket
begin

text \<open>
  A model of libpubsub (src/src), a C++ library with which processes on a network publish and
  subscribe to named channels.

  The program. A process is a Host of a mesh: it listens on a signaling port, dials the hosts it is
  told about, exchanges identifiers with them, and passes on the addresses of the hosts that are
  ready (mesh.cpp). Over the same connections it tells which channels it publishes, asks for a
  transport to a channel, and answers with an offer (signaling.cpp, channel.cpp, channel.h); the data
  then flows over a connection of its own, or through shared memory (shm.h, utils/shm.cpp). Everything
  rests on the threads of TCPSocket and TCPServer (utils/Socket.cpp), which run the callbacks the
  other parts store in them. libpubsub.cpp and bin/ are the outside. protocols/ and
  utils/websocket.cpp are transports that the rest of the library does not use yet.

  The state. A process is the record \<open>node\<close> of Node_State. An object that C++ reaches through a
  pointer is an entry of one of five tables (sockets, servers, hosts, channels, subscriptions) under
  an address; \<open>hosts\<close> and \<open>channels\<close> are the two registries, lists of addresses as the vectors of the
  code are. \<open>delete\<close> removes the entry, so that a later use is the fault \<open>UseAfterFree\<close>. A lambda that
  is stored in an object is a constructor of \<open>open_cb\<close>, \<open>close_cb\<close>, \<open>recv_cb\<close> or \<open>accept_cb\<close> with its
  captures. What the process does to the outside is appended to \<open>out\<close>. Operations return the new
  state or a \<open>fault\<close>: a null pointer, a deleted object, a spoiled iterator, a dangling capture, the
  end of a buffer, an endless recursion, or an exception. What the operating system decides is
  the argument \<open>env\<close>: names that resolve, ports that can be bound, the random identifier, the content
  of shared memory. Integers of the code that are parsed from text are kept in the range of a
  32-bit \<open>int\<close> by \<open>atoi\<close> (CLib); sizes are converted to 64 bits where the code does.

  The theories, in the order the code has the parts:
    Prelude: faults and their sequencing, loops over a vector, the collections \<open>handler_simps\<close> and
      \<open>frame_simps\<close>; CLib: characters, C strings, printing and reading integers.
    StrUtils: utils/utils.cpp; cutting at separators, and termination of \<open>str_replace\<close>.
    Node_State: the classes' data; the locale \<open>heap_table\<close>, interpreted for each of the five tables.
    Sockets: utils/Socket.cpp; the splitter is a one-pass reference splitter, the locale \<open>framing\<close> is
      interpreted for NUL and for newline termination, and the port scan finds the least free port.
    Mesh, Mesh_Props: mesh.cpp without its receive handlers; well-formed meshes, what a broadcast
      sends, and the locale \<open>keyed_registry\<close>, interpreted for hosts here and for channels later.
    Channels, Signaling: channel.h, channel.cpp, shm.h, signaling.cpp; Channel_Props: the registry, the
      choice of a publisher, and the directory of publishers as an abstract map that the statements
      implement.
    Handlers: the receive handlers of mesh.cpp, the turns of the threads of Socket.cpp, the calls of
      libpubsub.cpp; every entry point is an \<open>event\<close>, and \<open>reachable\<close> is the relation of their runs.
    Negotiation, Handshake, Gossip, Delivery: what two processes achieve together, each theorem
      running the handlers of one on the bytes the handlers of the other sent. End_To_End composes
      them: a subscription from its request to the messages that arrive in both directions, and how a
      channel goes away again, withdrawn or with the connection to its host. Late_Joiner: what a host is
      told of the channels when it becomes ready after they were published.
    Invariant: the invariant of every reachable state, operation by operation.
    Memory_Safety: a process that never subscribes. Every event is handled to its end or ends in a
      fault that is named for that event; the rules for this follow the code, one per operation.
    Locks: the mutexes. Every function is described by what it locks and which registry it touches;
      any number of threads run these descriptions interleaved. Disciplines that are checked on the
      text of a function give absence of deadlock and of races; two theorems show where the code
      leaves them.
    Socket_Threads: the threads of utils/Socket.cpp from one blocking call to the next, and a process
      with all of them; it refines the events.
    Network, Mesh_Growth: several such processes and the connections between them. Each only reaches
      states it reaches alone; a dialled connection can be brought to two ready hosts; and a process
      that joins one member of a mesh is introduced to all the others through the list of hosts.
    Channel_Runs, Net_Publish: publishing and subscribing in a network, from the call of publish in one
      application to the callbacks in the others: first the state each turn leaves, then the network,
      in which any number of linked processes are told of the channel, join it and are sent its
      messages. Net_Stream: in all runs from there each subscriber is given an initial part of the
      bytes written, whatever the interleaving and however they are cut on the way; Net_Reply: what
      the subscribers write back.
    Process_Exit: the handler of SIGINT and the exit hook of mesh.cpp.
    Shm_Handoff, Shm_Segment: utils/shm.cpp and shm.cpp; the hand-off of the segment between threads,
      instruction by instruction, refines a one-place buffer; how its two ends meet.
    Transports: protocols/; descriptions, the search for a port, pipes, the factories. Endpoints: what
      the two ends of a transport do then, send, the reader threads and on_receive.
    Websocket: utils/websocket.cpp: callbacks, protocol table, sending, the server from its start to
      its destructor with the loop between. Pubsub_Api: libpubsub.cpp and .h, the
      memory of a channel, the DBG level, bin/ and test/mesh.cpp.
    Demo, Demo_Runs, Demo_Network, Demo_Publish: concrete processes, alone, in pairs, as three processes
      of one machine and as two machines, to which the theorems are applied.

  Threads. A turn of a socket thread (connected, received, closed), of the accept loop, and a call
  of the application is one step on the node, in any order, also orders the operating system would
  not produce. Socket_Threads has the threads as they are written, blocked and resumed, and shows
  that they only do such steps. In Network the answers of the blocking calls come from the other
  processes: a dialling socket reaches a server that listens, and bytes that were sent arrive in
  order, in pieces of any size. What entitles a turn to be one step is the subject of Locks: where the functions keep
  to the mutexes no other thread can come between their accesses to a registry. registries_race
  shows two places where they do not; that and unlocked accesses to the fields of one object are
  outside the node model. The shared memory hand-off, which has no lock, is modelled with all
  interleavings of its instructions.

  Loops. Loops over vectors are recursion on the list. The index loops of the splitter and the port
  scan carry a measure. \<open>str_replace\<close>, the search through the port files and
  \<open>Subscription::alloc\<close> may run for ever: they are partial functions into option, and that they
  return, or do not, is a theorem. The endless loops of the programs in bin/ take a number of rounds.
  The loop of a websocket server is a partial function too. The threads of Locks have no fuel: what
  they can do is a relation, and the way on in locks_no_deadlock is found by a measure.

  Not modelled: the output of the DBG macros other than that of pubsub_dump (no state depends on
  it), the usage text of pubsub_dump, which is never printed, what libwebsockets does inside a turn, and the classes that are only declared. In Locks the tests on data are choices of the thread, and a close callback
  takes no mutex, as in the code. Several calls of the sources match no declaration (for instance
  \<open>SHM::create\<close>, or \<open>connect_tcp\<close> with an argument); where the intention is plain the model follows
  it, and what no file defines is an argument.
\<close>

end
